(* ===== verification/Prelude.thy ===== *)
theory Prelude
  imports Main "HOL-Library.Word"
begin

text \<open>
  The types and the generic lemmas shared by the component theories.

  The C integer types of the kernel are words of their width: \<open>uint8_t\<close>, \<open>uint16_t\<close>,
  \<open>uint32_t\<close> and \<open>uint64_t\<close> are \<open>u8\<close> to \<open>u64\<close>; \<open>size_t\<close> and every pointer are \<open>u64\<close>, the
  null pointer being \<open>0\<close>. A C \<open>int\<close> that is an index, a process id or an error code is an
  \<open>int\<close>. A C string is the list of its characters up to, and without, the terminating NUL.
\<close>

unbundle bit_operations_syntax

type_synonym u8 = "8 word"
type_synonym u16 = "16 word"
type_synonym u32 = "32 word"
type_synonym u64 = "64 word"
type_synonym bytes = "u8 list"

named_theorems u64_arith

definition PAGE_SIZE :: nat where
  "PAGE_SIZE = 4096"

subsection \<open>Words as natural numbers\<close>

lemma unat_of_nat_u64: "n < 2 ^ 64 \<Longrightarrow> unat (of_nat n :: u64) = n"
  by (simp add: unat_of_nat take_bit_nat_eq_self)

lemma unat_u64_less [simp]: "unat (w :: u64) < 2 ^ 64"
  using unsigned_less [of w] by simp

lemma unat_u64_less' [simp]: "unat (w :: u64) < 18446744073709551616"
  using unat_u64_less [of w] by simp

lemma unat_div_page: "unat (w :: u64) div 4096 < 2 ^ 52"
  by (rule less_mult_imp_div_less) (use unat_u64_less [of w] in simp)

lemma unat_u32_less [simp]: "unat (w :: u32) < 2 ^ 32"
  using unsigned_less [of w] by simp

lemma unat_u8_less [simp]: "unat (w :: u8) < 256"
  using unsigned_less [of w] by simp

lemma u64_add_diff_cancel [simp]: "(a + b) - b = (a :: u64)"
  by simp

lemma unat_add_u64: "unat a + unat b < 2 ^ 64 \<Longrightarrow> unat (a + b :: u64) = unat a + unat b"
  using unat_add_lem [of a b] by simp

lemma unat_sub_u64: "b \<le> a \<Longrightarrow> unat (a - b :: u64) = unat a - unat b"
  by (rule unat_sub)

lemma of_nat_inj_u64: "m < 2 ^ 64 \<Longrightarrow> n < 2 ^ 64 \<Longrightarrow> ((of_nat m :: u64) = of_nat n) = (m = n)"
  by (metis unat_of_nat_u64)

subsection \<open>Counting the elements of an initial segment\<close>

definition count_upto :: "nat \<Rightarrow> (nat \<Rightarrow> bool) \<Rightarrow> nat" where
  "count_upto n P = card {i. i < n \<and> P i}"

lemma count_upto_code [code]: "count_upto n P = length (filter P [0 ..< n])"
proof -
  have "card {i. i < n \<and> P i} = card (set (filter P [0 ..< n]))" by (rule arg_cong [where f = card]) auto
  also have "\<dots> = length (filter P [0 ..< n])" by (rule distinct_card) simp
  finally show ?thesis unfolding count_upto_def .
qed

lemma count_upto_0 [simp]: "count_upto 0 P = 0"
  by (simp add: count_upto_def)

lemma count_upto_le: "count_upto n P \<le> n"
proof -
  have "card {i. i < n \<and> P i} \<le> card {..<n}"
    by (rule card_mono) auto
  then show ?thesis by (simp add: count_upto_def)
qed

lemma count_upto_cong: "(\<And>i. i < n \<Longrightarrow> P i = Q i) \<Longrightarrow> count_upto n P = count_upto n Q"
  unfolding count_upto_def by (rule arg_cong [where f = card]) auto

lemma count_upto_remove:
  assumes "k < n" "P k"
  shows "count_upto n P = Suc (count_upto n (\<lambda>i. P i \<and> i \<noteq> k))"
proof -
  have eq: "{i. i < n \<and> P i} = insert k {i. i < n \<and> P i \<and> i \<noteq> k}"
    using assms by auto
  show ?thesis
    unfolding count_upto_def by (subst eq) (simp add: card_insert_if)
qed

lemma count_upto_minus_interval:
  assumes "s + m \<le> n" "\<And>i. s \<le> i \<Longrightarrow> i < s + m \<Longrightarrow> P i"
  shows "count_upto n P = m + count_upto n (\<lambda>i. P i \<and> \<not> (s \<le> i \<and> i < s + m))"
proof -
  have eq: "{i. i < n \<and> P i} = {s..<s + m} \<union> {i. i < n \<and> P i \<and> \<not> (s \<le> i \<and> i < s + m)}"
    using assms by fastforce
  show ?thesis
    unfolding count_upto_def by (subst eq) (subst card_Un_disjoint, auto)
qed


lemma find_map_comp: "find P (map f xs) = map_option f (find (P \<circ> f) xs)"
  by (induction xs) auto

lemma find_upt_Suc:
  "find P [0 ..< Suc n] = (if P 0 then Some 0 else map_option Suc (find (P \<circ> Suc) [0 ..< n]))"
proof -
  have "[0 ..< Suc n] = 0 # map Suc [0 ..< n]" unfolding map_Suc_upt by (rule upt_conv_Cons) simp
  then show ?thesis by (simp only: find.simps find_map_comp)
qed

lemma ring_index: "t < m \<Longrightarrow> i < m \<Longrightarrow> (t + i) mod m = (if t + i < m then t + i else t + i - m)" for m :: nat
  by (simp add: mod_if)

lemma ring_index_inj: "t < m \<Longrightarrow> i < m \<Longrightarrow> l < m \<Longrightarrow> (t + i) mod m = (t + l) mod m \<Longrightarrow> i = l" for m :: nat
  by (simp add: ring_index split: if_splits)

lemma take_upt_min: "take n [0 ..< m] = [0 ..< min n m]"
  by (cases "n \<le> m") (simp_all add: min_def)

end
