(* ===== verification/Pmm.thy ===== *)
theory Pmm
  imports Prelude
begin

text \<open>
  The physical memory manager, \<open>kernel/src/mm/pmm.c\<close>: a bitmap with one bit per 4 KiB frame
  (set: in use), first-fit allocation of runs of frames, release with a double-free check.
  The bitmap is the memory from the \<open>bitmap\<close> pointer on, a total function of the byte index,
  so that an index past \<open>bitmap_size\<close> reads and writes whatever memory is there, as in C.
\<close>

subsection \<open>The state and the boot information\<close>

datatype memmap_type =
    LIMINE_MEMMAP_USABLE | LIMINE_MEMMAP_RESERVED | LIMINE_MEMMAP_ACPI_RECLAIMABLE
  | LIMINE_MEMMAP_ACPI_NVS | LIMINE_MEMMAP_BAD_MEMORY | LIMINE_MEMMAP_BOOTLOADER_RECLAIMABLE
  | LIMINE_MEMMAP_KERNEL_AND_MODULES | LIMINE_MEMMAP_FRAMEBUFFER

record memmap_entry =
  me_base :: u64
  me_length :: u64
  me_type :: memmap_type

record pmm =
  bitmap_ptr :: u64
  bitmap :: "nat \<Rightarrow> u8"
  usable_bytes :: u64
  bitmap_size :: u64
  total_pages :: u64
  free_pages :: u64
  highest_page :: u64
  hhdm_offset :: u64

subsection \<open>Bits\<close>

definition bitmap_set :: "nat \<Rightarrow> pmm \<Rightarrow> pmm" where
  "bitmap_set page p = p\<lparr>bitmap := (bitmap p)(page div 8 :=
     bitmap p (page div 8) OR push_bit (page mod 8) 1)\<rparr>"

definition bitmap_clear :: "nat \<Rightarrow> pmm \<Rightarrow> pmm" where
  "bitmap_clear page p = p\<lparr>bitmap := (bitmap p)(page div 8 :=
     bitmap p (page div 8) AND NOT (push_bit (page mod 8) 1))\<rparr>"

definition bitmap_test :: "pmm \<Rightarrow> nat \<Rightarrow> bool" where
  "bitmap_test p page \<longleftrightarrow> bitmap p (page div 8) AND push_bit (page mod 8) 1 \<noteq> 0"


subsection \<open>Initialisation\<close>

definition pmm_top :: "memmap_entry list \<Rightarrow> u64" where
  "pmm_top es = fold (\<lambda>e top. let entry_top = me_base e + me_length e
                             in if entry_top > top then entry_top else top) es 0"

definition place_bitmap :: "memmap_entry list \<Rightarrow> pmm \<Rightarrow> pmm" where
  "place_bitmap es p =
     (case find (\<lambda>e. me_type e = LIMINE_MEMMAP_USABLE \<and> me_length e \<ge> bitmap_size p) es of
        None \<Rightarrow> p
      | Some e \<Rightarrow> p\<lparr>bitmap_ptr := me_base e + hhdm_offset p,
                   bitmap := (\<lambda>i. if i < unat (bitmap_size p) then 0xFF else bitmap p i)\<rparr>)"

definition release_page :: "nat \<Rightarrow> pmm \<Rightarrow> pmm" where
  "release_page page p =
     (if page < unat (total_pages p)
      then (bitmap_clear page p)\<lparr>free_pages := free_pages p + 1\<rparr> else p)"

definition entry_pages :: "memmap_entry \<Rightarrow> nat list" where
  "entry_pages e = (let start_page = unat (me_base e) div PAGE_SIZE;
                        page_count = unat (me_length e) div PAGE_SIZE
                    in [start_page ..< start_page + page_count])"

definition free_region :: "memmap_entry \<Rightarrow> pmm \<Rightarrow> pmm" where
  "free_region e p =
     (if me_type e \<noteq> LIMINE_MEMMAP_USABLE then p
      else fold release_page (entry_pages e)
             (p\<lparr>usable_bytes := usable_bytes p + me_length e\<rparr>))"

definition reserve_page :: "nat \<Rightarrow> pmm \<Rightarrow> pmm" where
  "reserve_page page p =
     (if \<not> bitmap_test p page
      then (bitmap_set page p)\<lparr>free_pages := free_pages p - 1\<rparr> else p)"

definition bitmap_pages :: "pmm \<Rightarrow> nat list" where
  "bitmap_pages p = (let bm_page = unat (bitmap_ptr p - hhdm_offset p) div PAGE_SIZE;
                         bm_count = unat (bitmap_size p + 4096 - 1) div PAGE_SIZE
                     in [bm_page ..< bm_page + bm_count])"

definition pmm_init :: "memmap_entry list option \<Rightarrow> pmm \<Rightarrow> pmm" where
  "pmm_init memmap p =
     (case memmap of
        None \<Rightarrow> p
      | Some es \<Rightarrow>
          let tp = pmm_top es div 4096;
              p1 = place_bitmap es (p\<lparr>total_pages := tp, highest_page := tp,
                                      bitmap_size := (tp + 7) div 8\<rparr>)
          in if bitmap_ptr p1 = 0 then p1
             else let p2 = fold free_region es (p1\<lparr>free_pages := 0, usable_bytes := 0\<rparr>);
                      p3 = fold reserve_page (bitmap_pages p2) p2
                  in p3\<lparr>highest_page := of_nat (unat (bitmap_ptr p3 - hhdm_offset p3) div PAGE_SIZE)\<rparr>)"

subsection \<open>Allocation and release\<close>

function scan_run :: "pmm \<Rightarrow> nat \<Rightarrow> nat \<Rightarrow> nat \<Rightarrow> nat \<Rightarrow> nat \<Rightarrow> nat option" where
  "scan_run p limit pages i consecutive start =
     (if i < limit then
        if \<not> bitmap_test p i then
          let start' = (if consecutive = 0 then i else start);
              consecutive' = consecutive + 1
          in if consecutive' = pages then Some start'
             else scan_run p limit pages (i + 1) consecutive' start'
        else scan_run p limit pages (i + 1) 0 start
      else None)"
  by pat_completeness auto
termination
  by (relation "measure (\<lambda>(p, limit, pages, i, c, s). limit - i)") auto

declare scan_run.simps [simp del]

definition take_run :: "nat \<Rightarrow> u64 \<Rightarrow> pmm \<Rightarrow> pmm" where
  "take_run start pages p =
     (fold bitmap_set [start ..< start + unat pages] p)
       \<lparr>free_pages := free_pages p - pages\<rparr>"

definition alloc_below :: "nat \<Rightarrow> u64 \<Rightarrow> pmm \<Rightarrow> u64 \<times> pmm" where
  "alloc_below limit pages p =
     (case scan_run p limit (unat pages) 0 0 0 of
        None \<Rightarrow> (0, p)
      | Some start \<Rightarrow> (of_nat (start * PAGE_SIZE) + hhdm_offset p, take_run start pages p))"

definition pmm_alloc :: "u64 \<Rightarrow> pmm \<Rightarrow> u64 \<times> pmm" where
  "pmm_alloc pages p =
     (if pages = 0 then (0, p) else alloc_below (unat (total_pages p)) pages p)"

definition pmm_alloc_dma :: "u64 \<Rightarrow> pmm \<Rightarrow> u64 \<times> pmm" where
  "pmm_alloc_dma pages p =
     (if pages = 0 then (0, p)
      else let max_page = (4 * 1024 * 1024 * 1024) div 4096 :: u64;
               max_page = (if max_page > total_pages p then total_pages p else max_page)
           in alloc_below (unat max_page) pages p)"

primrec free_loop :: "nat \<Rightarrow> u64 \<Rightarrow> pmm \<Rightarrow> pmm" where
  "free_loop 0 page p = p"
| "free_loop (Suc n) page p =
     (if \<not> bitmap_test p (unat page) then p
      else free_loop n (page + 1)
             ((bitmap_clear (unat page) p)\<lparr>free_pages := free_pages p + 1\<rparr>))"

definition pmm_free :: "u64 \<Rightarrow> u64 \<Rightarrow> pmm \<Rightarrow> pmm" where
  "pmm_free addr pages p =
     (let phys = addr - hhdm_offset p; start_page = phys div 4096
      in free_loop (unat pages) start_page p)"

definition pmm_get_usable_bytes :: "pmm \<Rightarrow> u64" where
  "pmm_get_usable_bytes p = usable_bytes p"

definition pmm_get_free_pages :: "pmm \<Rightarrow> u64" where
  "pmm_get_free_pages p = free_pages p"

definition pmm_get_total_pages :: "pmm \<Rightarrow> u64" where
  "pmm_get_total_pages p = total_pages p"

definition virt_to_phys :: "pmm \<Rightarrow> u64 \<Rightarrow> u64" where
  "virt_to_phys p virt = virt - hhdm_offset p"

definition phys_to_virt :: "pmm \<Rightarrow> u64 \<Rightarrow> u64" where
  "phys_to_virt p phys = phys + hhdm_offset p"

subsection \<open>The bits behave as a set of pages\<close>

lemma bitmap_test_bit: "bitmap_test p i \<longleftrightarrow> bit (bitmap p (i div 8)) (i mod 8)"
  by (simp add: bitmap_test_def bit_iff_and_push_bit_not_eq_0)

lemma div_mod_8_eq: "(i div 8 = j div 8 \<and> i mod 8 = j mod 8) \<longleftrightarrow> i = (j :: nat)"
  by (metis div_mod_decomp)

lemma bit_exp_u8: "n < 8 \<Longrightarrow> bit (2 ^ m :: u8) n \<longleftrightarrow> m = n"
  by (auto simp: bit_exp_iff)

lemma bitmap_test_set [simp]:
  "bitmap_test (bitmap_set i p) j \<longleftrightarrow> i = j \<or> bitmap_test p j"
  using div_mod_8_eq [of i j]
  by (auto simp: bitmap_test_bit bitmap_set_def bit_or_iff bit_exp_u8)

lemma bitmap_test_clear [simp]:
  "bitmap_test (bitmap_clear i p) j \<longleftrightarrow> i \<noteq> j \<and> bitmap_test p j"
  using div_mod_8_eq [of i j]
  by (auto simp: bitmap_test_bit bitmap_clear_def bit_and_iff bit_not_iff bit_exp_u8)


lemma bitmap_set_fields [simp]:
  "total_pages (bitmap_set i p) = total_pages p" "free_pages (bitmap_set i p) = free_pages p"
  "hhdm_offset (bitmap_set i p) = hhdm_offset p" "bitmap_ptr (bitmap_set i p) = bitmap_ptr p"
  "bitmap_size (bitmap_set i p) = bitmap_size p" "usable_bytes (bitmap_set i p) = usable_bytes p"
  by (simp_all add: bitmap_set_def)

lemma bitmap_clear_fields [simp]:
  "total_pages (bitmap_clear i p) = total_pages p" "free_pages (bitmap_clear i p) = free_pages p"
  "hhdm_offset (bitmap_clear i p) = hhdm_offset p" "bitmap_ptr (bitmap_clear i p) = bitmap_ptr p"
  "bitmap_size (bitmap_clear i p) = bitmap_size p" "usable_bytes (bitmap_clear i p) = usable_bytes p"
  by (simp_all add: bitmap_clear_def)

lemma bitmap_test_update [simp]:
  "bitmap_test (p\<lparr>free_pages := v\<rparr>) i = bitmap_test p i"
  "bitmap_test (p\<lparr>usable_bytes := v\<rparr>) i = bitmap_test p i"
  "bitmap_test (p\<lparr>highest_page := v\<rparr>) i = bitmap_test p i"
  by (simp_all add: bitmap_test_def)

lemma fold_bitmap_set_fields [simp]:
  "total_pages (fold bitmap_set is p) = total_pages p"
  "free_pages (fold bitmap_set is p) = free_pages p"
  "hhdm_offset (fold bitmap_set is p) = hhdm_offset p"
  by (induction "is" arbitrary: p) simp_all

lemma bitmap_test_fold_set [simp]:
  "bitmap_test (fold bitmap_set is p) j \<longleftrightarrow> j \<in> set is \<or> bitmap_test p j"
  by (induction "is" arbitrary: p) auto

subsection \<open>The invariant: \<open>free_pages\<close> counts the clear bits\<close>

definition page_free :: "pmm \<Rightarrow> nat \<Rightarrow> bool" where
  "page_free p i \<longleftrightarrow> i < unat (total_pages p) \<and> \<not> bitmap_test p i"

definition run_free :: "pmm \<Rightarrow> nat \<Rightarrow> nat \<Rightarrow> nat \<Rightarrow> bool" where
  "run_free p limit s n \<longleftrightarrow> s + n \<le> limit \<and> (\<forall>i. s \<le> i \<and> i < s + n \<longrightarrow> \<not> bitmap_test p i)"

definition free_count :: "pmm \<Rightarrow> nat" where
  "free_count p = count_upto (unat (total_pages p)) (\<lambda>i. \<not> bitmap_test p i)"

text \<open>
  The direct map has a nonzero page-aligned base and does not wrap around for any frame of the
  bitmap, as the boot protocol documents; the counter is the number of clear bits.
\<close>

definition hhdm_ok :: "pmm \<Rightarrow> bool" where
  "hhdm_ok p \<longleftrightarrow> hhdm_offset p \<noteq> 0 \<and> PAGE_SIZE dvd unat (hhdm_offset p) \<and>
     unat (hhdm_offset p) + unat (total_pages p) * PAGE_SIZE < 2 ^ 64"

definition pmm_inv :: "pmm \<Rightarrow> bool" where
  "pmm_inv p \<longleftrightarrow> hhdm_ok p \<and> free_pages p = of_nat (free_count p)"

lemma free_count_le: "free_count p \<le> unat (total_pages p)"
  by (simp add: free_count_def count_upto_le)

lemma pmm_inv_total: "pmm_inv p \<Longrightarrow> unat (total_pages p) \<le> 2 ^ 52"
  by (simp add: pmm_inv_def hhdm_ok_def PAGE_SIZE_def)

lemma pmm_inv_free_pages: "pmm_inv p \<Longrightarrow> unat (free_pages p) = free_count p"
proof -
  assume inv: "pmm_inv p"
  have "free_count p < 2 ^ 64"
    using free_count_le [of p] pmm_inv_total [OF inv] by simp
  with inv show ?thesis by (simp add: pmm_inv_def unat_of_nat_u64)
qed

lemma take_run_test [simp]:
  "bitmap_test (take_run s n p) i \<longleftrightarrow> (s \<le> i \<and> i < s + unat n) \<or> bitmap_test p i"
  by (auto simp: take_run_def)

lemma take_run_fields [simp]:
  "total_pages (take_run s n p) = total_pages p"
  "hhdm_offset (take_run s n p) = hhdm_offset p"
  "free_pages (take_run s n p) = free_pages p - n"
  by (simp_all add: take_run_def)

lemma free_count_take_run:
  assumes "run_free p (unat (total_pages p)) s (unat n)"
  shows "free_count p = unat n + free_count (take_run s n p)"
proof -
  have "free_count p = unat n + count_upto (unat (total_pages p))
      (\<lambda>i. \<not> bitmap_test p i \<and> \<not> (s \<le> i \<and> i < s + unat n))"
    unfolding free_count_def using assms
    by (intro count_upto_minus_interval) (auto simp: run_free_def)
  also have "count_upto (unat (total_pages p)) (\<lambda>i. \<not> bitmap_test p i \<and> \<not> (s \<le> i \<and> i < s + unat n))
      = free_count (take_run s n p)"
    unfolding free_count_def by (auto intro!: count_upto_cong)
  finally show ?thesis .
qed

lemma take_run_inv:
  assumes "pmm_inv p" "run_free p (unat (total_pages p)) s (unat n)"
  shows "pmm_inv (take_run s n p)"
  using assms free_count_take_run [OF assms(2)] by (simp add: pmm_inv_def hhdm_ok_def)

subsection \<open>The scan is a first-fit search\<close>

text \<open>
  During the scan the \<open>consecutive\<close> pages before \<open>i\<close> are clear and start at \<open>start\<close>, and no
  run of the wanted length starts before that.
\<close>

definition scan_state :: "pmm \<Rightarrow> nat \<Rightarrow> nat \<Rightarrow> nat \<Rightarrow> nat \<Rightarrow> bool" where
  "scan_state p pages i c s \<longleftrightarrow>
     c < pages \<and> c \<le> i \<and> (0 < c \<longrightarrow> s = i - c) \<and>
     (\<forall>j. i - c \<le> j \<and> j < i \<longrightarrow> \<not> bitmap_test p j) \<and>
     (\<forall>t < i - c. \<exists>j. t \<le> j \<and> j < t + pages \<and> j < i \<and> bitmap_test p j)"

lemma scan_state_free:
  assumes "scan_state p pages i c s" "\<not> bitmap_test p i" "c + 1 \<noteq> pages"
  shows "scan_state p pages (i + 1) (c + 1) (if c = 0 then i else s)"
  using assms less_Suc_eq unfolding scan_state_def by fastforce

lemma scan_state_used:
  assumes st: "scan_state p pages i c s" and used: "bitmap_test p i"
  shows "scan_state p pages (i + 1) 0 s"
proof -
  have "\<exists>j. t \<le> j \<and> j < t + pages \<and> j < i + 1 \<and> bitmap_test p j" if "t < i + 1" for t
  proof (cases "t < i - c")
    case True
    with st show ?thesis unfolding scan_state_def by (meson less_SucI Suc_eq_plus1 less_Suc_eq trans_less_add1)
  next
    case False
    with that st used show ?thesis
      unfolding scan_state_def by (intro exI [of _ i]) auto
  qed
  with st show ?thesis by (auto simp: scan_state_def)
qed

lemma scan_run_Some:
  assumes "scan_run p limit pages i c s = Some r" "scan_state p pages i c s"
  shows "run_free p limit r pages \<and>
         (\<forall>t < r. \<exists>j. t \<le> j \<and> j < t + pages \<and> bitmap_test p j)"
  using assms
proof (induction p limit pages i c s rule: scan_run.induct)
  case (1 p limit pages i c s)
  show ?case
  proof (cases "i < limit")
    case False
    with "1.prems" show ?thesis by (simp add: scan_run.simps)
  next
    case lt: True
    show ?thesis
    proof (cases "bitmap_test p i")
      case True
      with lt "1.prems"(1) have "scan_run p limit pages (i + 1) 0 s = Some r"
        by (simp add: scan_run.simps [of p limit pages i])
      with "1.IH"(2) lt True scan_state_used [OF "1.prems"(2)] show ?thesis by simp
    next
      case unused: False
      let ?s = "if c = 0 then i else s"
      show ?thesis
      proof (cases "c + 1 = pages")
        case True
        with lt unused "1.prems"(1) have r: "r = ?s"
          by (simp add: scan_run.simps [of p limit pages i])
        have "r = i - c" using r "1.prems"(2) by (auto simp: scan_state_def)
        with True lt unused "1.prems"(2) show ?thesis
          unfolding scan_state_def run_free_def by (auto simp: less_Suc_eq)
      next
        case False
        with lt unused "1.prems"(1)
        have "scan_run p limit pages (i + 1) (c + 1) ?s = Some r"
          by (simp add: scan_run.simps [of p limit pages i] Let_def)
        with "1.IH"(1) lt unused False scan_state_free [OF "1.prems"(2) unused False]
        show ?thesis by (simp add: Let_def)
      qed
    qed
  qed
qed

lemma scan_run_None:
  assumes "scan_run p limit pages i c s = None" "scan_state p pages i c s" "i \<le> limit"
  shows "\<not> run_free p limit t pages"
  using assms
proof (induction p limit pages i c s rule: scan_run.induct)
  case (1 p limit pages i c s)
  show ?case
  proof (cases "i < limit")
    case False
    with "1.prems" have i: "i = limit" by simp
    show ?thesis
    proof
      assume run: "run_free p limit t pages"
      with i "1.prems"(2) have "t < i - c" by (auto simp: run_free_def scan_state_def)
      with "1.prems"(2) run show False by (auto simp: run_free_def scan_state_def)
    qed
  next
    case lt: True
    show ?thesis
    proof (cases "bitmap_test p i")
      case True
      with lt "1.prems"(1) have "scan_run p limit pages (i + 1) 0 s = None"
        by (simp add: scan_run.simps [of p limit pages i])
      with "1.IH"(2) lt True scan_state_used [OF "1.prems"(2)] show ?thesis by simp
    next
      case unused: False
      with lt "1.prems"(1) have ne: "c + 1 \<noteq> pages"
        and "scan_run p limit pages (i + 1) (c + 1) (if c = 0 then i else s) = None"
        by (auto simp: scan_run.simps [of p limit pages i] Let_def split: if_splits)
      with "1.IH"(1) lt unused scan_state_free [OF "1.prems"(2) unused ne]
      show ?thesis by (simp add: Let_def)
    qed
  qed
qed


lemma scan_state_start: "0 < pages \<Longrightarrow> scan_state p pages 0 0 0"
  by (simp add: scan_state_def)

lemma run_free_mono: "run_free p l s n \<Longrightarrow> l \<le> l' \<Longrightarrow> run_free p l' s n"
  by (auto simp: run_free_def)

lemma alloc_below_cases:
  assumes "0 < pages" "limit \<le> unat (total_pages p)"
  obtains (None) "alloc_below limit pages p = (0, p)" "\<And>t. \<not> run_free p limit t (unat pages)"
  | (Some) s where "alloc_below limit pages p = (of_nat (s * PAGE_SIZE) + hhdm_offset p, take_run s pages p)"
      "run_free p limit s (unat pages)" "\<And>t. t < s \<Longrightarrow> \<not> run_free p limit t (unat pages)"
proof (cases "scan_run p limit (unat pages) 0 0 0")
  case N: None
  have pos: "0 < unat pages" using assms(1) by (simp add: word_less_nat_alt)
  show ?thesis
    using N scan_run_None [OF N scan_state_start [OF pos]] None by (simp add: alloc_below_def)
next
  case S: (Some s)
  have pos: "0 < unat pages" using assms(1) by (simp add: word_less_nat_alt)
  have run: "run_free p limit s (unat pages)"
    and first: "\<And>t. t < s \<Longrightarrow> \<not> run_free p limit t (unat pages)"
    using scan_run_Some [OF S scan_state_start [OF pos]] by (auto simp: run_free_def)
  show ?thesis using Some [of s] S run first by (simp add: alloc_below_def)
qed

subsection \<open>Release\<close>

lemma free_loop_test:
  assumes "unat page + n \<le> 2 ^ 64" "\<forall>i. unat page \<le> i \<and> i < unat page + n \<longrightarrow> bitmap_test p i"
  shows "free_pages (free_loop n page p) = free_pages p + of_nat n \<and>
         (bitmap_test (free_loop n page p) i \<longleftrightarrow>
           bitmap_test p i \<and> \<not> (unat page \<le> i \<and> i < unat page + n))"
  using assms
proof (induction n arbitrary: page p)
  case (Suc n)
  let ?p = "(bitmap_clear (unat page) p)\<lparr>free_pages := free_pages p + 1\<rparr>"
  have test: "bitmap_test p (unat page)" using Suc.prems(2) by simp
  show ?case
  proof (cases "n = 0")
    case False
    then have nxt: "unat (page + 1) = unat page + 1"
      using unat_add_u64 [of page 1] Suc.prems(1) by simp
    have "unat (page + 1) + n \<le> 2 ^ 64"
      "\<forall>i. unat (page + 1) \<le> i \<and> i < unat (page + 1) + n \<longrightarrow> bitmap_test ?p i"
      using nxt Suc.prems by simp_all
    note IH = Suc.IH [OF this]
    from IH test nxt show ?thesis by auto
  qed (use test in auto)
qed simp

lemma free_loop_hhdm [simp]: "hhdm_offset (free_loop n page p) = hhdm_offset p"
  by (induction n arbitrary: page p) auto

lemma unat_page_addr:
  assumes "s < 2 ^ 52"
  shows "unat (of_nat (s * PAGE_SIZE) div 4096 :: u64) = s"
proof -
  have "unat (of_nat (s * PAGE_SIZE) :: u64) = s * PAGE_SIZE"
    using assms by (intro unat_of_nat_u64) (simp add: PAGE_SIZE_def)
  then show ?thesis by (simp add: unat_div PAGE_SIZE_def del: of_nat_mult)
qed


lemma pmm_eqI:
  assumes "\<And>i. bitmap_test p i = bitmap_test q i" "free_pages p = free_pages q"
    "p\<lparr>bitmap := f, free_pages := g\<rparr> = q\<lparr>bitmap := f, free_pages := g\<rparr>"
  shows "p = (q :: pmm)"
proof -
  have "bitmap p i = bitmap q i" for i
  proof (rule bit_word_eqI)
    fix n assume "n < LENGTH(8)"
    then show "bit (bitmap p i) n = bit (bitmap q i) n"
      using assms(1) [of "8 * i + n"] by (simp add: bitmap_test_bit)
  qed
  then have "bitmap p = bitmap q" by (rule ext)
  with assms(2,3) show ?thesis by (cases p, cases q) simp
qed

lemma fold_bitmap_set_frame: "(fold bitmap_set is p)\<lparr>bitmap := f\<rparr> = p\<lparr>bitmap := f\<rparr>"
  by (induction "is" arbitrary: p) (simp_all add: bitmap_set_def)

lemma take_run_frame:
  "(take_run s n p)\<lparr>bitmap := f, free_pages := g\<rparr> = p\<lparr>bitmap := f, free_pages := g\<rparr>"
  using arg_cong [OF fold_bitmap_set_frame, of "\<lambda>x. x\<lparr>free_pages := g\<rparr>"] by (simp add: take_run_def)

lemma free_loop_frame:
  "(free_loop n page p)\<lparr>bitmap := f, free_pages := g\<rparr> = p\<lparr>bitmap := f, free_pages := g\<rparr>"
  by (induction n arbitrary: page p) (simp_all add: bitmap_clear_def)

lemma free_loop_inv:
  assumes "pmm_inv p" "unat page + n \<le> unat (total_pages p)"
  shows "pmm_inv (free_loop n page p)"
  using assms
proof (induction n arbitrary: page p)
  case 0
  then show ?case by simp
next
  case (Suc n)
  let ?p = "(bitmap_clear (unat page) p)\<lparr>free_pages := free_pages p + 1\<rparr>"
  show ?case
  proof (cases "bitmap_test p (unat page)")
    case False
    with Suc.prems show ?thesis by simp
  next
    case True
    have "free_count ?p = Suc (count_upto (unat (total_pages p))
        (\<lambda>i. (\<not> (unat page \<noteq> i \<and> bitmap_test p i)) \<and> i \<noteq> unat page))"
      unfolding free_count_def using Suc.prems(2)
      by (subst count_upto_remove [of "unat page"]) auto
    also have "count_upto (unat (total_pages p))
        (\<lambda>i. (\<not> (unat page \<noteq> i \<and> bitmap_test p i)) \<and> i \<noteq> unat page) = free_count p"
      unfolding free_count_def using True by (auto intro!: count_upto_cong)
    finally have "free_count ?p = Suc (free_count p)" .
    with Suc.prems(1) have inv: "pmm_inv ?p" by (simp add: pmm_inv_def hhdm_ok_def)
    show ?thesis
    proof (cases n)
      case 0
      with True inv show ?thesis by simp
    next
      case (Suc m)
      have "unat page + 1 < 2 ^ 64"
        using Suc.prems Suc pmm_inv_total [OF Suc.prems(1)] by simp
      then have "unat (page + 1) = unat page + 1"
        using unat_add_u64 [of page 1] by simp
      with Suc.prems(2) inv have "pmm_inv (free_loop n (page + 1) ?p)"
        by (intro Suc.IH) auto
      with True show ?thesis by simp
    qed
  qed
qed

subsection \<open>Initialisation\<close>

definition usable :: "memmap_entry \<Rightarrow> bool" where
  "usable e \<longleftrightarrow> me_type e = LIMINE_MEMMAP_USABLE"

text \<open>
  What the boot protocol documents of the memory map: entries do not wrap around the
  address space, usable entries are page aligned and do not overlap.
\<close>

definition memmap_ok :: "memmap_entry list \<Rightarrow> bool" where
  "memmap_ok es \<longleftrightarrow>
     (\<forall>e \<in> set es. unat (me_base e) + unat (me_length e) < 2 ^ 64) \<and>
     (\<forall>e \<in> set es. usable e \<longrightarrow> PAGE_SIZE dvd unat (me_base e) \<and> PAGE_SIZE dvd unat (me_length e)) \<and>
     sorted_wrt (\<lambda>e f. usable e \<and> usable f \<longrightarrow>
       unat (me_base e) + unat (me_length e) \<le> unat (me_base f) \<or>
       unat (me_base f) + unat (me_length f) \<le> unat (me_base e)) es"

definition usable_pages :: "memmap_entry list \<Rightarrow> nat list" where
  "usable_pages es = concat (map entry_pages (filter usable es))"

lemma usable_pages_simps [simp]:
  "usable_pages [] = []"
  "usable_pages (e # es) = (if usable e then entry_pages e @ usable_pages es else usable_pages es)"
  by (simp_all add: usable_pages_def)

lemma set_entry_pages:
  "i \<in> set (entry_pages e) \<longleftrightarrow>
     unat (me_base e) div PAGE_SIZE \<le> i \<and>
     i < unat (me_base e) div PAGE_SIZE + unat (me_length e) div PAGE_SIZE"
  by (auto simp: entry_pages_def Let_def)

lemma distinct_usable_pages: "memmap_ok es \<Longrightarrow> distinct (usable_pages es)"
proof (induction es)
  case Nil
  then show ?case by simp
next
  case (Cons e es)
  have ok: "memmap_ok es" using Cons.prems by (simp add: memmap_ok_def)
  have "set (entry_pages e) \<inter> set (entry_pages f) = {}" if "usable e" "f \<in> set es" "usable f" for f
  proof -
    have al: "PAGE_SIZE dvd unat (me_base e)" "PAGE_SIZE dvd unat (me_length e)"
      "PAGE_SIZE dvd unat (me_base f)" "PAGE_SIZE dvd unat (me_length f)"
      and "unat (me_base e) + unat (me_length e) \<le> unat (me_base f) \<or>
           unat (me_base f) + unat (me_length f) \<le> unat (me_base e)"
      using Cons.prems that by (auto simp: memmap_ok_def)
    then show ?thesis
      by (auto simp: set_entry_pages PAGE_SIZE_def elim!: dvdE)
  qed
  then have "usable e \<Longrightarrow> set (entry_pages e) \<inter> set (usable_pages es) = {}"
    by (auto simp: usable_pages_def)
  with Cons.IH [OF ok] show ?case by (auto simp: entry_pages_def Let_def)
qed

definition count_ok :: "pmm \<Rightarrow> bool" where
  "count_ok p \<longleftrightarrow> free_pages p = of_nat (free_count p)"

lemma release_page_fields [simp]:
  "total_pages (release_page i p) = total_pages p" "hhdm_offset (release_page i p) = hhdm_offset p"
  "bitmap_ptr (release_page i p) = bitmap_ptr p" "bitmap_size (release_page i p) = bitmap_size p"
  by (simp_all add: release_page_def)

lemma release_page_test [simp]:
  "bitmap_test (release_page i p) j \<longleftrightarrow> bitmap_test p j \<and> \<not> (j = i \<and> i < unat (total_pages p))"
  by (auto simp: release_page_def)

lemma release_page_count:
  assumes "count_ok p" "bitmap_test p i"
  shows "count_ok (release_page i p)"
proof (cases "i < unat (total_pages p)")
  case True
  have "free_count (release_page i p) = Suc (count_upto (unat (total_pages p))
      (\<lambda>j. \<not> (bitmap_test p j \<and> \<not> (j = i \<and> i < unat (total_pages p))) \<and> j \<noteq> i))"
    unfolding free_count_def using True by (subst count_upto_remove [of i]) auto
  also have "count_upto (unat (total_pages p))
      (\<lambda>j. \<not> (bitmap_test p j \<and> \<not> (j = i \<and> i < unat (total_pages p))) \<and> j \<noteq> i) = free_count p"
    unfolding free_count_def using assms(2) by (auto intro!: count_upto_cong)
  finally show ?thesis using assms(1) True by (simp add: count_ok_def release_page_def)
qed (use assms in \<open>simp add: release_page_def\<close>)

lemma fold_release:
  assumes "count_ok p" "distinct is" "\<forall>i \<in> set is. bitmap_test p i"
  shows "count_ok (fold release_page is p) \<and>
         (\<forall>j. bitmap_test (fold release_page is p) j \<longleftrightarrow>
              bitmap_test p j \<and> \<not> (j \<in> set is \<and> j < unat (total_pages p)))"
  using assms
proof (induction "is" arbitrary: p)
  case (Cons i "is")
  have "count_ok (fold release_page is (release_page i p)) \<and>
     (\<forall>j. bitmap_test (fold release_page is (release_page i p)) j \<longleftrightarrow>
        bitmap_test (release_page i p) j \<and> \<not> (j \<in> set is \<and> j < unat (total_pages (release_page i p))))"
    using Cons.prems by (intro Cons.IH) (auto intro: release_page_count)
  then show ?case by auto
qed simp

lemma fold_release_fields [simp]:
  "total_pages (fold release_page is p) = total_pages p" "hhdm_offset (fold release_page is p) = hhdm_offset p"
  "bitmap_ptr (fold release_page is p) = bitmap_ptr p" "bitmap_size (fold release_page is p) = bitmap_size p"
  by (induction "is" arbitrary: p) simp_all

lemma free_region_fields [simp]:
  "total_pages (free_region e p) = total_pages p" "hhdm_offset (free_region e p) = hhdm_offset p"
  "bitmap_ptr (free_region e p) = bitmap_ptr p" "bitmap_size (free_region e p) = bitmap_size p"
  by (simp_all add: free_region_def)

lemma fold_free_region_fields [simp]:
  "total_pages (fold free_region es p) = total_pages p" "hhdm_offset (fold free_region es p) = hhdm_offset p"
  "bitmap_ptr (fold free_region es p) = bitmap_ptr p" "bitmap_size (fold free_region es p) = bitmap_size p"
  by (induction es arbitrary: p) simp_all

lemma count_ok_usable_bytes [simp]: "count_ok (p\<lparr>usable_bytes := b\<rparr>) = count_ok p"
  by (simp add: count_ok_def free_count_def)

lemma fold_free_region:
  assumes "count_ok p" "distinct (usable_pages es)" "\<forall>i \<in> set (usable_pages es). bitmap_test p i"
  shows "count_ok (fold free_region es p) \<and>
         (\<forall>j. bitmap_test (fold free_region es p) j \<longleftrightarrow>
              bitmap_test p j \<and> \<not> (j \<in> set (usable_pages es) \<and> j < unat (total_pages p)))"
  using assms
proof (induction es arbitrary: p)
  case (Cons e es)
  show ?case
  proof (cases "usable e")
    case False
    then have "free_region e p = p" by (simp add: free_region_def usable_def)
    with False Cons show ?thesis by simp
  next
    case True
    let ?q = "free_region e p"
    have q: "?q = fold release_page (entry_pages e) (p\<lparr>usable_bytes := usable_bytes p + me_length e\<rparr>)"
      using True by (simp add: free_region_def usable_def)
    have step: "count_ok ?q \<and> (\<forall>j. bitmap_test ?q j \<longleftrightarrow>
        bitmap_test p j \<and> \<not> (j \<in> set (entry_pages e) \<and> j < unat (total_pages p)))"
      using fold_release [of "p\<lparr>usable_bytes := usable_bytes p + me_length e\<rparr>" "entry_pages e"]
        Cons.prems True unfolding q by auto
    have "count_ok (fold free_region es ?q) \<and> (\<forall>j. bitmap_test (fold free_region es ?q) j \<longleftrightarrow>
        bitmap_test ?q j \<and> \<not> (j \<in> set (usable_pages es) \<and> j < unat (total_pages ?q)))"
      using Cons.prems True step by (intro Cons.IH) auto
    with step True show ?thesis by auto
  qed
qed simp


lemma reserve_page_fields [simp]:
  "total_pages (reserve_page i p) = total_pages p" "hhdm_offset (reserve_page i p) = hhdm_offset p"
  "bitmap_ptr (reserve_page i p) = bitmap_ptr p" "bitmap_size (reserve_page i p) = bitmap_size p"
  by (simp_all add: reserve_page_def)

lemma reserve_page_test [simp]: "bitmap_test (reserve_page i p) j \<longleftrightarrow> i = j \<or> bitmap_test p j"
  by (auto simp: reserve_page_def)

lemma reserve_page_count:
  assumes "count_ok p" "i < unat (total_pages p)"
  shows "count_ok (reserve_page i p)"
proof (cases "bitmap_test p i")
  case False
  have "free_count p = Suc (count_upto (unat (total_pages p)) (\<lambda>j. \<not> bitmap_test p j \<and> j \<noteq> i))"
    unfolding free_count_def using assms(2) False by (intro count_upto_remove)
  also have "count_upto (unat (total_pages p)) (\<lambda>j. \<not> bitmap_test p j \<and> j \<noteq> i) = free_count (reserve_page i p)"
    unfolding free_count_def by (auto intro!: count_upto_cong)
  finally have "of_nat (free_count p) = (of_nat (free_count (reserve_page i p)) + 1 :: u64)" by simp
  moreover have "free_pages (reserve_page i p) = free_pages p - 1"
    using False by (simp add: reserve_page_def)
  ultimately show ?thesis using assms(1) by (simp add: count_ok_def)
qed (use assms in \<open>simp add: reserve_page_def\<close>)

lemma fold_reserve:
  assumes "count_ok p" "\<forall>i \<in> set is. i < unat (total_pages p)"
  shows "count_ok (fold reserve_page is p) \<and>
         (\<forall>j. bitmap_test (fold reserve_page is p) j \<longleftrightarrow> j \<in> set is \<or> bitmap_test p j)"
  using assms
proof (induction "is" arbitrary: p)
  case (Cons i "is")
  have "count_ok (fold reserve_page is (reserve_page i p)) \<and>
      (\<forall>j. bitmap_test (fold reserve_page is (reserve_page i p)) j \<longleftrightarrow>
           j \<in> set is \<or> bitmap_test (reserve_page i p) j)"
    using Cons.prems by (intro Cons.IH) (simp_all add: reserve_page_count)
  then show ?case by auto
qed simp

lemma fold_reserve_fields [simp]:
  "total_pages (fold reserve_page is p) = total_pages p" "hhdm_offset (fold reserve_page is p) = hhdm_offset p"
  "bitmap_ptr (fold reserve_page is p) = bitmap_ptr p" "bitmap_size (fold reserve_page is p) = bitmap_size p"
  by (induction "is" arbitrary: p) simp_all

lemma pmm_top_ge_acc:
  "m \<le> fold (\<lambda>e m. let t = me_base e + me_length e in if t > m then t else m) es m"
proof (induction es arbitrary: m)
  case (Cons e es)
  show ?case
    using Cons.IH [of "me_base e + me_length e"] Cons.IH [of m] by (auto simp: Let_def intro: order_trans)
qed simp

lemma pmm_top_ge: "e \<in> set es \<Longrightarrow> me_base e + me_length e \<le> pmm_top es"
proof -
  have "e \<in> set es \<Longrightarrow> me_base e + me_length e \<le>
      fold (\<lambda>e m. let t = me_base e + me_length e in if t > m then t else m) es m" for m
  proof (induction es arbitrary: m)
    case (Cons f es)
    let ?t = "me_base f + me_length f" and ?F = "fold (\<lambda>e m. let t = me_base e + me_length e in if t > m then t else m) es"
    show ?case
    proof (cases "e = f")
      case True
      have "?t \<le> ?F ?t" "m \<le> ?F m" by (rule pmm_top_ge_acc, rule pmm_top_ge_acc)
      with True show ?thesis by (auto simp: Let_def)
    next
      case False
      with Cons show ?thesis by (auto simp: Let_def)
    qed
  qed simp
  then show "e \<in> set es \<Longrightarrow> ?thesis" by (simp add: pmm_top_def)
qed

lemma usable_pages_below_top:
  assumes "memmap_ok es" "i \<in> set (usable_pages es)"
  shows "i < unat (pmm_top es div 4096)"
proof -
  obtain e where e: "e \<in> set es" "usable e" "i \<in> set (entry_pages e)"
    using assms(2) by (auto simp: usable_pages_def)
  have nowrap: "unat (me_base e) + unat (me_length e) < 2 ^ 64"
    and al: "PAGE_SIZE dvd unat (me_base e)" "PAGE_SIZE dvd unat (me_length e)"
    using assms(1) e by (auto simp: memmap_ok_def)
  have "unat (me_base e) + unat (me_length e) \<le> unat (pmm_top es)"
    using pmm_top_ge [OF e(1)] unat_add_u64 [OF nowrap] by (simp add: word_le_nat_alt)
  then have "(unat (me_base e) + unat (me_length e)) div 4096 \<le> unat (pmm_top es) div 4096"
    by (rule div_le_mono)
  moreover have "(unat (me_base e) + unat (me_length e)) div 4096 =
      unat (me_base e) div 4096 + unat (me_length e) div 4096"
    using al by (auto simp: PAGE_SIZE_def elim!: dvdE)
  ultimately show ?thesis
    using e(3) by (simp add: set_entry_pages PAGE_SIZE_def unat_div)
qed


subsection \<open>What initialisation leaves\<close>

definition bitmap_bytes :: "memmap_entry list \<Rightarrow> u64" where
  "bitmap_bytes es = (pmm_top es div 4096 + 7) div 8"

definition boot_ok :: "memmap_entry list \<Rightarrow> u64 \<Rightarrow> bool" where
  "boot_ok es h \<longleftrightarrow> memmap_ok es \<and> 4096 \<le> pmm_top es \<and>
     (\<exists>e \<in> set es. usable e \<and> bitmap_bytes es \<le> me_length e) \<and>
     h \<noteq> 0 \<and> PAGE_SIZE dvd unat h \<and> unat h + unat (pmm_top es) < 2 ^ 64"

lemma unat_bitmap_bytes: "unat (bitmap_bytes es) = (unat (pmm_top es) div 4096 + 7) div 8"
proof -
  have "unat (pmm_top es div 4096) \<le> 2 ^ 52"
    using unat_div_page [of "pmm_top es"] by (simp add: unat_div)
  then have "unat (pmm_top es div 4096 + 7) = unat (pmm_top es) div 4096 + 7"
    by (subst unat_add_u64) (simp_all add: unat_div)
  then show ?thesis by (simp add: bitmap_bytes_def unat_div)
qed

lemma place_bitmap_cases:
  assumes "boot_ok es h" "hhdm_offset p = h" "bitmap_size p = bitmap_bytes es"
  obtains e where "e \<in> set es" "usable e" "bitmap_bytes es \<le> me_length e"
    "place_bitmap es p = p\<lparr>bitmap_ptr := me_base e + h,
       bitmap := (\<lambda>i. if i < unat (bitmap_bytes es) then 0xFF else bitmap p i)\<rparr>"
proof -
  have "find (\<lambda>e. me_type e = LIMINE_MEMMAP_USABLE \<and> me_length e \<ge> bitmap_size p) es \<noteq> None"
    using assms by (auto simp: boot_ok_def find_None_iff usable_def)
  then obtain e where e: "find (\<lambda>e. me_type e = LIMINE_MEMMAP_USABLE \<and> me_length e \<ge> bitmap_size p) es = Some e"
    by auto
  then have "e \<in> set es" "usable e" "bitmap_bytes es \<le> me_length e"
    using assms(3) by (auto simp: find_Some_iff usable_def)
  then show ?thesis using that e assms by (simp add: place_bitmap_def)
qed

lemma boot_entry:
  assumes "boot_ok es h" "e \<in> set es" "usable e" "bitmap_bytes es \<le> me_length e"
  shows "me_base e + h \<noteq> 0"
    and "set [unat (me_base e) div PAGE_SIZE ..<
              unat (me_base e) div PAGE_SIZE + unat (bitmap_bytes es + 4096 - 1) div PAGE_SIZE]
         \<subseteq> set (entry_pages e)"
proof -
  have top: "4096 \<le> unat (pmm_top es)" "unat h + unat (pmm_top es) < 2 ^ 64" "h \<noteq> 0"
    and e: "unat (me_base e) + unat (me_length e) < 2 ^ 64"
      "PAGE_SIZE dvd unat (me_base e)" "PAGE_SIZE dvd unat (me_length e)"
    using assms by (auto simp: boot_ok_def memmap_ok_def word_le_nat_alt)
  have size: "unat (bitmap_bytes es) \<le> unat (me_length e)"
    using assms(4) by (simp add: word_le_nat_alt)
  have pos: "0 < unat (bitmap_bytes es)" using top(1) by (simp add: unat_bitmap_bytes)
  have "unat (me_base e) + unat (me_length e) \<le> unat (pmm_top es)"
    using pmm_top_ge [OF assms(2)] unat_add_u64 [OF e(1)] by (simp add: word_le_nat_alt)
  then have "unat (me_base e + h) = unat (me_base e) + unat h"
    using top size pos by (intro unat_add_u64) simp
  then show "me_base e + h \<noteq> 0" using top(3) by (auto simp: unat_eq_0)
  have "(unat (pmm_top es) div 4096 + 7) div 8 < 2 ^ 60"
    by (rule less_mult_imp_div_less) (use unat_div_page [of "pmm_top es"] in simp)
  then have "unat (bitmap_bytes es) < 2 ^ 60" by (simp add: unat_bitmap_bytes)
  then have "unat (bitmap_bytes es + 4096) = unat (bitmap_bytes es) + 4096"
    by (subst unat_add_u64) simp_all
  then have "unat (bitmap_bytes es + 4096 - 1) = unat (bitmap_bytes es) + 4095"
    by (subst unat_sub_u64) (simp_all add: word_le_nat_alt)
  moreover obtain k where "unat (me_length e) = PAGE_SIZE * k" using e(3) by (rule dvdE)
  ultimately have "unat (bitmap_bytes es + 4096 - 1) div PAGE_SIZE \<le> unat (me_length e) div PAGE_SIZE"
    using size by (simp add: PAGE_SIZE_def div_le_mono)
  then show "set [unat (me_base e) div PAGE_SIZE ..<
              unat (me_base e) div PAGE_SIZE + unat (bitmap_bytes es + 4096 - 1) div PAGE_SIZE]
         \<subseteq> set (entry_pages e)"
    by (auto simp: entry_pages_def Let_def)
qed


text \<open>
  The state the release loops start from: every bit of the bitmap is set.
\<close>

lemma init_start:
  assumes "boot_ok es h" "bitmap p = (\<lambda>i. if i < unat (bitmap_bytes es) then 0xFF else m i)"
    "total_pages p = pmm_top es div 4096" "free_pages p = 0"
  shows "count_ok p" "\<forall>i < unat (total_pages p). bitmap_test p i"
proof -
  show bits: "\<forall>i < unat (total_pages p). bitmap_test p i"
  proof (intro allI impI)
    fix i assume "i < unat (total_pages p)"
    then have "i div 8 < unat (bitmap_bytes es)"
      using assms(3) by (simp add: unat_bitmap_bytes unat_div)
    moreover have "bit (0xFF :: u8) (i mod 8)"
    proof -
      have "(0xFF :: u8) = mask 8" by (simp add: mask_eq_exp_minus_1)
      moreover have "bit (mask 8 :: u8) (i mod 8)" by (simp add: bit_mask_iff)
      ultimately show ?thesis by simp
    qed
    ultimately show "bitmap_test p i" using assms(2) by (simp add: bitmap_test_bit)
  qed
  then have "free_count p = count_upto (unat (total_pages p)) (\<lambda>_. False)"
    unfolding free_count_def by (intro count_upto_cong) auto
  then show "count_ok p" using assms(4) by (simp add: count_ok_def count_upto_def)
qed

lemma pmm_init_state:
  assumes "boot_ok es (hhdm_offset p)"
  defines "q \<equiv> pmm_init (Some es) p"
  shows "pmm_inv q \<and> total_pages q = pmm_top es div 4096 \<and> hhdm_offset q = hhdm_offset p \<and>
     (\<forall>i. page_free q i \<longleftrightarrow> i \<in> set (usable_pages es) \<and> i \<notin> set (bitmap_pages q)) \<and>
     set (bitmap_pages q) \<subseteq> set (usable_pages es)"
proof -
  let ?h = "hhdm_offset p"
  define p0 where "p0 = p\<lparr>total_pages := pmm_top es div 4096, highest_page := pmm_top es div 4096,
      bitmap_size := bitmap_bytes es\<rparr>"
  obtain e where e: "e \<in> set es" "usable e" "bitmap_bytes es \<le> me_length e"
    and pl: "place_bitmap es p0 = p0\<lparr>bitmap_ptr := me_base e + ?h,
       bitmap := (\<lambda>i. if i < unat (bitmap_bytes es) then 0xFF else bitmap p0 i)\<rparr>"
    by (rule place_bitmap_cases [OF assms(1), of p0]) (auto simp: p0_def)
  define p1 where "p1 = (place_bitmap es p0)\<lparr>free_pages := 0, usable_bytes := 0\<rparr>"
  define p2 where "p2 = fold free_region es p1"
  have p1: "bitmap p1 = (\<lambda>i. if i < unat (bitmap_bytes es) then 0xFF else bitmap p0 i)"
      "total_pages p1 = pmm_top es div 4096" "free_pages p1 = 0" "bitmap_ptr p1 = me_base e + ?h"
      "bitmap_size p1 = bitmap_bytes es" "hhdm_offset p1 = ?h"
    unfolding p1_def pl by (simp_all add: p0_def)
  have mm: "memmap_ok es" using assms(1) by (simp add: boot_ok_def)
  have below: "\<forall>i \<in> set (usable_pages es). i < unat (total_pages p1)"
    using usable_pages_below_top [OF mm] by (simp add: p1)
  have start: "count_ok p1" "\<forall>i < unat (total_pages p1). bitmap_test p1 i"
    using init_start [OF assms(1) p1(1,2,3)] by auto
  have p2: "count_ok p2"
    "\<And>j. bitmap_test p2 j \<longleftrightarrow> bitmap_test p1 j \<and> \<not> (j \<in> set (usable_pages es) \<and> j < unat (total_pages p1))"
    using fold_free_region [OF start(1) distinct_usable_pages [OF mm]] start(2) below by (auto simp: p2_def)
  define bp where "bp = bitmap_pages p2"
  have bp: "set bp \<subseteq> set (entry_pages e)"
    using boot_entry(2) [OF assms(1) e] by (simp add: bp_def bitmap_pages_def p2_def p1 Let_def)
  moreover have "set (entry_pages e) \<subseteq> set (usable_pages es)"
    using e(1,2) by (auto simp: usable_pages_def)
  ultimately have sub: "set bp \<subseteq> set (usable_pages es)" by blast
  define p3 where "p3 = fold reserve_page bp p2"
  have "total_pages p2 = total_pages p1" by (simp add: p2_def)
  then have p3: "count_ok p3" "\<And>j. bitmap_test p3 j \<longleftrightarrow> j \<in> set bp \<or> bitmap_test p2 j"
    using fold_reserve [OF p2(1), of bp] sub below unfolding p3_def by auto
  have q: "q = p3\<lparr>highest_page := of_nat (unat (bitmap_ptr p3 - hhdm_offset p3) div PAGE_SIZE)\<rparr>"
    using boot_entry(1) [OF assms(1) e] p1(4)
    by (simp add: q_def pmm_init_def Let_def p3_def p2_def bp_def p1_def p0_def bitmap_bytes_def)
  have fields: "total_pages q = pmm_top es div 4096" "hhdm_offset q = ?h" "bitmap_pages q = bp"
    by (simp_all add: q p3_def p2_def p1 bp_def bitmap_pages_def)
  have test: "bitmap_test q j = bitmap_test p3 j" for j by (simp add: q bitmap_test_def)
  have "count_ok q" using p3(1) by (simp add: count_ok_def free_count_def q bitmap_test_def)
  moreover have "hhdm_ok q"
  proof -
    have "unat (pmm_top es) div 4096 * 4096 \<le> unat (pmm_top es)" by (rule div_times_less_eq_dividend)
    moreover have "unat ?h + unat (pmm_top es) < 2 ^ 64" using assms(1) by (simp add: boot_ok_def)
    ultimately have "unat ?h + unat (pmm_top es) div 4096 * 4096 < 2 ^ 64" by linarith
    then show ?thesis using assms(1) by (simp add: hhdm_ok_def fields boot_ok_def PAGE_SIZE_def unat_div)
  qed
  moreover have "page_free q i \<longleftrightarrow> i \<in> set (usable_pages es) \<and> i \<notin> set bp" for i
    using start(2) below by (auto simp: page_free_def test p3 p2 fields p1)
  ultimately show ?thesis using sub by (simp add: fields pmm_inv_def count_ok_def)
qed


subsection \<open>The interface to the clients\<close>

text \<open>
  Page tables, kernel stacks, the heap and user memory take their frames from an allocator and
  rely on it never handing out a frame twice.
\<close>

locale frame_allocator =
  fixes inv :: "'s \<Rightarrow> bool"
    and alloc :: "u64 \<Rightarrow> 's \<Rightarrow> u64 \<times> 's"
    and frame :: "'s \<Rightarrow> u64 \<Rightarrow> nat"
    and in_use :: "'s \<Rightarrow> nat \<Rightarrow> bool"
  assumes alloc_inv: "inv s \<Longrightarrow> inv (snd (alloc n s))"
    and alloc_frame: "frame (snd (alloc n s)) = frame s"
    and alloc_null: "inv s \<Longrightarrow> fst (alloc n s) = 0 \<Longrightarrow> snd (alloc n s) = s"
    and alloc_fresh: "inv s \<Longrightarrow> fst (alloc n s) \<noteq> 0 \<Longrightarrow>
      frame s (fst (alloc n s)) \<le> i \<Longrightarrow> i < frame s (fst (alloc n s)) + unat n \<Longrightarrow> \<not> in_use s i"
    and alloc_marks: "inv s \<Longrightarrow> fst (alloc n s) \<noteq> 0 \<Longrightarrow>
      in_use (snd (alloc n s)) i \<longleftrightarrow> in_use s i \<or>
        (frame s (fst (alloc n s)) \<le> i \<and> i < frame s (fst (alloc n s)) + unat n)"
begin

lemma alloc_keeps: "inv s \<Longrightarrow> in_use s i \<Longrightarrow> in_use (snd (alloc n s)) i"
  using alloc_marks [of s n i] alloc_null [of s n] by (cases "fst (alloc n s) = 0") auto

text \<open>Single frames taken one after the other, as the loops that build an address space do.\<close>

primrec alloc_seq :: "nat \<Rightarrow> 's \<Rightarrow> u64 list \<times> 's" where
  "alloc_seq 0 s = ([], s)"
| "alloc_seq (Suc k) s = (let (v, s') = alloc 1 s in
     if v = 0 then ([], s') else let (vs, s'') = alloc_seq k s' in (v # vs, s''))"

lemma alloc_seq_fresh:
  assumes "inv s" "alloc_seq k s = (vs, s')"
  shows "inv s' \<and> frame s' = frame s \<and> distinct (map (frame s) vs) \<and>
    (\<forall>v \<in> set vs. \<not> in_use s (frame s v)) \<and>
    (\<forall>i. in_use s' i \<longleftrightarrow> in_use s i \<or> i \<in> frame s ` set vs)"
  using assms
proof (induction k arbitrary: s vs)
  case (Suc k)
  obtain v s1 where v: "alloc 1 s = (v, s1)" by (cases "alloc 1 s")
  have inv1: "inv s1" "frame s1 = frame s" using alloc_inv alloc_frame Suc.prems(1) v by (metis snd_conv)+
  show ?case
  proof (cases "v = 0")
    case True
    then show ?thesis using Suc.prems v alloc_null [of s 1] by auto
  next
    case False
    obtain ws where ws: "alloc_seq k s1 = (ws, s')" "vs = v # ws"
      using Suc.prems(2) v False by (cases "alloc_seq k s1") auto
    note IH = Suc.IH [OF inv1(1) ws(1)]
    have mark: "in_use s1 i \<longleftrightarrow> in_use s i \<or> i = frame s v" for i
      using alloc_marks [OF Suc.prems(1), of 1 i] v False by auto
    have "\<not> in_use s (frame s v)"
      using alloc_fresh [OF Suc.prems(1), of 1 "frame s v"] v False by simp
    then show ?thesis using IH mark inv1(2) ws(2) by auto
  qed
qed simp

end

definition frame_of :: "pmm \<Rightarrow> u64 \<Rightarrow> nat" where
  "frame_of p addr = unat ((addr - hhdm_offset p) div 4096)"

lemma page_addr_nonzero:
  assumes "pmm_inv p" "s < unat (total_pages p)"
  shows "of_nat (s * PAGE_SIZE) + hhdm_offset p \<noteq> 0"
    and "unat (of_nat (s * PAGE_SIZE) + hhdm_offset p) = s * PAGE_SIZE + unat (hhdm_offset p)"
    and "frame_of p (of_nat (s * PAGE_SIZE) + hhdm_offset p) = s"
proof -
  have less: "s * PAGE_SIZE + unat (hhdm_offset p) < 2 ^ 64"
    using assms by (simp add: pmm_inv_def hhdm_ok_def PAGE_SIZE_def)
  then have "unat (of_nat (s * PAGE_SIZE) :: u64) = s * PAGE_SIZE"
    by (intro unat_of_nat_u64) simp
  with less show *: "unat (of_nat (s * PAGE_SIZE) + hhdm_offset p) = s * PAGE_SIZE + unat (hhdm_offset p)"
    by (subst unat_add_u64) simp_all
  have "hhdm_offset p \<noteq> 0" using assms(1) by (simp add: pmm_inv_def hhdm_ok_def)
  then have "0 < unat (hhdm_offset p)" by (simp add: unat_gt_0)
  then show "of_nat (s * PAGE_SIZE) + hhdm_offset p \<noteq> 0" using * by (metis add_is_0 neq0_conv unat_0)
  show "frame_of p (of_nat (s * PAGE_SIZE) + hhdm_offset p) = s"
    using unat_page_addr [of s] assms(2) pmm_inv_total [OF assms(1)] by (simp add: frame_of_def)
qed

lemma pmm_alloc_cases:
  assumes "pmm_inv p"
  obtains (Fail) "pmm_alloc n p = (0, p)" "n = 0 \<or> (\<forall>t. \<not> run_free p (unat (total_pages p)) t (unat n))"
  | (Run) s where "n \<noteq> 0" "pmm_alloc n p = (of_nat (s * PAGE_SIZE) + hhdm_offset p, take_run s n p)"
      "of_nat (s * PAGE_SIZE) + hhdm_offset p \<noteq> 0" "frame_of p (of_nat (s * PAGE_SIZE) + hhdm_offset p) = s"
      "run_free p (unat (total_pages p)) s (unat n)"
      "\<And>t. t < s \<Longrightarrow> \<not> run_free p (unat (total_pages p)) t (unat n)"
proof (cases "n = 0")
  case True
  then show ?thesis using Fail by (simp add: pmm_alloc_def)
next
  case False
  then have pos: "0 < n" by (simp add: word_neq_0_conv)
  from pos order_refl show ?thesis
  proof (cases rule: alloc_below_cases [of n "unat (total_pages p)" p])
    case None
    then show ?thesis using Fail False by (simp add: pmm_alloc_def)
  next
    case (Some s)
    have "s < unat (total_pages p)" using Some(2) pos by (simp add: run_free_def word_less_nat_alt)
    then show ?thesis
      using Run [of s] Some False page_addr_nonzero [OF assms, of s] by (simp add: pmm_alloc_def)
  qed
qed

interpretation frames: frame_allocator pmm_inv pmm_alloc frame_of bitmap_test
proof
  fix p :: pmm and n i assume inv: "pmm_inv p"
  show "pmm_inv (snd (pmm_alloc n p))"
    by (cases rule: pmm_alloc_cases [OF inv, of n]) (simp_all add: take_run_inv inv)
  show "fst (pmm_alloc n p) = 0 \<Longrightarrow> snd (pmm_alloc n p) = p"
    by (cases rule: pmm_alloc_cases [OF inv, of n]) simp_all
  show "fst (pmm_alloc n p) \<noteq> 0 \<Longrightarrow> frame_of p (fst (pmm_alloc n p)) \<le> i \<Longrightarrow>
      i < frame_of p (fst (pmm_alloc n p)) + unat n \<Longrightarrow> \<not> bitmap_test p i"
    by (cases rule: pmm_alloc_cases [OF inv, of n]) (simp_all add: run_free_def)
  show "fst (pmm_alloc n p) \<noteq> 0 \<Longrightarrow> bitmap_test (snd (pmm_alloc n p)) i \<longleftrightarrow> bitmap_test p i \<or>
      (frame_of p (fst (pmm_alloc n p)) \<le> i \<and> i < frame_of p (fst (pmm_alloc n p)) + unat n)"
    by (cases rule: pmm_alloc_cases [OF inv, of n]) auto
next
  fix p :: pmm and n
  show "frame_of (snd (pmm_alloc n p)) = frame_of p"
    by (auto simp: frame_of_def pmm_alloc_def alloc_below_def fun_eq_iff split: option.split)
qed


subsection \<open>Properties of the physical memory manager\<close>

text \<open>
  (C1) Boot: from a memory map as the boot protocol documents it, with a usable entry that can
  hold the bitmap, \<open>pmm_init\<close> establishes the invariant, and exactly the frames of usable
  entries that do not hold the bitmap itself are free.
\<close>

theorem pmm_init_correct:
  assumes "boot_ok es (hhdm_offset p)"
  shows "pmm_inv (pmm_init (Some es) p) \<and>
    (\<forall>i. page_free (pmm_init (Some es) p) i \<longleftrightarrow>
       i \<in> set (usable_pages es) \<and> i \<notin> set (bitmap_pages (pmm_init (Some es) p)))"
  using pmm_init_state [OF assms] by simp

definition boot_pmm :: pmm where
  "boot_pmm = \<lparr>bitmap_ptr = 0, bitmap = (\<lambda>_. 0), usable_bytes = 0, bitmap_size = 0, total_pages = 0,
     free_pages = 0, highest_page = 0, hhdm_offset = 0xffff800000000000\<rparr>"

definition boot_map :: "memmap_entry list" where
  "boot_map = [\<lparr>me_base = 0, me_length = 0x1000, me_type = LIMINE_MEMMAP_RESERVED\<rparr>,
               \<lparr>me_base = 0x1000, me_length = 0x4000, me_type = LIMINE_MEMMAP_USABLE\<rparr>]"

lemma boot_map_ok: "boot_ok boot_map (hhdm_offset boot_pmm)"
  by (simp add: boot_ok_def boot_map_def boot_pmm_def memmap_ok_def usable_def bitmap_bytes_def
      pmm_top_def PAGE_SIZE_def word_le_nat_alt unat_div dvd_eq_mod_eq_0)

theorem pmm_init_correct_witness:
  "pmm_inv (pmm_init (Some boot_map) boot_pmm) \<and> \<not> page_free (pmm_init (Some boot_map) boot_pmm) 0"
  using pmm_init_correct [OF boot_map_ok] by (auto simp: boot_map_def usable_pages_def usable_def entry_pages_def PAGE_SIZE_def)

text \<open>
  (C2) \<open>pmm_alloc\<close> is a sound and complete first-fit search: it returns NULL and changes nothing
  exactly when no run of free frames is long enough, and otherwise the direct-map address of the
  first such run, whose frames it marks; the invariant and the free-page counter follow.
\<close>

theorem pmm_alloc_first_fit:
  assumes "pmm_inv p" "n \<noteq> 0" "pmm_alloc n p = (v, q)"
  shows "pmm_inv q \<and>
    (if \<exists>s. run_free p (unat (total_pages p)) s (unat n)
     then let s = (LEAST s. run_free p (unat (total_pages p)) s (unat n))
          in v = of_nat (s * PAGE_SIZE) + hhdm_offset p \<and> v \<noteq> 0 \<and>
             free_count p = free_count q + unat n \<and>
             (\<forall>i. bitmap_test q i \<longleftrightarrow> bitmap_test p i \<or> (s \<le> i \<and> i < s + unat n))
     else v = 0 \<and> q = p)"
  using assms(1)
proof (cases rule: pmm_alloc_cases [where n = n])
  case Fail
  then show ?thesis using assms by auto
next
  case (Run s)
  have "(LEAST s. run_free p (unat (total_pages p)) s (unat n)) = s"
    using Run(5,6) by (intro Least_equality) (auto simp: not_less [symmetric])
  moreover have "v = of_nat (s * PAGE_SIZE) + hhdm_offset p" "q = take_run s n p"
    using Run(2) assms(3) by simp_all
  ultimately show ?thesis
    using Run(3,5) take_run_inv [OF assms(1) Run(5)] free_count_take_run [OF Run(5)] by (auto simp: Let_def)
qed

definition free3_pmm :: pmm where
  "free3_pmm = \<lparr>bitmap_ptr = 0xffff800000001000, bitmap = (\<lambda>_. 0xC9), usable_bytes = 0, bitmap_size = 1,
     total_pages = 8, free_pages = 4, highest_page = 0, hhdm_offset = 0xffff800000000000\<rparr>"

lemma less_8_cases: "i < (8::nat) \<longleftrightarrow> i \<in> {0, 1, 2, 3, 4, 5, 6, 7}"
  by auto

lemma free3_inv: "pmm_inv free3_pmm"
  by (simp add: pmm_inv_def hhdm_ok_def free3_pmm_def free_count_def count_upto_code PAGE_SIZE_def
      bitmap_test_bit upt_rec)


lemma free3_runs:
  "run_free free3_pmm 8 s 2 \<longleftrightarrow> s = 1 \<or> s = 4"
proof -
  have bits: "bitmap_test free3_pmm i \<longleftrightarrow> i = 0 \<or> i = 3 \<or> i = 6 \<or> i = 7" if "i < 8" for i
    using that unfolding less_8_cases by (auto simp: bitmap_test_bit free3_pmm_def)
  have "run_free free3_pmm 8 s 2 \<longleftrightarrow> s + 2 \<le> 8 \<and> \<not> bitmap_test free3_pmm s \<and> \<not> bitmap_test free3_pmm (Suc s)"
    by (auto simp: run_free_def less_Suc_eq dest: le_antisym)
  then show ?thesis by (auto simp: bits)
qed


theorem pmm_alloc_first_fit_witness:
  "fst (pmm_alloc 2 free3_pmm) = 0xffff800000001000 \<and> pmm_inv (snd (pmm_alloc 2 free3_pmm))"
proof -
  have "(LEAST s. run_free free3_pmm 8 s 2) = 1"
    unfolding free3_runs by (rule Least_equality) auto
  moreover have "\<exists>s. run_free free3_pmm 8 s 2" by (auto simp: free3_runs)
  moreover have "unat (total_pages free3_pmm) = 8" "hhdm_offset free3_pmm = 0xffff800000000000"
    by (simp_all add: free3_pmm_def)
  ultimately show ?thesis
    using pmm_alloc_first_fit [OF free3_inv, of 2 "fst (pmm_alloc 2 free3_pmm)" "snd (pmm_alloc 2 free3_pmm)"]
    by (simp add: Let_def PAGE_SIZE_def)
qed

text \<open>
  (C3) Round trip: releasing a run right after its allocation restores the whole state of the
  manager, bitmap and counter included.
\<close>

theorem pmm_free_alloc:
  assumes "pmm_inv p" "pmm_alloc n p = (v, q)" "v \<noteq> 0"
  shows "pmm_free v n q = p"
  using assms(1)
proof (cases rule: pmm_alloc_cases [where n = n])
  case (Run s)
  have q: "q = take_run s n p" and v: "(v - hhdm_offset q) div 4096 = of_nat (s * PAGE_SIZE) div 4096"
    using Run(2) assms(2) by auto
  have run: "s + unat n \<le> unat (total_pages p)" "\<And>i. s \<le> i \<and> i < s + unat n \<Longrightarrow> \<not> bitmap_test p i"
    using Run(5) by (auto simp: run_free_def)
  have "0 < unat n" using Run(1) by (simp add: unat_gt_0)
  then have page: "unat (of_nat (s * PAGE_SIZE) div 4096 :: u64) = s"
    using run(1) pmm_inv_total [OF assms(1)] by (intro unat_page_addr) simp
  let ?f = "free_loop (unat n) (of_nat (s * PAGE_SIZE) div 4096)"
  have loop: "free_pages (?f q) = free_pages q + of_nat (unat n)"
    "bitmap_test (?f q) i \<longleftrightarrow> bitmap_test q i \<and> \<not> (s \<le> i \<and> i < s + unat n)" for i
    using free_loop_test [of "of_nat (s * PAGE_SIZE) div 4096" "unat n" q] page run(1) pmm_inv_total [OF assms(1)]
    by (auto simp: q)
  have "?f q = p"
  proof (rule pmm_eqI)
    show "bitmap_test (?f q) i = bitmap_test p i" for i unfolding loop using run(2) by (auto simp: q)
    show "free_pages (?f q) = free_pages p" using loop(1) by (simp add: q)
    show "(?f q)\<lparr>bitmap := bitmap p, free_pages := 0\<rparr> = p\<lparr>bitmap := bitmap p, free_pages := 0\<rparr>"
      unfolding free_loop_frame q by (rule take_run_frame)
  qed
  then show ?thesis by (simp add: pmm_free_def Let_def v)
qed (use assms in simp)


theorem pmm_free_alloc_witness:
  "pmm_free (fst (pmm_alloc 2 free3_pmm)) 2 (snd (pmm_alloc 2 free3_pmm)) = free3_pmm"
proof -
  have "fst (pmm_alloc 2 free3_pmm) \<noteq> 0"
    by (cases rule: pmm_alloc_cases [OF free3_inv, of 2]) (auto simp: free3_pmm_def free3_runs [unfolded free3_pmm_def])
  then show ?thesis using pmm_free_alloc [OF free3_inv, of 2] by simp
qed

lemma free_loop_outside:
  assumes "unat page + n \<le> 2 ^ 64"
  shows "(bitmap_test (free_loop n page p) i \<longrightarrow> bitmap_test p i) \<and>
    (i < unat page \<or> unat page + n \<le> i \<longrightarrow> bitmap_test (free_loop n page p) i = bitmap_test p i)"
  using assms
proof (induction n arbitrary: page p)
  case (Suc n)
  let ?p = "(bitmap_clear (unat page) p)\<lparr>free_pages := free_pages p + 1\<rparr>"
  have clear: "bitmap_test ?p i \<longleftrightarrow> bitmap_test p i \<and> i \<noteq> unat page" by auto
  show ?case
  proof (cases "n = 0 \<or> \<not> bitmap_test p (unat page)")
    case True
    then show ?thesis using clear by (elim disjE) simp_all
  next
    case False
    then have next_page: "unat (page + 1) = unat page + 1"
      using Suc.prems by (subst unat_add_u64) simp_all
    have step: "free_loop (Suc n) page p = free_loop n (page + 1) ?p" using False by simp
    have "(bitmap_test (free_loop n (page + 1) ?p) i \<longrightarrow> bitmap_test ?p i) \<and>
      (i < unat (page + 1) \<or> unat (page + 1) + n \<le> i \<longrightarrow>
       bitmap_test (free_loop n (page + 1) ?p) i = bitmap_test ?p i)"
      using Suc.prems next_page by (intro Suc.IH) simp
    then show ?thesis unfolding step clear next_page by linarith
  qed
qed simp

text \<open>
  Release is safe on every address inside the managed memory: the invariant holds after
  \<open>pmm_free\<close>, a frame outside the run keeps its bit, no frame becomes used, and a run
  whose first frame is already free is not touched at all (the double-free check).
\<close>

theorem pmm_free_safe:
  assumes "pmm_inv p" "frame_of p addr + unat pages \<le> unat (total_pages p)"
  shows "pmm_inv (pmm_free addr pages p) \<and>
    (\<forall>i. bitmap_test (pmm_free addr pages p) i \<longrightarrow> bitmap_test p i) \<and>
    (\<forall>i. i < frame_of p addr \<or> frame_of p addr + unat pages \<le> i \<longrightarrow>
       bitmap_test (pmm_free addr pages p) i = bitmap_test p i) \<and>
    (\<not> bitmap_test p (frame_of p addr) \<longrightarrow> pmm_free addr pages p = p)"
proof -
  let ?s = "(addr - hhdm_offset p) div 4096"
  have "unat ?s + unat pages \<le> 2 ^ 64"
    using assms(2) pmm_inv_total [OF assms(1)] by (simp add: frame_of_def)
  note outside = free_loop_outside [OF this, of p]
  have "pmm_inv (free_loop (unat pages) ?s p)"
    using assms by (intro free_loop_inv) (simp_all add: frame_of_def)
  moreover have "\<not> bitmap_test p (unat ?s) \<Longrightarrow> free_loop (unat pages) ?s p = p"
    by (cases "unat pages") simp_all
  ultimately show ?thesis using outside by (simp add: pmm_free_def Let_def frame_of_def)
qed

theorem pmm_free_safe_witness:
  "pmm_inv (pmm_free 0xffff800000006000 2 free3_pmm) \<and> pmm_free 0xffff800000001000 1 free3_pmm = free3_pmm"
proof -
  have frames: "frame_of free3_pmm 0xffff800000006000 = 6" "frame_of free3_pmm 0xffff800000001000 = 1"
    "\<not> bitmap_test free3_pmm 1" "total_pages free3_pmm = 8"
    by (simp_all add: frame_of_def free3_pmm_def unat_div bitmap_test_bit)
  then have fits: "frame_of free3_pmm 0xffff800000006000 + unat (2 :: u64) \<le> unat (total_pages free3_pmm)"
    "frame_of free3_pmm 0xffff800000001000 + unat (1 :: u64) \<le> unat (total_pages free3_pmm)"
    by simp_all
  show ?thesis
    using pmm_free_safe [OF free3_inv fits(1)] pmm_free_safe [OF free3_inv fits(2)] frames(2,3) by metis
qed

text \<open>
  (C4) The DMA allocator stays below 4 GiB: what \<open>pmm_alloc_dma\<close> returns lies, with its last
  byte, under physical address 2^32, it consists of frames that were free, and it fails
  only when no run below the limit is long enough.
\<close>

theorem pmm_alloc_dma_below_4g:
  assumes "pmm_inv p" "n \<noteq> 0" "pmm_alloc_dma n p = (v, q)"
  shows "pmm_inv q \<and>
    (if v = 0 then q = p \<and> (\<forall>s. \<not> run_free p (min (2 ^ 20) (unat (total_pages p))) s (unat n))
     else unat (virt_to_phys p v) + unat n * PAGE_SIZE \<le> 2 ^ 32 \<and>
          run_free p (unat (total_pages p)) (frame_of p v) (unat n))"
proof -
  let ?m = "if 0x100000 > total_pages p then total_pages p else 0x100000"
  have m: "unat ?m = min (2 ^ 20) (unat (total_pages p))" by (auto simp: word_less_nat_alt)
  have alloc: "pmm_alloc_dma n p = alloc_below (min (2 ^ 20) (unat (total_pages p))) n p"
    unfolding m [symmetric] using assms(2) by (simp add: pmm_alloc_dma_def Let_def)
  have pos: "0 < n" using assms(2) by (simp add: word_neq_0_conv)
  have le: "min (2 ^ 20) (unat (total_pages p)) \<le> unat (total_pages p)" by simp
  from pos le show ?thesis
  proof (cases rule: alloc_below_cases)
    case None
    then show ?thesis using assms alloc by auto
  next
    case (Some s)
    have run: "s + unat n \<le> 2 ^ 20" "run_free p (unat (total_pages p)) s (unat n)"
      using Some(2) by (auto simp: run_free_def)
    moreover have "0 < unat n" using assms(2) by (simp add: unat_gt_0)
    ultimately have s: "s < unat (total_pages p)" by (simp add: run_free_def)
    have v: "v = of_nat (s * PAGE_SIZE) + hhdm_offset p" "q = take_run s n p"
      using Some(1) alloc assms(3) by simp_all
    have "unat (of_nat (s * PAGE_SIZE) :: u64) = s * PAGE_SIZE"
      using run(1) by (intro unat_of_nat_u64) (simp add: PAGE_SIZE_def)
    then have "unat (virt_to_phys p v) + unat n * PAGE_SIZE \<le> 2 ^ 32"
      using run(1) by (simp add: virt_to_phys_def v(1) PAGE_SIZE_def del: of_nat_mult)
    then show ?thesis
      using page_addr_nonzero(1,3) [OF assms(1) s] take_run_inv [OF assms(1) run(2)] run(2)
      unfolding v by (simp del: of_nat_mult)
  qed
qed

theorem pmm_alloc_dma_below_4g_witness:
  "pmm_inv (snd (pmm_alloc_dma 2 free3_pmm))"
  using pmm_alloc_dma_below_4g [OF free3_inv, of 2 "fst (pmm_alloc_dma 2 free3_pmm)" "snd (pmm_alloc_dma 2 free3_pmm)"]
  by simp



end
