(* ===== verification/Mem.thy ===== *)
theory Mem
  imports Prelude
begin

text \<open>
  Byte-addressed memory as the kernel's C code sees it: a byte per 64-bit address, little-endian
  loads and stores of 16, 32 and 64 bits, and the effect of copying and filling a range.
\<close>

type_synonym mem = "u64 \<Rightarrow> u8"

primrec load_bytes :: "mem \<Rightarrow> nat \<Rightarrow> u64 \<Rightarrow> 'w::len word" where
  "load_bytes m 0 a = 0"
| "load_bytes m (Suc k) a = ucast (m a) OR push_bit 8 (load_bytes m k (a + 1))"

definition load :: "mem \<Rightarrow> u64 \<Rightarrow> 'w::len word" where
  "load m a = load_bytes m (LENGTH('w) div 8) a"

definition store :: "u64 \<Rightarrow> 'w::len word \<Rightarrow> mem \<Rightarrow> mem" where
  "store a v m = (\<lambda>x. let i = unat (x - a)
                      in if i < LENGTH('w) div 8 then ucast (drop_bit (8 * i) v) else m x)"

definition fill_mem :: "u64 \<Rightarrow> u8 \<Rightarrow> nat \<Rightarrow> mem \<Rightarrow> mem" where
  "fill_mem d c n m = (\<lambda>x. if unat (x - d) < n then c else m x)"

definition copy_mem :: "u64 \<Rightarrow> u64 \<Rightarrow> nat \<Rightarrow> mem \<Rightarrow> mem" where
  "copy_mem d s n m = (\<lambda>x. if unat (x - d) < n then m (s + (x - d)) else m x)"

text \<open>Two ranges of the address space that do not meet, wrap-around included.\<close>

definition apart :: "u64 \<Rightarrow> nat \<Rightarrow> u64 \<Rightarrow> nat \<Rightarrow> bool" where
  "apart a n b k \<longleftrightarrow> k \<le> unat (a - b) \<and> n \<le> unat (b - a)"

lemma bit_load_bytes:
  "bit (load_bytes m k a :: 'w::len word) n \<longleftrightarrow>
     n < LENGTH('w) \<and> n div 8 < k \<and> bit (m (a + of_nat (n div 8))) (n mod 8)"
proof (induction k arbitrary: a n)
  case (Suc k)
  show ?case
  proof (cases "n < 8")
    case True
    then show ?thesis by (auto simp: bit_simps)
  next
    case False
    then obtain l where l: "n = l + 8" using le_Suc_ex [of 8 n] by (auto simp: add.commute)
    have div: "n div 8 = Suc (l div 8)" "n mod 8 = l mod 8" by (simp_all add: l)
    have zero: "\<not> bit (m a) n" using False by (auto dest: bit_imp_le_length)
    have "bit (load_bytes m (Suc k) a :: 'w word) n \<longleftrightarrow> n < LENGTH('w) \<and> bit (load_bytes m k (a + 1) :: 'w word) l"
      using zero by (simp add: bit_or_iff bit_push_bit_iff bit_ucast_iff) (auto simp: l)
    also have "\<dots> \<longleftrightarrow> n < LENGTH('w) \<and> l div 8 < k \<and> bit (m (a + 1 + of_nat (l div 8))) (l mod 8)"
      unfolding Suc.IH by (auto simp: l)
    finally show ?thesis unfolding div by (simp add: add.assoc)
  qed
qed simp

lemma bit_load:
  "bit (load m a :: 'w::len word) n \<longleftrightarrow>
     n < LENGTH('w) \<and> n div 8 < LENGTH('w) div 8 \<and> bit (m (a + of_nat (n div 8))) (n mod 8)"
  by (simp add: load_def bit_load_bytes)

lemma bit_store_byte:
  "unat (x - a) < LENGTH('w) div 8 \<Longrightarrow>
   bit (store a (v :: 'w::len word) m x) k \<longleftrightarrow> k < 8 \<and> bit v (8 * unat (x - a) + k)"
  by (auto simp: store_def Let_def bit_simps)

lemma store_other: "LENGTH('w) div 8 \<le> unat (x - a) \<Longrightarrow> store a (v :: 'w::len word) m x = m x"
  by (simp add: store_def)

lemma unat_add_diff_small: "i < 2 ^ 64 \<Longrightarrow> unat (a + of_nat i - a :: u64) = i"
  by (simp add: unat_of_nat_u64)

lemma load_store_same [simp]:
  assumes "LENGTH('w) mod 8 = 0" "LENGTH('w) \<le> 64"
  shows "load (store a v m) a = (v :: 'w::len word)"
proof (rule bit_word_eqI)
  fix n assume n: "n < LENGTH('w)"
  have "LENGTH('w) div 8 * 8 = LENGTH('w)" using div_mult_mod_eq [of "LENGTH('w)" 8] assms(1) by simp
  then have lt: "n div 8 < LENGTH('w) div 8" using n by (intro less_mult_imp_div_less) simp
  have off: "unat (a + of_nat (n div 8) - a) = n div 8"
    using n assms(2) by (intro unat_add_diff_small) simp
  have "bit (store a v m (a + of_nat (n div 8))) (n mod 8) \<longleftrightarrow> bit v (8 * (n div 8) + n mod 8)"
    using bit_store_byte [of "a + of_nat (n div 8)" a v m "n mod 8"] lt unfolding off by simp
  then show "bit (load (store a v m) a :: 'w word) n = bit v n"
    unfolding bit_load using n lt by simp
qed

lemma unat_lt_iff_le: "(x :: u64) < y \<longleftrightarrow> unat x < unat y" "(x :: u64) \<le> y \<longleftrightarrow> unat x \<le> unat y"
  by (simp_all add: word_less_nat_alt word_le_nat_alt)

lemma unat_sub_cases:
  "unat (x - y :: u64) = (if unat y \<le> unat x then unat x - unat y else 2 ^ 64 + unat x - unat y)"
  by (auto simp: unat_sub_if' word_le_nat_alt)

lemma unat_add_cases:
  "unat (x + y :: u64) = (if unat x + unat y < 2 ^ 64 then unat x + unat y else unat x + unat y - 2 ^ 64)"
  by (simp add: unat_plus_if')

lemma sub_cases_apart:
  fixes A B X :: nat
  assumes "A < M" "B < M" "X < M"
    "k \<le> (if B \<le> A then A - B else M + A - B)" "n \<le> (if A \<le> B then B - A else M + B - A)"
    "(if A \<le> X then X - A else M + X - A) < n"
  shows "k \<le> (if B \<le> X then X - B else M + X - B)"
  using assms by (auto split: if_splits)

lemma apart_offset:
  assumes "apart a n b k" "unat (x - a) < n" shows "k \<le> unat (x - b)"
proof -
  have "k \<le> unat (a - b)" "n \<le> unat (b - a)" using assms(1) by (simp_all add: apart_def)
  with assms(2) show ?thesis
    unfolding unat_sub_cases by (intro sub_cases_apart [OF unat_u64_less [of a] unat_u64_less [of b] unat_u64_less [of x]])
qed

lemma apart_sym: "apart a n b k = apart b k a n"
  by (auto simp: apart_def)

lemma load_store_apart:
  assumes "apart b (LENGTH('v) div 8) a (LENGTH('w) div 8)" "LENGTH('v) \<le> 64"
  shows "load (store a (w :: 'w::len word) m) b = (load m b :: 'v::len word)"
proof (rule bit_word_eqI)
  fix n assume "n < LENGTH('v)"
  have "store a w m (b + of_nat (n div 8)) = m (b + of_nat (n div 8))" if "n div 8 < LENGTH('v) div 8"
  proof (rule store_other, rule apart_offset [OF assms(1)])
    have "n div 8 < 2 ^ 64" using that assms(2) by simp
    then show "unat (b + of_nat (n div 8) - b) < LENGTH('v) div 8"
      using that by (simp only: unat_add_diff_small)
  qed
  then show "bit (load (store a w m) b :: 'v word) n = bit (load m b :: 'v word) n"
    by (auto simp: bit_load)
qed

lemma load_cong:
  assumes "\<And>i. i < LENGTH('v) div 8 \<Longrightarrow> m (a + of_nat i) = m' (a + of_nat i)"
  shows "load m a = (load m' a :: 'v::len word)"
  using assms by (intro bit_word_eqI) (auto simp: bit_load)

lemma store_load_byte:
  assumes "i < LENGTH('w) div 8" "LENGTH('w) \<le> 64"
  shows "store d (load m s :: 'w::len word) m' (d + of_nat i) = m (s + of_nat i)"
proof (rule bit_word_eqI)
  fix k assume "k < LENGTH(8)"
  then have k: "k < 8" by simp
  have off: "unat (d + of_nat i - d) = i"
    using assms by (intro unat_add_diff_small) simp
  have "8 * i + k < LENGTH('w)" using assms k by linarith
  moreover have "bit (store d (load m s :: 'w word) m' (d + of_nat i)) k \<longleftrightarrow> bit (load m s :: 'w word) (8 * i + k)"
    using bit_store_byte [of "d + of_nat i" d "load m s :: 'w word" m' k] assms(1) k unfolding off by simp
  moreover have "(8 * i + k) div 8 = i" "(8 * i + k) mod 8 = k" using k by simp_all
  ultimately show "bit (store d (load m s :: 'w word) m' (d + of_nat i)) k = bit (m (s + of_nat i)) k"
    using assms(1) by (simp add: bit_load)
qed

end
