(* ===== verification/Kstring.thy ===== *)
theory Kstring
  imports Mem
begin

text \<open>
  The freestanding memory and string routines of the kernel, \<open>kernel/src/lib/string.c\<close>, and
  \<open>strlen\<close> and \<open>strcmp\<close> of \<open>kernel/src/lib/libk.c\<close>, over byte memory: the word-at-a-time
  loops of \<open>memcpy\<close> and \<open>memset\<close> are proved equal to copying and filling bytes, \<open>memmove\<close> to
  copying through a buffer, and the loops that look for the terminator to end on every
  terminated string.
\<close>

subsection \<open>Operations\<close>

primrec copy_fwd :: "nat \<Rightarrow> u64 \<Rightarrow> u64 \<Rightarrow> mem \<Rightarrow> mem" where
  "copy_fwd 0 d s m = m"
| "copy_fwd (Suc n) d s m = copy_fwd n (d + 1) (s + 1) (m(d := m s))"

primrec copy_bwd :: "nat \<Rightarrow> u64 \<Rightarrow> u64 \<Rightarrow> mem \<Rightarrow> mem" where
  "copy_bwd 0 d s m = m"
| "copy_bwd (Suc n) d s m = (let d = d - 1; s = s - 1 in copy_bwd n d s (m(d := m s)))"

definition copy_words :: "nat \<Rightarrow> u64 \<Rightarrow> u64 \<Rightarrow> mem \<Rightarrow> mem" where
  "copy_words words d s m =
     fold (\<lambda>i m. store (d + 8 * of_nat i) (load m (s + 8 * of_nat i) :: u64) m) [0 ..< words] m"

definition memcpy :: "u64 \<Rightarrow> u64 \<Rightarrow> u64 \<Rightarrow> mem \<Rightarrow> mem" where
  "memcpy dest src n m =
     (if n \<ge> 8 \<and> dest AND 7 = 0 \<and> src AND 7 = 0
      then let words = n div 8; m' = copy_words (unat words) dest src m
           in copy_fwd (unat (n AND 7)) (dest + words * 8) (src + words * 8) m'
      else copy_fwd (unat n) dest src m)"

primrec fill_bytes :: "nat \<Rightarrow> u64 \<Rightarrow> u8 \<Rightarrow> mem \<Rightarrow> mem" where
  "fill_bytes 0 p c m = m"
| "fill_bytes (Suc n) p c m = fill_bytes n (p + 1) c (m(p := c))"

definition fill_word :: "u8 \<Rightarrow> u64" where
  "fill_word c =
     (let fill = ucast c;
          fill = fill OR push_bit 8 fill;
          fill = fill OR push_bit 16 fill
      in fill OR push_bit 32 fill)"

definition memset :: "u64 \<Rightarrow> int \<Rightarrow> u64 \<Rightarrow> mem \<Rightarrow> mem" where
  "memset s c n m =
     (let c = word_of_int c :: u8
      in if n \<ge> 8 \<and> s AND 7 = 0
         then let words = n div 8;
                  m' = fold (\<lambda>i m. store (s + 8 * of_nat i) (fill_word c) m) [0 ..< unat words] m
              in fill_bytes (unat (n AND 7)) (s + words * 8) c m'
         else fill_bytes (unat n) s c m)"

definition memmove :: "u64 \<Rightarrow> u64 \<Rightarrow> u64 \<Rightarrow> mem \<Rightarrow> mem" where
  "memmove dest src n m =
     (if dest = src \<or> n = 0 then m
      else if dest < src then copy_fwd (unat n) dest src m
      else copy_bwd (unat n) (dest + n) (src + n) m)"

primrec memcmp_loop :: "mem \<Rightarrow> nat \<Rightarrow> u64 \<Rightarrow> u64 \<Rightarrow> int" where
  "memcmp_loop m 0 p1 p2 = 0"
| "memcmp_loop m (Suc n) p1 p2 =
     (if m p1 \<noteq> m p2 then uint (m p1) - uint (m p2) else memcmp_loop m n (p1 + 1) (p2 + 1))"

definition memcmp :: "mem \<Rightarrow> u64 \<Rightarrow> u64 \<Rightarrow> u64 \<Rightarrow> int" where
  "memcmp m s1 s2 n = memcmp_loop m (unat n) s1 s2"

function strncpy_loop :: "mem \<Rightarrow> u64 \<Rightarrow> u64 \<Rightarrow> nat \<Rightarrow> nat \<Rightarrow> mem" where
  "strncpy_loop m dest src n i =
     (if i < n \<and> m (src + of_nat i) \<noteq> 0
      then strncpy_loop (m(dest + of_nat i := m (src + of_nat i))) dest src n (i + 1)
      else fold (\<lambda>j m. m(dest + of_nat j := 0)) [i ..< n] m)"
  by pat_completeness auto
termination
  by (relation "measure (\<lambda>(m, dest, src, n, i). n - i)") auto

declare strncpy_loop.simps [simp del]

definition strncpy :: "u64 \<Rightarrow> u64 \<Rightarrow> u64 \<Rightarrow> mem \<Rightarrow> mem" where
  "strncpy dest src n m = strncpy_loop m dest src (unat n) 0"

partial_function (option) strchr_loop :: "mem \<Rightarrow> u64 \<Rightarrow> u8 \<Rightarrow> (u64 \<times> bool) option" where
  "strchr_loop m s c =
     (if m s = 0 then Some (s, False)
      else if m s = c then Some (s, True)
      else strchr_loop m (s + 1) c)"

definition strchr :: "mem \<Rightarrow> u64 \<Rightarrow> int \<Rightarrow> u64 option" where
  "strchr m s c =
     map_option (\<lambda>(e, found). if found then e else if c = 0 then e else 0)
       (strchr_loop m s (word_of_int c))"

partial_function (option) strrchr_loop :: "mem \<Rightarrow> u64 \<Rightarrow> u8 \<Rightarrow> u64 \<Rightarrow> (u64 \<times> u64) option" where
  "strrchr_loop m s c lst =
     (if m s = 0 then Some (s, lst)
      else strrchr_loop m (s + 1) c (if m s = c then s else lst))"

definition strrchr :: "mem \<Rightarrow> u64 \<Rightarrow> int \<Rightarrow> u64 option" where
  "strrchr m s c =
     map_option (\<lambda>(e, lst). if c = 0 then e else lst) (strrchr_loop m s (word_of_int c) 0)"

partial_function (option) strlen_loop :: "mem \<Rightarrow> u64 \<Rightarrow> u64 \<Rightarrow> u64 option" where
  "strlen_loop m s len = (if m (s + len) \<noteq> 0 then strlen_loop m s (len + 1) else Some len)"

definition strlen :: "mem \<Rightarrow> u64 \<Rightarrow> u64 option" where
  "strlen m s = strlen_loop m s 0"

partial_function (option) strcmp :: "mem \<Rightarrow> u64 \<Rightarrow> u64 \<Rightarrow> int option" where
  "strcmp m s1 s2 =
     (if m s1 \<noteq> 0 \<and> m s1 = m s2 then strcmp m (s1 + 1) (s2 + 1)
      else Some (uint (m s1) - uint (m s2)))"

subsection \<open>Copying and filling\<close>

lemma copy_mem_0 [simp]: "copy_mem d s 0 m = m"
  by (simp add: copy_mem_def)

lemma fill_mem_0 [simp]: "fill_mem d c 0 m = m"
  by (simp add: fill_mem_def)

lemma copy_mem_1: "copy_mem d s 1 m = m(d := m s)"
  by (auto simp: copy_mem_def fun_eq_iff unat_eq_0)

lemma fill_mem_1: "fill_mem d c 1 m = m(d := c)"
  by (auto simp: fill_mem_def fun_eq_iff unat_eq_0)

text \<open>Splitting the offset of an address in a range at \<open>n\<close>.\<close>

lemma offset_split:
  assumes "n + k \<le> 2 ^ 64"
  shows "unat (x - (d + of_nat n) :: u64) < k \<longleftrightarrow> n \<le> unat (x - d) \<and> unat (x - d) < n + k"
proof (cases "k = 0")
  case False
  then have n: "unat (of_nat n :: u64) = n" using assms by (intro unat_of_nat_u64) simp
  have "x - (d + of_nat n) = (x - d) - of_nat n" by simp
  then have "unat (x - (d + of_nat n)) =
      (if n \<le> unat (x - d) then unat (x - d) - n else 2 ^ 64 + unat (x - d) - n)"
    by (simp only: unat_sub_cases [of "x - d"] n)
  then show ?thesis using assms by (simp split: if_splits) linarith
qed simp

lemma fill_mem_append:
  assumes "n + k \<le> 2 ^ 64"
  shows "fill_mem (d + of_nat n) c k (fill_mem d c n m) = fill_mem d c (n + k) m"
  using offset_split [OF assms] by (auto simp: fill_mem_def fun_eq_iff)

lemma copy_mem_append:
  assumes "n + k \<le> 2 ^ 64" "n + k \<le> unat (d - s)"
  shows "copy_mem (d + of_nat n) (s + of_nat n) k (copy_mem d s n m) = copy_mem d s (n + k) m"
proof (rule ext)
  fix x
  show "copy_mem (d + of_nat n) (s + of_nat n) k (copy_mem d s n m) x = copy_mem d s (n + k) m x"
  proof (cases "n \<le> unat (x - d) \<and> unat (x - d) < n + k")
    case True
    have "n \<le> unat (s + (x - d) - d)"
    proof -
      have "s + (x - d) - d = (x - d) - (d - s)" by simp
      then have "unat (s + (x - d) - d) = (if unat (d - s) \<le> unat (x - d) then unat (x - d) - unat (d - s)
          else 2 ^ 64 + unat (x - d) - unat (d - s))"
        by (simp only: unat_sub_cases [of "x - d" "d - s"])
      moreover have "\<not> unat (d - s) \<le> unat (x - d)" using True assms(2) by linarith
      ultimately have "unat (s + (x - d) - d) = 2 ^ 64 + unat (x - d) - unat (d - s)" by presburger
      then show ?thesis using True unat_u64_less [of "d - s"] by linarith
    qed
    then show ?thesis using True offset_split [OF assms(1), of x d] by (simp add: copy_mem_def)
  next
    case False
    then show ?thesis using offset_split [OF assms(1), of x d] by (auto simp: copy_mem_def)
  qed
qed

lemma copy_fwd_eq:
  assumes "n \<le> unat (d - s)"
  shows "copy_fwd n d s m = copy_mem d s n m"
  using assms
proof (induction n arbitrary: d s m)
  case (Suc n)
  have "copy_fwd n (d + 1) (s + 1) (m(d := m s)) = copy_mem (d + of_nat 1) (s + of_nat 1) n (copy_mem d s 1 m)"
    unfolding copy_mem_1 of_nat_1 using Suc.prems by (intro Suc.IH) simp
  also have "\<dots> = copy_mem d s (1 + n) m"
    using Suc.prems less_imp_le [OF unat_u64_less [of "d - s"]] by (intro copy_mem_append) linarith+
  finally show ?case by simp
qed simp

lemma fill_bytes_eq: "n \<le> 2 ^ 64 \<Longrightarrow> fill_bytes n d c m = fill_mem d c n m"
proof (induction n arbitrary: d m)
  case (Suc n)
  have "fill_bytes n (d + 1) c (m(d := c)) = fill_mem (d + of_nat 1) c n (fill_mem d c 1 m)"
    using Suc by (simp add: fill_mem_1 del: One_nat_def)
  also have "\<dots> = fill_mem d c (1 + n) m" using Suc.prems by (intro fill_mem_append) simp
  finally show ?case by simp
qed simp


lemma copy_bwd_eq:
  assumes "n \<le> unat (s - d)" "n < 2 ^ 64"
  shows "copy_bwd n (d + of_nat n) (s + of_nat n) m = copy_mem d s n m"
  using assms
proof (induction n arbitrary: m)
  case (Suc n)
  let ?m = "m(d + of_nat n := m (s + of_nat n))"
  have "copy_bwd (Suc n) (d + of_nat (Suc n)) (s + of_nat (Suc n)) m = copy_bwd n (d + of_nat n) (s + of_nat n) ?m"
    by (simp add: Let_def)
  also have "\<dots> = copy_mem d s n ?m" using Suc by simp
  also have "\<dots> = copy_mem d s (Suc n) m"
  proof (rule ext)
    fix x
    have n: "unat (of_nat n :: u64) = n" using Suc.prems by (intro unat_of_nat_u64) simp
    have src: "s + (x - d) \<noteq> d + of_nat n" if "unat (x - d) < n"
    proof
      assume "s + (x - d) = d + of_nat n"
      then have "s - d = of_nat n - (x - d)" by (simp add: algebra_simps)
      then have "unat (s - d) = n - unat (x - d)"
        using that by (simp only: unat_sub_cases n) simp
      then show False using Suc.prems(1) by simp
    qed
    have last: "unat (x - d) = n \<longleftrightarrow> x = d + of_nat n"
    proof
      assume "unat (x - d) = n"
      then have "x - d = of_nat n" by (metis n word_unat_eq_iff)
      then show "x = d + of_nat n" by (simp add: algebra_simps)
    qed (simp add: n)
    show "copy_mem d s n ?m x = copy_mem d s (Suc n) m x"
      using src last by (auto simp: copy_mem_def less_Suc_eq n)
  qed
  finally show ?case .
qed simp

lemma offset_less: "unat (x - d :: u64) < n \<Longrightarrow> \<exists>i < n. x = d + of_nat i"
  by (intro exI [of _ "unat (x - d)"]) simp

lemma copy_word_eq: "store d (load m s :: u64) m = copy_mem d s 8 m"
proof (rule ext)
  fix x
  show "store d (load m s :: u64) m x = copy_mem d s 8 m x"
  proof (cases "unat (x - d) < 8")
    case True
    then obtain i where "i < 8" "x = d + of_nat i" using offset_less by blast
    then show ?thesis
      using store_load_byte [where 'w = 64, of i d m s m] by (simp add: copy_mem_def unat_of_nat_u64)
  next
    case False
    then show ?thesis by (simp add: copy_mem_def store_other)
  qed
qed

lemma copy_words_eq:
  assumes "8 * w \<le> unat (d - s)"
  shows "copy_words w d s m = copy_mem d s (8 * w) m"
  using assms
proof (induction w)
  case (Suc w)
  have "copy_words (Suc w) d s m = copy_mem (d + of_nat (8 * w)) (s + of_nat (8 * w)) 8 (copy_mem d s (8 * w) m)"
    using Suc by (simp add: copy_words_def copy_word_eq)
  also have "\<dots> = copy_mem d s (8 * w + 8) m"
    using Suc.prems less_imp_le [OF unat_u64_less [of "d - s"]] by (intro copy_mem_append) simp_all
  finally show ?case by (simp add: add.commute)
qed (simp add: copy_words_def)

lemma and_7: "unat (n AND 7 :: u64) = unat n mod 8"
proof -
  have "n AND 7 = take_bit 3 n" by (simp add: take_bit_eq_mask mask_eq_exp_minus_1)
  then show ?thesis by (simp add: take_bit_eq_mod unat_mod)
qed

lemma bytes_split: "unat (n :: u64) = 8 * unat (n div 8) + unat (n AND 7)"
  by (simp add: and_7 unat_div)

lemma memcpy_eq:
  assumes "unat n \<le> unat (d - s)"
  shows "memcpy d s n m = copy_mem d s (unat n) m"
proof (cases "n \<ge> 8 \<and> d AND 7 = 0 \<and> s AND 7 = 0")
  case True
  let ?w = "unat (n div 8)"
  have tail: "n div 8 * 8 = of_nat (8 * ?w)" by (simp add: mult.commute)
  have eq: "unat n = 8 * ?w + unat (n AND 7)" by (rule bytes_split)
  have "memcpy d s n m = copy_fwd (unat (n AND 7)) (d + of_nat (8 * ?w)) (s + of_nat (8 * ?w)) (copy_words ?w d s m)"
    using True unfolding memcpy_def Let_def tail by simp
  also have "\<dots> = copy_mem (d + of_nat (8 * ?w)) (s + of_nat (8 * ?w)) (unat (n AND 7)) (copy_mem d s (8 * ?w) m)"
    using assms eq by (subst copy_words_eq, linarith) (intro copy_fwd_eq, simp)
  also have "\<dots> = copy_mem d s (8 * ?w + unat (n AND 7)) m"
    using assms eq unat_u64_less [of n] by (intro copy_mem_append) linarith+
  finally show ?thesis by (simp only: eq [symmetric])
next
  case False
  then show ?thesis using copy_fwd_eq [OF assms] by (auto simp: memcpy_def)
qed


lemma fill_double:
  fixes f :: u64
  assumes "\<And>n. bit f n \<longleftrightarrow> n < k \<and> bit c (n mod 8)" "8 dvd k" "2 * k \<le> 64"
  shows "bit (f OR push_bit k f) n \<longleftrightarrow> n < 2 * k \<and> bit (c :: u8) (n mod 8)"
proof -
  obtain j where j: "k = 8 * j" using assms(2) by (rule dvdE)
  have "bit (f OR push_bit k f) n \<longleftrightarrow> bit f n \<or> (k \<le> n \<and> n < 64 \<and> bit f (n - k))"
    by (auto simp: bit_or_iff bit_push_bit_iff)
  also have "\<dots> \<longleftrightarrow> n < 2 * k \<and> bit c (n mod 8)"
  proof (cases "k \<le> n")
    case True
    have "(n - k) mod 8 = n mod 8" unfolding j by (metis True j mod_mult_self2 le_add_diff_inverse2)
    moreover have "n - k < k \<longleftrightarrow> n < 2 * k" using True by linarith
    ultimately show ?thesis using True assms(3) unfolding assms(1) by auto
  qed (use assms(3) in \<open>auto simp: assms(1)\<close>)
  finally show ?thesis .
qed

lemma bit_fill_word: "bit (fill_word c) n \<longleftrightarrow> n < 64 \<and> bit c (n mod 8)"
proof -
  let ?a = "ucast c :: u64" let ?b = "?a OR push_bit 8 ?a" let ?c = "?b OR push_bit 16 ?b"
  have "bit ?a n \<longleftrightarrow> n < 8 \<and> bit c (n mod 8)" for n
    by (cases "n < 8") (auto simp: bit_ucast_iff dest: bit_imp_le_length)
  then have "bit ?b n \<longleftrightarrow> n < 16 \<and> bit c (n mod 8)" for n using fill_double [of ?a 8 c] by simp
  then have "bit ?c n \<longleftrightarrow> n < 32 \<and> bit c (n mod 8)" for n using fill_double [of ?b 16 c] by simp
  then show ?thesis unfolding fill_word_def Let_def using fill_double [of ?c 32 c n] by simp
qed

lemma store_fill_word: "store d (fill_word c) m = fill_mem d c 8 m"
proof (rule ext)
  fix x
  show "store d (fill_word c) m x = fill_mem d c 8 m x"
  proof (cases "unat (x - d) < 8")
    case True
    have "store d (fill_word c) m x = c"
    proof (rule bit_word_eqI)
      fix k assume "k < LENGTH(8)"
      then show "bit (store d (fill_word c) m x) k = bit c k"
        using True bit_store_byte [of x d "fill_word c" m k] by (simp add: bit_fill_word)
    qed
    then show ?thesis using True by (simp add: fill_mem_def)
  qed (simp add: fill_mem_def store_other)
qed

lemma fill_words_eq:
  "8 * w \<le> 2 ^ 64 \<Longrightarrow> fold (\<lambda>i m. store (d + 8 * of_nat i) (fill_word c) m) [0 ..< w] m = fill_mem d c (8 * w) m"
proof (induction w)
  case (Suc w)
  have "fold (\<lambda>i m. store (d + 8 * of_nat i) (fill_word c) m) [0 ..< Suc w] m =
      fill_mem (d + of_nat (8 * w)) c 8 (fill_mem d c (8 * w) m)"
    using Suc by (simp add: store_fill_word)
  also have "\<dots> = fill_mem d c (8 * w + 8) m" using Suc.prems by (intro fill_mem_append) simp
  finally show ?case by (simp add: add.commute)
qed simp

lemma memset_eq: "memset d c n m = fill_mem d (word_of_int c) (unat n) m"
proof (cases "n \<ge> 8 \<and> d AND 7 = 0")
  case True
  let ?w = "unat (n div 8)" and ?c = "word_of_int c :: u8"
  have tail: "n div 8 * 8 = of_nat (8 * ?w)" by (simp add: mult.commute)
  have eq: "unat n = 8 * ?w + unat (n AND 7)" by (rule bytes_split)
  have le: "8 * ?w + unat (n AND 7) \<le> 2 ^ 64"
    using less_imp_le [OF unat_u64_less [of n]] unfolding eq [symmetric] .
  have "memset d c n m = fill_bytes (unat (n AND 7)) (d + of_nat (8 * ?w)) ?c
      (fold (\<lambda>i m. store (d + 8 * of_nat i) (fill_word ?c) m) [0 ..< ?w] m)"
    using True unfolding memset_def Let_def tail by simp
  also have "\<dots> = fill_mem (d + of_nat (8 * ?w)) ?c (unat (n AND 7)) (fill_mem d ?c (8 * ?w) m)"
    using le by (subst fill_words_eq, linarith) (intro fill_bytes_eq, linarith)
  also have "\<dots> = fill_mem d ?c (8 * ?w + unat (n AND 7)) m" using le by (rule fill_mem_append)
  finally show ?thesis by (simp only: eq [symmetric])
next
  case False
  then show ?thesis using fill_bytes_eq [of "unat n" d "word_of_int c" m] by (auto simp: memset_def Let_def less_imp_le)
qed

lemma memmove_eq:
  assumes "unat d + unat n \<le> 2 ^ 64" "unat s + unat n \<le> 2 ^ 64"
  shows "memmove d s n m = copy_mem d s (unat n) m"
proof -
  consider "d = s \<or> n = 0" | "d < s" "n \<noteq> 0" | "s < d" "n \<noteq> 0" by fastforce
  then show ?thesis
  proof cases
    case 1
    then show ?thesis by (auto simp: memmove_def copy_mem_def fun_eq_iff)
  next
    case 2
    have "unat n \<le> unat (d - s)"
      using 2(1) assms(2) by (simp only: unat_sub_cases unat_lt_iff_le) simp
    then show ?thesis using 2 copy_fwd_eq [of "unat n" d s m] by (auto simp: memmove_def)
  next
    case 3
    have "unat n \<le> unat (s - d)"
      using 3(1) assms(1) by (simp only: unat_sub_cases unat_lt_iff_le) simp
    then show ?thesis using 3 copy_bwd_eq [of "unat n" s d m] by (auto simp: memmove_def)
  qed
qed


subsection \<open>Terminated strings\<close>

fun cstr :: "mem \<Rightarrow> u64 \<Rightarrow> u8 list \<Rightarrow> bool" where
  "cstr m a [] \<longleftrightarrow> m a = 0"
| "cstr m a (c # cs) \<longleftrightarrow> c \<noteq> 0 \<and> m a = c \<and> cstr m (a + 1) cs"

lemma cstr_nth: "cstr m a cs \<Longrightarrow> i < length cs \<Longrightarrow> m (a + of_nat i) = cs ! i \<and> cs ! i \<noteq> 0"
proof (induction m a cs arbitrary: i rule: cstr.induct)
  case (2 m a c cs)
  then show ?case by (cases i) (auto simp: add.assoc)
qed simp

lemma cstr_end: "cstr m a cs \<Longrightarrow> m (a + of_nat (length cs)) = 0"
  by (induction m a cs rule: cstr.induct) (auto simp: add.assoc)

lemma cstr_cong:
  "cstr m a cs \<Longrightarrow> (\<And>i. i \<le> length cs \<Longrightarrow> m' (a + of_nat i) = m (a + of_nat i)) \<Longrightarrow> cstr m' a cs"
proof (induction m a cs rule: cstr.induct)
  case (1 m a)
  then show ?case using 1(2) [of 0] by simp
next
  case (2 m a c cs)
  have "m' (a + 1 + of_nat i) = m (a + 1 + of_nat i)" if "i \<le> length cs" for i
    using 2(3) [of "Suc i"] that by (simp add: add.assoc)
  moreover have "m' a = m a" using 2(3) [of 0] by simp
  ultimately show ?case using 2(1,2) by simp
qed

lemma strlen_loop_cstr: "cstr m (a + l) cs \<Longrightarrow> strlen_loop m a l = Some (l + of_nat (length cs))"
proof (induction cs arbitrary: l)
  case Nil
  then show ?case by (subst strlen_loop.simps) simp
next
  case (Cons c cs)
  then have "strlen_loop m a (l + 1) = Some (l + 1 + of_nat (length cs))" by (simp add: add.assoc)
  with Cons.prems show ?case by (subst strlen_loop.simps) (simp add: add.assoc)
qed

lemma strlen_cstr: "cstr m a cs \<Longrightarrow> strlen m a = Some (of_nat (length cs))"
  using strlen_loop_cstr [of m a 0 cs] by (simp add: strlen_def)

lemma memcmp_loop_eq:
  "memcmp_loop m n a b = (case find (\<lambda>i. m (a + of_nat i) \<noteq> m (b + of_nat i)) [0 ..< n] of
     None \<Rightarrow> 0 | Some i \<Rightarrow> uint (m (a + of_nat i)) - uint (m (b + of_nat i)))"
proof (induction n arbitrary: a b)
  case (Suc n)
  show ?case using Suc.IH [of "a + 1" "b + 1"]
    by (auto simp: find_upt_Suc add.assoc comp_def split: option.splits simp del: upt_Suc)
qed simp

fun cmp_strings :: "u8 list \<Rightarrow> u8 list \<Rightarrow> int" where
  "cmp_strings (x # xs) (y # ys) = (if x = y then cmp_strings xs ys else uint x - uint y)"
| "cmp_strings (x # xs) [] = uint x"
| "cmp_strings [] (y # ys) = - uint y"
| "cmp_strings [] [] = 0"

lemma strcmp_cstr: "cstr m a xs \<Longrightarrow> cstr m b ys \<Longrightarrow> strcmp m a b = Some (cmp_strings xs ys)"
proof (induction xs ys arbitrary: a b rule: cmp_strings.induct)
  case (1 x xs y ys)
  then show ?case by (subst strcmp.simps) auto
qed (subst strcmp.simps, auto)+

lemma cmp_strings_0: "0 \<notin> set xs \<Longrightarrow> 0 \<notin> set ys \<Longrightarrow> cmp_strings xs ys = 0 \<longleftrightarrow> xs = ys"
  by (induction xs ys rule: cmp_strings.induct) (auto simp: uint_0_iff simp flip: word_uint_eq_iff)

lemma cmp_strings_neg:
  "0 \<notin> set xs \<Longrightarrow> 0 \<notin> set ys \<Longrightarrow> cmp_strings xs ys < 0 \<longleftrightarrow> (xs, ys) \<in> lexord {(x, y). x < y}"
proof (induction xs ys rule: cmp_strings.induct)
  case (1 x xs y ys)
  then show ?case by (auto simp: word_less_def)
next
  case (2 x xs)
  then show ?case by (simp add: not_less)
next
  case (3 y ys)
  then have "uint y \<noteq> 0" by (simp add: uint_0_iff)
  then have "0 < uint y" using uint_ge_0 [of y] by linarith
  then show ?case by simp
qed simp

lemma cstr_nonzero: "cstr m a cs \<Longrightarrow> 0 \<notin> set cs"
  by (induction m a cs rule: cstr.induct) auto


text \<open>What \<open>strncpy\<close> leaves: the first \<open>n\<close> bytes of the string, padded with zeros.\<close>

definition padded :: "u64 \<Rightarrow> u8 list \<Rightarrow> nat \<Rightarrow> mem \<Rightarrow> mem" where
  "padded d cs n m = (\<lambda>x. let i = unat (x - d) in
     if i < n then (if i < length cs then cs ! i else 0) else m x)"

lemma fold_zero: "fold (\<lambda>j m. m(d + of_nat j := 0)) [i ..< n] m x =
    (if \<exists>j. i \<le> j \<and> j < n \<and> x = d + of_nat j then 0 else m x)" for m :: mem
  by (induction n) (auto simp: less_Suc_eq)

lemma offset_iff:
  "n \<le> 2 ^ 64 \<Longrightarrow> (\<exists>j. i \<le> j \<and> j < n \<and> x = d + of_nat j) \<longleftrightarrow> i \<le> unat (x - d :: u64) \<and> unat (x - d) < n"
  using offset_less [of x d n] by (auto simp: unat_of_nat_u64 intro!: exI [of _ "unat (x - d)"])

lemma strncpy_loop_eq:
  assumes "cstr m s cs" "n \<le> 2 ^ 64" "apart d n s (length cs + 1)"
    "i \<le> length cs" "i \<le> n" "m' = padded d cs i m"
  shows "strncpy_loop m' d s n i = padded d cs n m"
  using assms(4-6)
proof (induction "n - i" arbitrary: i m')
  case 0
  then have "i = n" by simp
  then show ?case using 0 by (subst strncpy_loop.simps) simp
next
  case (Suc k)
  have i: "i < n" "i < 2 ^ 64" using Suc(2) assms(2) by simp_all
  have src: "m' (s + of_nat j) = m (s + of_nat j)" if "j \<le> length cs" "j < 2 ^ 64" for j
  proof -
    have "apart s (length cs + 1) d n" using assms(3) by (simp add: apart_sym)
    moreover have "unat (s + of_nat j - s) < length cs + 1"
      using that by (simp only: unat_add_diff_small)
    ultimately have "n \<le> unat (s + of_nat j - d)" by (rule apart_offset)
    then show ?thesis using i(1) by (simp add: Suc.prems(3) padded_def)
  qed
  show ?case
  proof (cases "i < length cs")
    case True
    have "m' (s + of_nat i) = cs ! i" "cs ! i \<noteq> 0"
      using src [of i] cstr_nth [OF assms(1) True] True i by simp_all
    moreover have "m'(d + of_nat i := cs ! i) = padded d cs (Suc i) m"
    proof (rule ext)
      fix x
      have "x = d + of_nat i \<longleftrightarrow> unat (x - d) = i"
        using i(2) by (auto simp: unat_of_nat_u64)
      then show "(m'(d + of_nat i := cs ! i)) x = padded d cs (Suc i) m x"
        using True by (auto simp: Suc.prems(3) padded_def Let_def less_Suc_eq)
    qed
    ultimately show ?thesis
      using Suc(1) [of "Suc i" "m'(d + of_nat i := cs ! i)"] Suc(2) True i
      by (subst strncpy_loop.simps) simp
  next
    case False
    then have "i = length cs" using Suc.prems(1) by simp
    then have "m' (s + of_nat i) = 0" using src [of i] cstr_end [OF assms(1)] i by simp
    moreover have "fold (\<lambda>j m. m(d + of_nat j := 0)) [i ..< n] m' = padded d cs n m"
      using \<open>i = length cs\<close> i(1) assms(2)
      by (auto simp: fun_eq_iff fold_zero offset_iff Suc.prems(3) padded_def Let_def)
    ultimately show ?thesis by (subst strncpy_loop.simps) simp
  qed
qed

lemma strncpy_eq:
  assumes "cstr m s cs" "apart d (unat n) s (length cs + 1)"
  shows "strncpy d s n m = padded d cs (unat n) m"
  unfolding strncpy_def using assms
  by (intro strncpy_loop_eq) (simp_all add: padded_def less_imp_le)

lemma strchr_loop_cstr:
  "cstr m a cs \<Longrightarrow> c \<noteq> 0 \<Longrightarrow>
   strchr_loop m a c = Some (a + of_nat (length (takeWhile (\<lambda>x. x \<noteq> c) cs)), c \<in> set cs)"
proof (induction m a cs rule: cstr.induct)
  case (1 m a)
  then show ?case by (subst strchr_loop.simps) simp
next
  case (2 m a x cs)
  then show ?case by (subst strchr_loop.simps) (auto simp: add.assoc)
qed

lemma takeWhile_shorter: "\<exists>x \<in> set xs. \<not> P x \<Longrightarrow> length (takeWhile P xs) < length xs"
  by (induction xs) auto

lemma strrchr_loop_cstr:
  "cstr m a cs \<Longrightarrow> c \<noteq> 0 \<Longrightarrow> strrchr_loop m a c l =
     Some (a + of_nat (length cs),
           if c \<in> set cs then a + of_nat (length cs - Suc (length (takeWhile (\<lambda>x. x \<noteq> c) (rev cs)))) else l)"
proof (induction m a cs arbitrary: l rule: cstr.induct)
  case (1 m a)
  then show ?case by (subst strrchr_loop.simps) simp
next
  case (2 m a x cs)
  have tw: "takeWhile (\<lambda>y. y \<noteq> c) (rev cs @ [x]) =
      (if c \<in> set cs then takeWhile (\<lambda>y. y \<noteq> c) (rev cs) else if x = c then rev cs else rev cs @ [x])"
    by (auto simp: takeWhile_append takeWhile_tail)
  have len: "c \<in> set cs \<Longrightarrow> length (takeWhile (\<lambda>y. y \<noteq> c) (rev cs)) < length cs"
    using takeWhile_shorter [of "rev cs" "\<lambda>y. y \<noteq> c"] by auto
  have "strrchr_loop m a c l = strrchr_loop m (a + 1) c (if x = c then a else l)"
    using 2 by (subst strrchr_loop.simps) auto
  then show ?case
    using 2 tw len by (auto simp: add.assoc of_nat_diff Suc_leI)
qed


subsection \<open>Properties of the string library\<close>

text \<open>
  (C10) \<open>memcpy\<close> with its eight-bytes-at-a-time path and its tail loop, on ranges that do not
  overlap, copies exactly the \<open>n\<close> bytes: every byte of the destination range is the source
  byte at the same offset and every other byte of memory keeps its value.
\<close>

theorem memcpy_copies:
  assumes "apart dest (unat n) src (unat n)"
  shows "memcpy dest src n m = copy_mem dest src (unat n) m"
  using assms by (intro memcpy_eq) (simp add: apart_def)

definition demo_mem :: mem where
  "demo_mem = (\<lambda>a. if a = 0x1000 then 65 else if a = 0x1001 then 66 else if a = 0x2000 then 65 else 0)"

theorem memcpy_copies_witness:
  "memcpy 0x3000 0x1000 16 demo_mem 0x3001 = 66 \<and> memcpy 0x3000 0x1000 16 demo_mem 0x1000 = 65"
  using memcpy_copies [of "0x3000" 16 "0x1000" demo_mem]
  by (simp add: apart_def copy_mem_def demo_mem_def)

text \<open>
  \<open>memset\<close>, whose fast path builds a word from eight copies of the byte, sets exactly the
  \<open>n\<close> bytes of the range to the low byte of \<open>c\<close>, for every address, value and length.
\<close>

theorem memset_fills: "memset s c n m = fill_mem s (word_of_int c) (unat n) m"
  by (rule memset_eq)

text \<open>
  (C11) \<open>memmove\<close> copies as if through a buffer, whether the ranges overlap or not, as
  long as neither wraps around the address space.
\<close>

theorem memmove_buffered:
  assumes "unat dest + unat n \<le> 2 ^ 64" "unat src + unat n \<le> 2 ^ 64"
  shows "memmove dest src n m = copy_mem dest src (unat n) m"
  using assms by (rule memmove_eq)

theorem memmove_buffered_witness:
  "memmove 0x1001 0x1000 2 demo_mem 0x1001 = 65 \<and> memmove 0x1001 0x1000 2 demo_mem 0x1002 = 66"
  using memmove_buffered [of "0x1001" 2 "0x1000" demo_mem] by (simp add: copy_mem_def demo_mem_def)

text \<open>
  (C12) On terminated strings \<open>strcmp\<close> ends, returns 0 exactly when the strings are equal and a
  negative number exactly when the first is smaller in the lexicographic order of unsigned
  bytes; \<open>strlen\<close> ends with the length.
\<close>

theorem strcmp_total:
  assumes "cstr m a xs" "cstr m b ys"
  shows "\<exists>r. strcmp m a b = Some r \<and> (r = 0 \<longleftrightarrow> xs = ys) \<and>
    (r < 0 \<longleftrightarrow> (xs, ys) \<in> lexord {(x, y). x < y}) \<and> strlen m a = Some (of_nat (length xs))"
  using strcmp_cstr [OF assms] cmp_strings_0 [of xs ys] cmp_strings_neg [of xs ys] strlen_cstr [OF assms(1)]
    cstr_nonzero [OF assms(1)] cstr_nonzero [OF assms(2)] by simp

theorem strcmp_total_witness:
  "\<exists>r. strcmp demo_mem 0x2000 0x1000 = Some r \<and> r < 0 \<and> strlen demo_mem 0x2000 = Some 1"
  using strcmp_total [of demo_mem "0x2000" "[65]" "0x1000" "[65, 66]"] by (auto simp: demo_mem_def)

text \<open>
  \<open>strncpy\<close> writes the string cut to \<open>n\<close> bytes and pads the rest of the \<open>n\<close> bytes with
  zeros, touching nothing else; \<open>strchr\<close> and \<open>strrchr\<close> return the address of the first and the last
  occurrence of a character, or NULL when there is none.
\<close>

theorem strncpy_search_total:
  assumes "cstr m s cs" "apart d (unat n) s (length cs + 1)" "word_of_int c \<noteq> (0 :: u8)"
  shows "strncpy d s n m = padded d cs (unat n) m \<and>
    strchr m s c = Some (if word_of_int c \<in> set cs
      then s + of_nat (length (takeWhile (\<lambda>x. x \<noteq> word_of_int c) cs)) else 0) \<and>
    strrchr m s c = Some (if word_of_int c \<in> set cs
      then s + of_nat (length cs - Suc (length (takeWhile (\<lambda>x. x \<noteq> word_of_int c) (rev cs)))) else 0)"
proof -
  have "c \<noteq> 0" using assms(3) by auto
  then show ?thesis
    using strncpy_eq [OF assms(1,2)] strchr_loop_cstr [OF assms(1,3)] strrchr_loop_cstr [OF assms(1,3), of 0]
    by (simp add: strchr_def strrchr_def)
qed

theorem strncpy_search_total_witness:
  "strncpy 0x3000 0x1000 4 demo_mem 0x3001 = 66 \<and> strchr demo_mem 0x1000 66 = Some 0x1001 \<and>
   strrchr demo_mem 0x1000 65 = Some 0x1000"
  using strncpy_search_total [of demo_mem "0x1000" "[65, 66]" "0x3000" 4 66]
    strncpy_search_total [of demo_mem "0x1000" "[65, 66]" "0x3000" 4 65]
  by (simp add: demo_mem_def apart_def padded_def)

end
