(* ===== verification/Kheap.thy ===== *)
theory Kheap
  imports Pmm Kstring "HOL-Library.Monad_Syntax" "HOL-Library.Multiset"
begin

text \<open>
  The kernel heap, \<open>kernel/src/mm/kheap.c\<close>: a doubly linked list of block headers, first-fit
  allocation with splitting, release with one coalescing pass, growth by frames of the physical
  memory manager.  Memory is seen through the headers it holds (\<open>hdr\<close>, the header an address
  reads as) and, for the payloads, as bytes (\<open>heap_mem\<close>); the invariant below keeps the blocks
  disjoint, so a header store never reaches a payload or another header.  The loops follow
  pointers and may not end on a cyclic list: they are partial functions with value None there.
\<close>

subsection \<open>The state\<close>

definition HEAP_INITIAL_PAGES :: u64 where "HEAP_INITIAL_PAGES = 16"
definition HEAP_MAGIC :: u32 where "HEAP_MAGIC = 0xDEADBEEF"
definition HEAP_MIN_SPLIT :: u64 where "HEAP_MIN_SPLIT = 64"

record heap_block =
  hb_magic :: u32
  hb_size :: u64
  hb_free :: bool
  hb_next :: u64
  hb_prev :: u64

text \<open>The packed structure has 4 + 8 + 1 + 8 + 8 bytes.\<close>

definition sizeof_heap_block :: u64 where "sizeof_heap_block = 29"

record kheap =
  hdr :: "u64 \<Rightarrow> heap_block"
  heap_start :: u64
  heap_end :: u64
  heap_mem :: "u64 \<Rightarrow> u8"

subsection \<open>Operations\<close>

partial_function (option) last_block :: "(u64 \<Rightarrow> heap_block) \<Rightarrow> u64 \<Rightarrow> u64 option" where
  "last_block f l = (if hb_next (f l) \<noteq> 0 then last_block f (hb_next (f l)) else Some l)"

definition expand_pages :: "u64 \<Rightarrow> u64" where
  "expand_pages min_size = (let pages = (min_size + 4096 - 1) div 4096 in if pages < 4 then 4 else pages)"

definition heap_expand :: "u64 \<Rightarrow> pmm \<times> kheap \<Rightarrow> (bool \<times> pmm \<times> kheap) option" where
  "heap_expand min_size s =
     (let (p, h) = s;
          pages = expand_pages min_size;
          (block, p') = pmm_alloc pages p
      in if block = 0 then Some (False, p', h)
         else let f = (hdr h)(block := \<lparr>hb_magic = HEAP_MAGIC, hb_size = pages * 4096 - sizeof_heap_block,
                                        hb_free = True, hb_next = 0, hb_prev = 0\<rparr>);
                  new_end = block + pages * 4096
              in if heap_start h = 0
                 then Some (True, p', h\<lparr>hdr := f, heap_start := block, heap_end := new_end\<rparr>)
                 else do {
                   last \<leftarrow> last_block f (heap_start h);
                   let f = f(last := (f last)\<lparr>hb_next := block\<rparr>);
                   let f = f(block := (f block)\<lparr>hb_prev := last\<rparr>);
                   Some (True, p', h\<lparr>hdr := f, heap_end := new_end\<rparr>)
                 })"

definition merge_next :: "u64 \<Rightarrow> (u64 \<Rightarrow> heap_block) \<Rightarrow> (u64 \<Rightarrow> heap_block)" where
  "merge_next block f =
     (let f = f(block := (f block)\<lparr>hb_size := hb_size (f block) +
                  (sizeof_heap_block + hb_size (f (hb_next (f block))))\<rparr>);
          f = f(block := (f block)\<lparr>hb_next := hb_next (f (hb_next (f block)))\<rparr>);
          nx = hb_next (f block)
      in if nx \<noteq> 0 then f(nx := (f nx)\<lparr>hb_prev := block\<rparr>) else f)"

partial_function (option) coalesce_from :: "u64 \<Rightarrow> (u64 \<Rightarrow> heap_block) \<Rightarrow> (u64 \<Rightarrow> heap_block) option" where
  "coalesce_from block f =
     (if block = 0 then Some f
      else let f' = (if hb_free (f block) \<and> hb_next (f block) \<noteq> 0 \<and> hb_free (f (hb_next (f block)))
                     then merge_next block f else f)
           in coalesce_from (hb_next (f' block)) f')"

definition heap_coalesce :: "kheap \<Rightarrow> kheap option" where
  "heap_coalesce h = do { f \<leftarrow> coalesce_from (heap_start h) (hdr h); Some (h\<lparr>hdr := f\<rparr>) }"

definition heap_init :: "pmm \<times> kheap \<Rightarrow> (pmm \<times> kheap) option" where
  "heap_init s = do { (_, s') \<leftarrow> heap_expand (HEAP_INITIAL_PAGES * 4096) s; Some s' }"

partial_function (option) find_block :: "(u64 \<Rightarrow> heap_block) \<Rightarrow> u64 \<Rightarrow> u64 \<Rightarrow> u64 option" where
  "find_block f sz block =
     (if block = 0 then Some 0
      else if hb_free (f block) \<and> hb_size (f block) \<ge> sz then Some block
      else find_block f sz (hb_next (f block)))"

definition split_block :: "u64 \<Rightarrow> u64 \<Rightarrow> (u64 \<Rightarrow> heap_block) \<Rightarrow> (u64 \<Rightarrow> heap_block)" where
  "split_block block sz f =
     (let new_block = block + sizeof_heap_block + sz;
          f = f(new_block := \<lparr>hb_magic = HEAP_MAGIC, hb_size = hb_size (f block) - sz - sizeof_heap_block,
                              hb_free = True, hb_next = hb_next (f block), hb_prev = block\<rparr>);
          nx = hb_next (f block);
          f = (if nx \<noteq> 0 then f(nx := (f nx)\<lparr>hb_prev := new_block\<rparr>) else f)
      in f(block := (f block)\<lparr>hb_next := new_block, hb_size := sz\<rparr>))"

definition take_block :: "u64 \<Rightarrow> u64 \<Rightarrow> (u64 \<Rightarrow> heap_block) \<Rightarrow> (u64 \<Rightarrow> heap_block)" where
  "take_block block sz f =
     (let f = (if hb_size (f block) > sz + sizeof_heap_block + HEAP_MIN_SPLIT
               then split_block block sz f else f)
      in f(block := (f block)\<lparr>hb_free := False\<rparr>))"

definition align16 :: "u64 \<Rightarrow> u64" where
  "align16 sz = (sz + 15) AND NOT 15"

partial_function (option) kmalloc :: "u64 \<Rightarrow> pmm \<times> kheap \<Rightarrow> (u64 \<times> pmm \<times> kheap) option" where
  "kmalloc sz s =
     (if sz = 0 then Some (0, s)
      else Option.bind (find_block (hdr (snd s)) (align16 sz) (heap_start (snd s))) (\<lambda>block.
        if block \<noteq> 0
        then Some (block + sizeof_heap_block, fst s,
                   (snd s)\<lparr>hdr := take_block block (align16 sz) (hdr (snd s))\<rparr>)
        else Option.bind (heap_expand (align16 sz) s) (\<lambda>(ok, s').
          if \<not> ok then Some (0, s') else kmalloc (align16 sz) s')))"

definition kcalloc :: "u64 \<Rightarrow> u64 \<Rightarrow> pmm \<times> kheap \<Rightarrow> (u64 \<times> pmm \<times> kheap) option" where
  "kcalloc n sz s =
     (let total = n * sz
      in do {
        (ptr, p, h) \<leftarrow> kmalloc total s;
        Some (ptr, p, if ptr \<noteq> 0 then h\<lparr>heap_mem := memset ptr 0 total (heap_mem h)\<rparr> else h)
      })"

definition kfree :: "u64 \<Rightarrow> kheap \<Rightarrow> kheap option" where
  "kfree ptr h =
     (if ptr = 0 then Some h
      else let block = ptr - sizeof_heap_block
           in if hb_magic (hdr h block) \<noteq> HEAP_MAGIC then Some h
              else heap_coalesce (h\<lparr>hdr := (hdr h)(block := (hdr h block)\<lparr>hb_free := True\<rparr>)\<rparr>))"

definition krealloc :: "u64 \<Rightarrow> u64 \<Rightarrow> pmm \<times> kheap \<Rightarrow> (u64 \<times> pmm \<times> kheap) option" where
  "krealloc ptr sz s =
     (if ptr = 0 then kmalloc sz s
      else if sz = 0 then do { h \<leftarrow> kfree ptr (snd s); Some (0, fst s, h) }
      else let block = ptr - sizeof_heap_block
           in if hb_magic (hdr (snd s) block) \<noteq> HEAP_MAGIC then Some (0, s)
              else if hb_size (hdr (snd s) block) \<ge> sz then Some (ptr, s)
              else do {
                (new_ptr, p, h) \<leftarrow> kmalloc sz s;
                if new_ptr = 0 then Some (0, p, h)
                else do {
                  let h = h\<lparr>heap_mem := memcpy new_ptr ptr (hb_size (hdr h block)) (heap_mem h)\<rparr>;
                  h \<leftarrow> kfree ptr h;
                  Some (new_ptr, p, h)
                }
              })"

subsection \<open>The list of blocks in memory\<close>

text \<open>A block is its address, its payload size and whether it is free.\<close>

type_synonym blk = "u64 \<times> u64 \<times> bool"

fun first_addr :: "blk list \<Rightarrow> u64 \<Rightarrow> u64" where
  "first_addr [] e = e"
| "first_addr ((b, _, _) # _) e = b"

fun last_addr :: "u64 \<Rightarrow> blk list \<Rightarrow> u64" where
  "last_addr q [] = q"
| "last_addr q ((b, _, _) # bs) = last_addr b bs"

definition mk_block :: "u64 \<Rightarrow> bool \<Rightarrow> u64 \<Rightarrow> u64 \<Rightarrow> heap_block" where
  "mk_block s fr nx pv = \<lparr>hb_magic = HEAP_MAGIC, hb_size = s, hb_free = fr, hb_next = nx, hb_prev = pv\<rparr>"

fun bseg :: "(u64 \<Rightarrow> heap_block) \<Rightarrow> u64 \<Rightarrow> blk list \<Rightarrow> u64 \<Rightarrow> bool" where
  "bseg f q [] e \<longleftrightarrow> True"
| "bseg f q ((b, s, fr) # bs) e \<longleftrightarrow>
     b \<noteq> 0 \<and> f b = mk_block s fr (first_addr bs e) q \<and> bseg f b bs e"

abbreviation addrs :: "blk list \<Rightarrow> u64 set" where
  "addrs bs \<equiv> fst ` set bs"

lemma mk_block_sel [simp]:
  "hb_magic (mk_block s fr nx pv) = HEAP_MAGIC" "hb_size (mk_block s fr nx pv) = s"
  "hb_free (mk_block s fr nx pv) = fr" "hb_next (mk_block s fr nx pv) = nx"
  "hb_prev (mk_block s fr nx pv) = pv"
  by (simp_all add: mk_block_def)

lemma mk_block_upd [simp]:
  "(mk_block s fr nx pv)\<lparr>hb_size := s'\<rparr> = mk_block s' fr nx pv"
  "(mk_block s fr nx pv)\<lparr>hb_free := fr'\<rparr> = mk_block s fr' nx pv"
  "(mk_block s fr nx pv)\<lparr>hb_next := nx'\<rparr> = mk_block s fr nx' pv"
  "(mk_block s fr nx pv)\<lparr>hb_prev := pv'\<rparr> = mk_block s fr nx pv'"
  by (simp_all add: mk_block_def)

lemma first_addr_append [simp]: "first_addr (xs @ ys) e = first_addr xs (first_addr ys e)"
  by (cases xs) auto

lemma last_addr_append [simp]: "last_addr q (xs @ ys) = last_addr (last_addr q xs) ys"
  by (induction q xs rule: last_addr.induct) auto

lemma last_addr_in: "xs \<noteq> [] \<Longrightarrow> last_addr q xs \<in> addrs xs"
  by (induction q xs rule: last_addr.induct) (auto, metis (no_types, opaque_lifting) last_addr.simps(1) image_eqI)

lemma bseg_append: "bseg f q (xs @ ys) e \<longleftrightarrow> bseg f q xs (first_addr ys e) \<and> bseg f (last_addr q xs) ys e"
  by (induction f q xs e rule: bseg.induct) auto

lemma bseg_cong: "bseg f q bs e \<Longrightarrow> (\<And>b. b \<in> addrs bs \<Longrightarrow> g b = f b) \<Longrightarrow> bseg g q bs e"
  by (induction f q bs e rule: bseg.induct) auto

lemma bseg_upd_other: "b \<notin> addrs bs \<Longrightarrow> bseg (f(b := x)) q bs e = bseg f q bs e"
  by (intro iffI; erule bseg_cong) auto

lemma bseg_nonzero: "bseg f q bs e \<Longrightarrow> (b, s, fr) \<in> set bs \<Longrightarrow> b \<noteq> 0"
  by (induction f q bs e rule: bseg.induct) auto

lemma first_addr_zero: "bseg f q bs 0 \<Longrightarrow> first_addr bs 0 = 0 \<longleftrightarrow> bs = []"
  by (cases bs rule: list.exhaust) auto


subsection \<open>The loops over the list end\<close>

lemma last_block_bseg:
  "bseg f q bs 0 \<Longrightarrow> bs \<noteq> [] \<Longrightarrow> last_block f (first_addr bs 0) = Some (last_addr q bs)"
proof (induction f q bs "0 :: u64" rule: bseg.induct)
  case (2 f q b s fr bs)
  then show ?case
    by (cases bs rule: list.exhaust; subst last_block.simps) (auto split: prod.splits)
qed simp

definition fits :: "u64 \<Rightarrow> blk \<Rightarrow> bool" where
  "fits sz b \<longleftrightarrow> snd (snd b) \<and> sz \<le> fst (snd b)"

lemma fits_simp [simp]: "fits sz (b, s, fr) \<longleftrightarrow> fr \<and> sz \<le> s"
  by (simp add: fits_def)

lemma find_block_bseg:
  "bseg f q bs 0 \<Longrightarrow> find_block f sz (first_addr bs 0) =
     Some (first_addr (dropWhile (\<lambda>b. \<not> fits sz b) bs) 0)"
proof (induction f q bs "0 :: u64" rule: bseg.induct)
  case (1 f q)
  then show ?case by (subst find_block.simps) simp
next
  case (2 f q b s fr bs)
  then show ?case by (subst find_block.simps) simp
qed

lemma split_first_fit:
  assumes "\<exists>b \<in> set bs. fits sz b"
  obtains xs b s ys where "bs = xs @ (b, s, True) # ys" "\<not> (\<exists>x \<in> set xs. fits sz x)" "sz \<le> s"
    "dropWhile (\<lambda>b. \<not> fits sz b) bs = (b, s, True) # ys"
proof -
  obtain xs x ys where s: "bs = xs @ x # ys" "fits sz x" "\<forall>y \<in> set xs. \<not> fits sz y"
    using split_list_first_prop [OF assms] by blast
  obtain b sz' fr where "x = (b, sz', fr)" by (cases x)
  then show ?thesis using that [of xs b sz' ys] s by (auto simp: dropWhile_append)
qed

lemma no_fit: "\<not> (\<exists>b \<in> set bs. fits sz b) \<Longrightarrow> dropWhile (\<lambda>b. \<not> fits sz b) bs = []"
  by (induction bs) auto

subsection \<open>Relinking\<close>

lemma bseg_set_prev:
  assumes "bseg f q bs e" "distinct (map fst bs)"
    "g = (case bs of [] \<Rightarrow> f | b # _ \<Rightarrow> f(fst b := (f (fst b))\<lparr>hb_prev := q'\<rparr>))"
  shows "bseg g q' bs e"
proof (cases bs)
  case (Cons x xs)
  obtain b s fr where x: "x = (b, s, fr)" by (cases x)
  have "b \<notin> addrs xs" using assms(2) by (auto simp: Cons x)
  then show ?thesis using assms by (auto simp: Cons x bseg_upd_other)
qed simp

lemma split_block_bseg:
  assumes seg: "bseg f q (xs @ (b, s, fr) # ys) 0" and dist: "distinct (map fst (xs @ (b, s, fr) # ys))"
    and new: "n = b + sizeof_heap_block + sz" "n \<noteq> 0" "n \<notin> addrs (xs @ (b, s, fr) # ys)"
  shows "bseg (split_block b sz f) q (xs @ (b, sz, fr) # (n, s - sz - sizeof_heap_block, True) # ys) 0"
proof -
  have b: "b \<notin> addrs xs" "b \<notin> addrs ys" "b \<noteq> 0" "n \<noteq> b" "n \<notin> addrs xs" "n \<notin> addrs ys"
    and fb: "f b = mk_block s fr (first_addr ys 0) (last_addr q xs)"
    using seg dist new(3) by (auto simp: bseg_append)
  have segs: "bseg f q xs b" "bseg f b ys 0" using seg by (auto simp: bseg_append)
  let ?nb = "mk_block (s - sz - sizeof_heap_block) True (first_addr ys 0) b"
  let ?f1 = "f(n := ?nb)"
  let ?f2 = "case ys of [] \<Rightarrow> ?f1 | y # _ \<Rightarrow> ?f1(fst y := (?f1 (fst y))\<lparr>hb_prev := n\<rparr>)"
  have fold: "split_block b sz f = ?f2(b := mk_block sz fr n (last_addr q xs))"
  proof (cases ys)
    case Nil
    then show ?thesis using b(4) unfolding split_block_def Let_def new(1) [symmetric] mk_block_def [symmetric]
      by (simp add: fb)
  next
    case (Cons y zs)
    obtain c t frc where y: "y = (c, t, frc)" by (cases y)
    have "c \<noteq> 0" "c \<noteq> b" "c \<noteq> n" using segs(2) b by (auto simp: Cons y)
    then show ?thesis using b(4) unfolding split_block_def Let_def new(1) [symmetric] mk_block_def [symmetric]
      by (simp add: fb Cons y)
  qed
  have ys: "bseg ?f2 n ys 0"
  proof (rule bseg_set_prev [OF _ _ refl])
    show "bseg ?f1 b ys 0" using segs(2) b(6) by (simp add: bseg_upd_other)
    show "distinct (map fst ys)" using dist by simp
  qed
  have disj: "fst y \<notin> addrs xs \<and> fst y \<noteq> n" if "y \<in> set ys" for y
    using that dist b by auto
  have "?f2 c = f c" if "c \<in> addrs xs" for c
  proof -
    have "c \<noteq> n" using that b(5) by blast
    moreover have "c \<noteq> fst y" if "y \<in> set ys" for y using disj [OF that] \<open>c \<in> addrs xs\<close> by blast
    ultimately show ?thesis by (cases ys) simp_all
  qed
  then have "bseg ?f2 q xs b" by (rule bseg_cong [OF segs(1)])
  moreover have "?f2 n = ?nb" using disj by (cases ys) auto
  ultimately show ?thesis
    using ys b new(2) unfolding fold by (auto simp: bseg_append bseg_upd_other)
qed


subsection \<open>The invariant: disjoint blocks\<close>

definition extent :: "blk \<Rightarrow> nat set" where
  "extent x = {unat (fst x) ..< unat (fst x) + 29 + unat (fst (snd x))}"

definition in_range :: "blk \<Rightarrow> bool" where
  "in_range x \<longleftrightarrow> 4096 \<le> unat (fst x) \<and> unat (fst x) + 29 + unat (fst (snd x)) < 2 ^ 64"

definition apart_blk :: "blk \<Rightarrow> blk \<Rightarrow> bool" where
  "apart_blk x y \<longleftrightarrow> extent x \<inter> extent y = {}"

definition disjoint_blocks :: "blk list \<Rightarrow> bool" where
  "disjoint_blocks bs \<longleftrightarrow> sorted_wrt apart_blk bs"

definition heap_inv :: "kheap \<Rightarrow> blk list \<Rightarrow> bool" where
  "heap_inv h bs \<longleftrightarrow> heap_start h = first_addr bs 0 \<and> bseg (hdr h) 0 bs 0 \<and>
     (\<forall>x \<in> set bs. in_range x) \<and> disjoint_blocks bs"

definition heap_bytes :: "blk list \<Rightarrow> nat" where
  "heap_bytes bs = (\<Sum>x \<leftarrow> bs. 29 + unat (fst (snd x)))"

definition used_blocks :: "blk list \<Rightarrow> blk multiset" where
  "used_blocks bs = mset (filter (\<lambda>x. \<not> snd (snd x)) bs)"

lemma used_blocks_simps [simp]:
  "used_blocks [] = {#}"
  "used_blocks (x # bs) = (if snd (snd x) then used_blocks bs else add_mset x (used_blocks bs))"
  "used_blocks (xs @ ys) = used_blocks xs + used_blocks ys"
  by (simp_all add: used_blocks_def)

lemma heap_bytes_simps [simp]:
  "heap_bytes [] = 0" "heap_bytes (x # bs) = 29 + unat (fst (snd x)) + heap_bytes bs"
  "heap_bytes (xs @ ys) = heap_bytes xs + heap_bytes ys"
  by (simp_all add: heap_bytes_def)

lemma addr_in_extent: "unat (fst x) \<in> extent x"
  by (simp add: extent_def)

lemma apart_blk_addr: "apart_blk x y \<Longrightarrow> fst x \<noteq> fst y"
  using addr_in_extent [of x] addr_in_extent [of y] unfolding apart_blk_def by (metis disjoint_iff)

lemma apart_blk_mono: "apart_blk y x \<Longrightarrow> extent z \<subseteq> extent x \<Longrightarrow> apart_blk y z"
  and apart_blk_mono': "apart_blk x y \<Longrightarrow> extent z \<subseteq> extent x \<Longrightarrow> apart_blk z y"
  unfolding apart_blk_def by blast+

lemma disjoint_blocks_distinct: "disjoint_blocks bs \<Longrightarrow> distinct (map fst bs)"
proof (induction bs)
  case (Cons x bs)
  have "fst x \<noteq> fst y" if "y \<in> set bs" for y
    using Cons.prems that by (intro apart_blk_addr) (simp add: disjoint_blocks_def)
  moreover have "distinct (map fst bs)" using Cons by (simp add: disjoint_blocks_def)
  ultimately show ?case by (simp add: image_iff)
qed simp

lemma disjoint_blocks_replace:
  assumes "disjoint_blocks (xs @ x # ys)" "disjoint_blocks zs" "\<And>z. z \<in> set zs \<Longrightarrow> extent z \<subseteq> extent x"
  shows "disjoint_blocks (xs @ zs @ ys)"
proof -
  have x: "\<forall>y \<in> set xs. apart_blk y x" "\<forall>y \<in> set ys. apart_blk x y"
    using assms(1) by (simp_all add: disjoint_blocks_def sorted_wrt_append)
  have "\<forall>y \<in> set xs. \<forall>z \<in> set zs. apart_blk y z"
    using x(1) assms(3) by (blast intro: apart_blk_mono)
  moreover have "\<forall>z \<in> set zs. \<forall>y \<in> set ys. apart_blk z y"
    using x(2) assms(3) by (blast intro: apart_blk_mono')
  ultimately show ?thesis
    using assms(1,2) by (simp add: disjoint_blocks_def sorted_wrt_append ball_Un)
qed

definition taken :: "u64 \<Rightarrow> u64 \<Rightarrow> u64 \<Rightarrow> blk list" where
  "taken b s sz = (if unat sz + 93 < unat s
     then [(b, sz, False), (b + sizeof_heap_block + sz, s - sz - sizeof_heap_block, True)]
     else [(b, s, False)])"

lemma split_arith:
  assumes "in_range (b, s, fr)" "unat sz + 93 < unat s"
  shows "unat (b + sizeof_heap_block + sz) = unat b + 29 + unat sz"
    and "unat (s - sz - sizeof_heap_block) = unat s - unat sz - 29"
proof -
  have "unat (b + 29) = unat b + 29" using assms by (intro unat_add_u64 [of b 29, simplified]) (simp add: in_range_def)
  then show "unat (b + sizeof_heap_block + sz) = unat b + 29 + unat sz"
    using assms by (subst unat_add_u64) (simp_all add: in_range_def sizeof_heap_block_def)
  have "unat (s - sz) = unat s - unat sz" using assms(2) by (simp add: unat_sub_cases)
  then show "unat (s - sz - sizeof_heap_block) = unat s - unat sz - 29"
    using assms(2) by (simp add: unat_sub_cases [of "s - sz"] sizeof_heap_block_def)
qed

lemma taken_facts:
  assumes "in_range (b, s, fr)" "sz \<le> s"
  shows "\<forall>x \<in> set (taken b s sz). in_range x \<and> extent x \<subseteq> extent (b, s, fr)"
    and "disjoint_blocks (taken b s sz)" and "heap_bytes (taken b s sz) = heap_bytes [(b, s, fr)]"
    and "\<exists>t. used_blocks (taken b s sz) = {#(b, t, False)#} \<and> sz \<le> t"
  using assms split_arith [OF assms(1)]
  by (auto simp: taken_def in_range_def extent_def disjoint_blocks_def apart_blk_def)


lemma bseg_set_free:
  assumes "bseg f q (xs @ (b, s, fr) # ys) e" "distinct (map fst (xs @ (b, s, fr) # ys))"
  shows "bseg (f(b := (f b)\<lparr>hb_free := fr'\<rparr>)) q (xs @ (b, s, fr') # ys) e"
  using assms by (auto simp: bseg_append bseg_upd_other)

lemma take_block_inv:
  assumes inv: "heap_inv h (xs @ (b, s, True) # ys)" and le: "sz \<le> s"
  shows "heap_inv (h\<lparr>hdr := take_block b sz (hdr h)\<rparr>) (xs @ taken b s sz @ ys)"
proof -
  let ?bs = "xs @ (b, s, True) # ys"
  have seg: "bseg (hdr h) 0 ?bs 0" and range: "\<forall>x \<in> set ?bs. in_range x" and disj: "disjoint_blocks ?bs"
    and start: "heap_start h = first_addr ?bs 0"
    using inv by (auto simp: heap_inv_def)
  have dist: "distinct (map fst ?bs)" using disj by (rule disjoint_blocks_distinct)
  have rb: "in_range (b, s, True)" using range by simp
  note tk = taken_facts [OF rb le]
  have hb: "hb_size (hdr h b) = s" using seg by (simp add: bseg_append)
  have split: "hb_size (hdr h b) > sz + sizeof_heap_block + HEAP_MIN_SPLIT \<longleftrightarrow> unat sz + 93 < unat s"
  proof -
    have "unat sz + 93 < 2 ^ 64" using le rb by (simp add: in_range_def word_le_nat_alt)
    then have "unat (sz + 93) = unat sz + 93" by (simp add: unat_add_cases)
    moreover have "sz + sizeof_heap_block + HEAP_MIN_SPLIT = sz + 93"
      by (simp add: sizeof_heap_block_def HEAP_MIN_SPLIT_def)
    ultimately show ?thesis by (simp only: hb word_less_nat_alt)
  qed
  have d: "disjoint_blocks (xs @ taken b s sz @ ys)"
    using disj tk(1,2) by (intro disjoint_blocks_replace [OF disj tk(2)]) blast
  have "bseg (take_block b sz (hdr h)) 0 (xs @ taken b s sz @ ys) 0"
  proof (cases "unat sz + 93 < unat s")
    case True
    let ?n = "b + sizeof_heap_block + sz"
    have tl: "taken b s sz = [(b, sz, False), (?n, s - sz - sizeof_heap_block, True)]"
      using True by (simp add: taken_def)
    have "distinct (map fst (xs @ taken b s sz @ ys))" using d by (rule disjoint_blocks_distinct)
    then have "?n \<notin> addrs ?bs" unfolding tl by auto
    moreover have "unat ?n = unat b + 29 + unat sz" using split_arith(1) [OF rb True] .
    then have "?n \<noteq> 0" by (metis add_is_0 unat_0 zero_neq_numeral)
    ultimately have "bseg (split_block b sz (hdr h)) 0 (xs @ (b, sz, True) # (?n, s - sz - sizeof_heap_block, True) # ys) 0"
      by (intro split_block_bseg [OF seg dist]) simp_all
    moreover have "distinct (map fst (xs @ (b, sz, True) # (?n, s - sz - sizeof_heap_block, True) # ys))"
      using disjoint_blocks_distinct [OF d] unfolding tl by simp
    ultimately have "bseg ((split_block b sz (hdr h))(b := (split_block b sz (hdr h) b)\<lparr>hb_free := False\<rparr>)) 0
        (xs @ (b, sz, False) # (?n, s - sz - sizeof_heap_block, True) # ys) 0"
      by (rule bseg_set_free)
    then show ?thesis using True unfolding tl by (simp add: take_block_def Let_def split)
  next
    case False
    then show ?thesis
      using bseg_set_free [OF seg dist, of False] by (simp add: take_block_def Let_def split taken_def)
  qed
  moreover have "first_addr (taken b s sz @ ys) e = b" for e by (simp add: taken_def)
  moreover have "\<forall>x \<in> set (xs @ taken b s sz @ ys). in_range x" using range tk(1) by auto
  ultimately show ?thesis using d start by (simp add: heap_inv_def)
qed

subsection \<open>Growth\<close>

text \<open>Every byte of every block lies in a frame that is marked in use.\<close>

definition backed :: "pmm \<Rightarrow> blk list \<Rightarrow> bool" where
  "backed p bs \<longleftrightarrow> (\<forall>x \<in> set bs. \<forall>a \<in> extent x. unat (hhdm_offset p) \<le> a \<and>
     bitmap_test p ((a - unat (hhdm_offset p)) div PAGE_SIZE))"

lemma expand_pages_bounds: "4 \<le> unat (expand_pages sz)" "expand_pages sz \<noteq> 0"
proof -
  have "4 \<le> expand_pages sz" by (simp add: expand_pages_def Let_def not_less)
  then show "4 \<le> unat (expand_pages sz)" by (simp add: word_le_nat_alt)
  then show "expand_pages sz \<noteq> 0" by (auto simp: unat_eq_0)
qed

lemma heap_expand_link:
  assumes "heap_inv h bs" "v \<noteq> 0" "v \<notin> addrs bs"
    "f = (hdr h)(v := mk_block n True 0 0)"
  shows "bs \<noteq> [] \<Longrightarrow> last_block f (heap_start h) = Some (last_addr 0 bs)"
    and "bs \<noteq> [] \<Longrightarrow> l = last_addr 0 bs \<Longrightarrow>
      bseg (f(l := (f l)\<lparr>hb_next := v\<rparr>, v := ((f(l := (f l)\<lparr>hb_next := v\<rparr>)) v)\<lparr>hb_prev := l\<rparr>)) 0 (bs @ [(v, n, True)]) 0"
proof -
  have seg: "bseg f 0 bs 0" using assms by (simp add: heap_inv_def bseg_upd_other)
  then show "bs \<noteq> [] \<Longrightarrow> last_block f (heap_start h) = Some (last_addr 0 bs)"
    using assms(1) last_block_bseg by (simp add: heap_inv_def)
  assume "bs \<noteq> []" and l: "l = last_addr 0 bs"
  then obtain ys b s fr where bs: "bs = ys @ [(b, s, fr)]" by (metis prod_cases3 rev_exhaust)
  have "distinct (map fst bs)" using assms(1) by (simp add: heap_inv_def disjoint_blocks_distinct)
  then show "bseg (f(l := (f l)\<lparr>hb_next := v\<rparr>, v := ((f(l := (f l)\<lparr>hb_next := v\<rparr>)) v)\<lparr>hb_prev := l\<rparr>)) 0 (bs @ [(v, n, True)]) 0"
    using seg assms(2,3) by (auto simp: l bs bseg_append bseg_upd_other assms(4))
qed


text \<open>The block that an expansion adds: the run of frames that was found, less its header.\<close>

lemma new_block_facts:
  assumes inv: "pmm_inv p" and alloc: "pmm_alloc n p = (v, p')" "v \<noteq> 0"
  obtains s where "unat v = unat (hhdm_offset p) + s * PAGE_SIZE"
    "run_free p (unat (total_pages p)) s (unat n)" "0 < unat n" "p' = take_run s n p" "4096 \<le> unat v"
    "unat (n * 4096) = unat n * 4096" "unat v + unat n * 4096 < 2 ^ 64"
    "unat (n * 4096 - sizeof_heap_block) + 29 = unat n * 4096"
  using inv
proof (cases rule: pmm_alloc_cases [where n = n])
  case Fail
  then show ?thesis using alloc by simp
next
  case (Run s)
  have h: "hhdm_offset p \<noteq> 0" "PAGE_SIZE dvd unat (hhdm_offset p)"
    "unat (hhdm_offset p) + unat (total_pages p) * PAGE_SIZE < 2 ^ 64"
    using inv by (auto simp: pmm_inv_def hhdm_ok_def)
  have n0: "0 < unat n" using Run(1) by (simp add: unat_gt_0)
  have fit: "s + unat n \<le> unat (total_pages p)" using Run(5) by (simp add: run_free_def)
  have v: "unat v = unat (hhdm_offset p) + s * PAGE_SIZE"
    using page_addr_nonzero(2) [OF inv, of s] fit n0 Run(2) alloc(1) by simp
  have "PAGE_SIZE \<le> unat (hhdm_offset p)"
    using h(1,2) by (intro dvd_imp_le) (simp_all add: unat_gt_0)
  then have low: "4096 \<le> unat (hhdm_offset p)" by (simp add: PAGE_SIZE_def)
  have le: "unat (hhdm_offset p) + s * 4096 + unat n * 4096 < 2 ^ 64"
    using h(3) fit mult_le_mono1 [OF fit, of 4096] by (simp add: PAGE_SIZE_def algebra_simps)
  have bytes: "unat (n * 4096) = unat n * 4096"
    using le low n0 by (subst unat_mult_lem [THEN iffD1]) simp_all
  have "unat (n * 4096 - sizeof_heap_block) = unat n * 4096 - 29"
    using n0 by (simp add: unat_sub_cases [of "n * 4096"] bytes sizeof_heap_block_def)
  then show ?thesis
    using that [of s] v Run(2,5) n0 le low bytes alloc(1) by (simp add: PAGE_SIZE_def)
qed

lemma heap_expand_inv:
  assumes "heap_inv h bs" "pmm_inv p" "backed p bs"
  shows "(heap_expand sz (p, h) = Some (False, p, h) \<and>
       (\<forall>t. \<not> run_free p (unat (total_pages p)) t (unat (expand_pages sz)))) \<or>
    (\<exists>p' h' v. heap_expand sz (p, h) = Some (True, p', h') \<and> pmm_inv p' \<and>
       free_count p = free_count p' + unat (expand_pages sz) \<and> heap_mem h' = heap_mem h \<and>
       heap_inv h' (bs @ [(v, expand_pages sz * 4096 - sizeof_heap_block, True)]) \<and>
       backed p' (bs @ [(v, expand_pages sz * 4096 - sizeof_heap_block, True)]) \<and>
       unat (expand_pages sz * 4096 - sizeof_heap_block) + 29 = unat (expand_pages sz) * 4096)"
proof -
  define n where "n = expand_pages sz"
  obtain v p' where alloc: "pmm_alloc n p = (v, p')" by (cases "pmm_alloc n p")
  show ?thesis
  proof (cases "v = 0")
    case True
    have "p' = p \<and> (\<forall>t. \<not> run_free p (unat (total_pages p)) t (unat n))"
      using assms(2) by (cases rule: pmm_alloc_cases [where n = n])
        (use True alloc expand_pages_bounds(2) [of sz] in \<open>auto simp: n_def\<close>)
    then show ?thesis using True alloc by (simp add: heap_expand_def Let_def n_def)
  next
    case False
    obtain s where s: "unat v = unat (hhdm_offset p) + s * PAGE_SIZE"
      "run_free p (unat (total_pages p)) s (unat n)" "0 < unat n" "p' = take_run s n p" "4096 \<le> unat v"
      "unat (n * 4096) = unat n * 4096" "unat v + unat n * 4096 < 2 ^ 64"
      "unat (n * 4096 - sizeof_heap_block) + 29 = unat n * 4096"
      using new_block_facts [OF assms(2) alloc False] by blast
    let ?new = "(v, n * 4096 - sizeof_heap_block, True)"
    let ?bs = "bs @ [?new]"
    have page: "s \<le> (a - unat (hhdm_offset p)) div PAGE_SIZE \<and> (a - unat (hhdm_offset p)) div PAGE_SIZE < s + unat n
        \<and> unat (hhdm_offset p) \<le> a" if "a \<in> extent ?new" for a
    proof -
      have a: "unat v \<le> a" "a < unat v + unat n * 4096" using that s(8) by (auto simp: extent_def)
      then have "s * 4096 \<le> a - unat (hhdm_offset p)" "a - unat (hhdm_offset p) < (s + unat n) * 4096"
        using s(1) by (simp_all add: PAGE_SIZE_def algebra_simps)
      then show ?thesis using a s(1) by (simp add: PAGE_SIZE_def less_eq_div_iff_mult_less_eq div_less_iff_less_mult)
    qed
    have fresh: "\<forall>x \<in> set bs. apart_blk x ?new"
    proof
      fix x assume "x \<in> set bs"
      then have "bitmap_test p ((a - unat (hhdm_offset p)) div PAGE_SIZE)" if "a \<in> extent x" for a
        using that assms(3) by (auto simp: backed_def)
      moreover have "\<not> bitmap_test p ((a - unat (hhdm_offset p)) div PAGE_SIZE)" if "a \<in> extent ?new" for a
        using page [OF that] s(2) by (simp add: run_free_def)
      ultimately show "apart_blk x ?new" unfolding apart_blk_def by blast
    qed
    then have disj: "disjoint_blocks ?bs"
      using assms(1) by (simp add: heap_inv_def disjoint_blocks_def sorted_wrt_append)
    have range: "\<forall>x \<in> set ?bs. in_range x"
      using assms(1) s(5,7,8) by (auto simp: heap_inv_def in_range_def)
    have bk: "backed p' ?bs"
      using assms(3) page by (auto simp: backed_def s(4))
    have "v \<notin> addrs bs" using disjoint_blocks_distinct [OF disj] by auto
    note link = heap_expand_link [OF assms(1) False this refl]
    have "\<exists>h'. heap_expand sz (p, h) = Some (True, p', h') \<and> heap_inv h' ?bs \<and> heap_mem h' = heap_mem h"
    proof (cases "bs = []")
      case True
      then show ?thesis using alloc False assms(1) disj range
        by (auto simp: heap_expand_def Let_def heap_inv_def n_def [symmetric] mk_block_def)
    next
      case False
      then have "heap_start h \<noteq> 0" using assms(1) first_addr_zero by (auto simp: heap_inv_def)
      then show ?thesis
        using alloc \<open>v \<noteq> 0\<close> assms(1) disj range False link
        by (simp add: heap_expand_def Let_def heap_inv_def n_def [symmetric] mk_block_def [symmetric])
           (cases bs, auto)
    qed
    then show ?thesis
      using bk s(8) take_run_inv [OF assms(2) s(2)] free_count_take_run [OF s(2)] s(4)
      unfolding n_def [symmetric] by auto
  qed
qed


subsection \<open>Allocation\<close>

lemma and_not_mask: "(\<And>n. bit y n \<longleftrightarrow> n < k) \<Longrightarrow> x AND NOT y = push_bit k (drop_bit k x)" for x y :: u64
proof (rule bit_word_eqI)
  fix n assume y: "\<And>n. bit y n \<longleftrightarrow> n < k" and n: "n < LENGTH(64)"
  have "bit (x AND NOT y) n \<longleftrightarrow> bit x n \<and> k \<le> n"
    using n by (simp add: bit_and_iff bit_not_iff y not_less)
  also have "\<dots> \<longleftrightarrow> bit (push_bit k (drop_bit k x)) n"
    using n by (cases "k \<le> n") (simp_all add: bit_push_bit_iff bit_drop_bit_eq)
  finally show "bit (x AND NOT y) n \<longleftrightarrow> bit (push_bit k (drop_bit k x)) n" .
qed

lemma unat_and_not_15: "unat (x AND NOT 15 :: u64) = unat x div 16 * 16"
proof -
  have "(15 :: u64) = mask 4" by (simp add: mask_eq_exp_minus_1)
  then have "bit (15 :: u64) n \<longleftrightarrow> n < 4" for n by (simp only: bit_mask_iff) auto
  then have "x AND NOT 15 = push_bit 4 (drop_bit 4 x)" by (rule and_not_mask)
  also have "\<dots> = x div 16 * 16" by (simp add: push_bit_eq_mult drop_bit_eq_div)
  also have "unat \<dots> = unat x div 16 * 16"
  proof (subst unat_mult_lem [THEN iffD1])
    have "unat x div 16 * 16 < 2 ^ 64"
      using div_times_less_eq_dividend unat_u64_less by (rule le_less_trans)
    then show "unat (x div 16) * unat (16 :: u64) < 2 ^ LENGTH(64)" by (simp add: unat_div)
  qed (simp add: unat_div)
  finally show ?thesis .
qed

lemma align16_bounds:
  assumes "unat sz + 15 < 2 ^ 64"
  shows "unat (align16 sz) = (unat sz + 15) div 16 * 16" "sz \<le> align16 sz" "sz \<noteq> 0 \<Longrightarrow> align16 sz \<noteq> 0"
    "align16 (align16 sz) = align16 sz"
proof -
  show eq: "unat (align16 sz) = (unat sz + 15) div 16 * 16"
    using assms unfolding align16_def unat_and_not_15 by (simp add: unat_add_cases)
  then show le: "sz \<le> align16 sz" by (simp add: word_le_nat_alt)
  then show "sz \<noteq> 0 \<Longrightarrow> align16 sz \<noteq> 0" by auto
  have "unat (align16 sz) \<le> 18446744073709551600" unfolding eq using assms by simp
  then have "unat (align16 sz + 15) = unat (align16 sz) + 15" by (simp add: unat_add_cases)
  then have "unat (align16 (align16 sz)) = (unat (align16 sz) + 15) div 16 * 16"
    unfolding align16_def [of "align16 sz"] unat_and_not_15 by simp
  then show "align16 (align16 sz) = align16 sz" by (simp add: word_unat_eq_iff eq)
qed

lemma payload_nonzero: "in_range (b, s, fr) \<Longrightarrow> b + sizeof_heap_block \<noteq> 0"
proof -
  assume "in_range (b, s, fr)"
  then have "unat (b + sizeof_heap_block) = unat b + 29"
    by (simp add: unat_add_cases sizeof_heap_block_def in_range_def)
  then show ?thesis by (metis add_is_0 unat_0 zero_neq_numeral)
qed

text \<open>
  What a request that returns does to the blocks: nothing is lost or shared, the bytes of the
  heap and of the free frames are accounted for, and the block of the result is new.
\<close>

definition alloc_result :: "u64 \<Rightarrow> pmm \<Rightarrow> blk list \<Rightarrow> u64 \<Rightarrow> pmm \<Rightarrow> blk list \<Rightarrow> bool" where
  "alloc_result sz p bs ptr p' bs' \<longleftrightarrow>
     heap_bytes bs' + PAGE_SIZE * free_count p' = heap_bytes bs + PAGE_SIZE * free_count p \<and>
     (if ptr = 0
      then used_blocks bs' = used_blocks bs \<and> (\<forall>x \<in> set bs'. \<not> fits sz x) \<and>
           (\<forall>t. \<not> run_free p' (unat (total_pages p')) t (unat (expand_pages sz)))
      else \<exists>s. used_blocks bs' = add_mset (ptr - sizeof_heap_block, s, False) (used_blocks bs) \<and> sz \<le> s)"

lemma kmalloc_found:
  assumes "heap_inv h bs" "\<exists>x \<in> set bs. fits sz x" "sz \<noteq> 0" "align16 sz = sz"
  shows "\<exists>xs b s ys. bs = xs @ (b, s, True) # ys \<and> \<not> (\<exists>x \<in> set xs. fits sz x) \<and> sz \<le> s \<and>
    kmalloc sz (p, h) = Some (b + sizeof_heap_block, p, h\<lparr>hdr := take_block b sz (hdr h)\<rparr>) \<and>
    heap_inv (h\<lparr>hdr := take_block b sz (hdr h)\<rparr>) (xs @ taken b s sz @ ys) \<and>
    alloc_result sz p bs (b + sizeof_heap_block) p (xs @ taken b s sz @ ys)"
proof -
  obtain xs b s ys where bs: "bs = xs @ (b, s, True) # ys" "\<not> (\<exists>x \<in> set xs. fits sz x)" "sz \<le> s"
    "dropWhile (\<lambda>b. \<not> fits sz b) bs = (b, s, True) # ys"
    using split_first_fit [OF assms(2)] by blast
  have "find_block (hdr h) sz (heap_start h) = Some b"
    using find_block_bseg [of "hdr h" 0 bs sz] assms(1) bs(4) by (simp add: heap_inv_def)
  moreover have r: "in_range (b, s, True)" using assms(1) by (auto simp: heap_inv_def bs(1))
  then have "b \<noteq> 0" by (auto simp: in_range_def)
  ultimately have k: "kmalloc sz (p, h) = Some (b + sizeof_heap_block, p, h\<lparr>hdr := take_block b sz (hdr h)\<rparr>)"
    using assms(3,4) by (subst kmalloc.simps) simp
  have nz: "b + sizeof_heap_block \<noteq> 0" using r by (rule payload_nonzero)
  have "alloc_result sz p bs (b + sizeof_heap_block) p (xs @ taken b s sz @ ys)"
    using taken_facts(3,4) [OF r bs(3)] nz by (auto simp: alloc_result_def bs(1))
  then show ?thesis using k take_block_inv [OF assms(1) [unfolded bs(1)] bs(3)] bs by blast
qed

lemma kmalloc_total_aligned:
  assumes "heap_inv h bs" "pmm_inv p" "backed p bs" "sz \<noteq> 0" "align16 sz = sz"
  shows "\<exists>ptr p' h' bs'. kmalloc sz (p, h) = Some (ptr, p', h') \<and> heap_inv h' bs' \<and> pmm_inv p' \<and>
    backed p' bs' \<and> heap_mem h' = heap_mem h \<and> alloc_result sz p bs ptr p' bs'"
  using assms(1-3)
proof (induction "free_count p" arbitrary: p h bs rule: less_induct)
  case less
  show ?case
  proof (cases "\<exists>x \<in> set bs. fits sz x")
    case True
    obtain xs b s ys where *: "bs = xs @ (b, s, True) # ys" "sz \<le> s"
      "kmalloc sz (p, h) = Some (b + sizeof_heap_block, p, h\<lparr>hdr := take_block b sz (hdr h)\<rparr>)"
      "heap_inv (h\<lparr>hdr := take_block b sz (hdr h)\<rparr>) (xs @ taken b s sz @ ys)"
      "alloc_result sz p bs (b + sizeof_heap_block) p (xs @ taken b s sz @ ys)"
      using kmalloc_found [OF less.prems(1) True assms(4,5), of p] by blast
    have "in_range (b, s, True)" using less.prems(1) by (auto simp: heap_inv_def *(1))
    then have "backed p (xs @ taken b s sz @ ys)"
      using taken_facts(1) [OF _ *(2)] less.prems(3) unfolding backed_def *(1) by fastforce
    with * less.prems(2) show ?thesis by fastforce
  next
    case False
    have "find_block (hdr h) sz (heap_start h) = Some 0"
      using find_block_bseg [of "hdr h" 0 bs sz] less.prems(1) no_fit [OF False] by (simp add: heap_inv_def)
    then have step: "kmalloc sz (p, h) = Option.bind (heap_expand sz (p, h))
        (\<lambda>(ok, s'). if \<not> ok then Some (0, s') else kmalloc sz s')"
      using assms(4) by (subst kmalloc.simps, unfold assms(5)) simp
    consider (fail) "heap_expand sz (p, h) = Some (False, p, h)"
        "\<forall>t. \<not> run_free p (unat (total_pages p)) t (unat (expand_pages sz))"
      | (grow) p1 h1 v where "heap_expand sz (p, h) = Some (True, p1, h1)" "pmm_inv p1"
        "free_count p = free_count p1 + unat (expand_pages sz)" "heap_mem h1 = heap_mem h"
        "heap_inv h1 (bs @ [(v, expand_pages sz * 4096 - sizeof_heap_block, True)])"
        "backed p1 (bs @ [(v, expand_pages sz * 4096 - sizeof_heap_block, True)])"
        "unat (expand_pages sz * 4096 - sizeof_heap_block) + 29 = unat (expand_pages sz) * 4096"
      using heap_expand_inv [OF less.prems, of sz] by blast
    then show ?thesis
    proof cases
      case fail
      then show ?thesis using step less.prems False by (auto simp: alloc_result_def)
    next
      case grow
      have "free_count p1 < free_count p" using grow(3) expand_pages_bounds(1) [of sz] by simp
      then obtain ptr p' h' bs' where IH: "kmalloc sz (p1, h1) = Some (ptr, p', h')" "heap_inv h' bs'" "pmm_inv p'"
        "backed p' bs'" "heap_mem h' = heap_mem h1"
        "alloc_result sz p1 (bs @ [(v, expand_pages sz * 4096 - sizeof_heap_block, True)]) ptr p' bs'"
        using less.hyps [OF _ grow(5,2,6)] by blast
      have "alloc_result sz p bs ptr p' bs'"
      proof -
        let ?bs = "bs @ [(v, expand_pages sz * 4096 - sizeof_heap_block, True)]"
        have ub: "used_blocks ?bs = used_blocks bs" by simp
        have hb: "heap_bytes ?bs + PAGE_SIZE * free_count p1 = heap_bytes bs + PAGE_SIZE * free_count p"
          using grow(3,7) by (simp add: PAGE_SIZE_def)
        show ?thesis using IH(6) unfolding alloc_result_def hb ub .
      qed
      then show ?thesis using IH step grow(1,4) by auto
    qed
  qed
qed


lemma kmalloc_align:
  assumes "sz \<noteq> 0" "unat sz + 15 < 2 ^ 64"
  shows "kmalloc sz st = kmalloc (align16 sz) st"
  using assms(1) align16_bounds(3) [OF assms(2)]
  by (subst kmalloc.simps, subst (2) kmalloc.simps, unfold align16_bounds(4) [OF assms(2)]) simp

subsection \<open>Release\<close>

fun coalesced :: "blk list \<Rightarrow> blk list" where
  "coalesced ((b, s, True) # (c, t, True) # bs) = (b, s + (sizeof_heap_block + t), True) # coalesced bs"
| "coalesced (x # bs) = x # coalesced bs"
| "coalesced [] = []"

lemma coalesced_cases:
  obtains (merge) b s c t bs where "xs = (b, s, True) # (c, t, True) # bs"
  | (step) b s fr bs where "xs = (b, s, fr) # bs" "\<not> (fr \<and> (\<exists>c t zs. bs = (c, t, True) # zs))"
      "coalesced xs = (b, s, fr) # coalesced bs"
  | (nil) "xs = []"
  by (cases xs rule: coalesced.cases) auto

lemma merge_next_bseg:
  assumes seg: "bseg f q ((b, s, True) # (c, t, True) # bs) 0"
    and dist: "distinct (map fst ((b, s, True) # (c, t, True) # bs))"
  shows "bseg (merge_next b f) q ((b, s + (sizeof_heap_block + t), True) # bs) 0"
    and "\<And>a. a \<notin> {b} \<union> addrs bs \<Longrightarrow> merge_next b f a = f a"
proof -
  have fb: "f b = mk_block s True c q" "f c = mk_block t True (first_addr bs 0) b" "b \<noteq> 0" "c \<noteq> b" "bseg f c bs 0"
    "b \<notin> addrs bs" using seg dist by auto
  let ?B = "mk_block (s + (sizeof_heap_block + t)) True (first_addr bs 0) q"
  let ?f1 = "f(b := ?B)"
  have m: "merge_next b f = (case bs of [] \<Rightarrow> ?f1 | x # _ \<Rightarrow> ?f1(fst x := (?f1 (fst x))\<lparr>hb_prev := b\<rparr>))"
  proof (cases bs)
    case (Cons x xs)
    then have "fst x \<noteq> 0" using fb(5) by (cases x) auto
    then show ?thesis using fb Cons by (cases x) (simp add: merge_next_def Let_def)
  qed (use fb in \<open>simp add: merge_next_def Let_def\<close>)
  have "bseg (merge_next b f) b bs 0"
    unfolding m
  proof (rule bseg_set_prev [OF _ _ refl])
    show "bseg ?f1 c bs 0" using fb(5,6) by (simp add: bseg_upd_other)
    show "distinct (map fst bs)" using dist by simp
  qed
  moreover have "merge_next b f b = ?B"
    unfolding m using fb(6) by (cases bs) auto
  ultimately show "bseg (merge_next b f) q ((b, s + (sizeof_heap_block + t), True) # bs) 0"
    using fb(3) by simp
  show "\<And>a. a \<notin> {b} \<union> addrs bs \<Longrightarrow> merge_next b f a = f a"
    unfolding m by (cases bs) auto
qed

lemma coalesce_from_bseg:
  assumes "bseg f q bs 0" "distinct (map fst bs)"
  shows "\<exists>f'. coalesce_from (first_addr bs 0) f = Some f' \<and> bseg f' q (coalesced bs) 0 \<and>
    (\<forall>a. a \<notin> addrs bs \<longrightarrow> f' a = f a)"
  using assms
proof (induction "length bs" arbitrary: bs f q rule: less_induct)
  case less
  show ?case
  proof (cases bs rule: coalesced_cases)
    case (merge b s c t ys)
    let ?f = "merge_next b f" and ?s = "s + (sizeof_heap_block + t)"
    note m = merge_next_bseg [OF less.prems [unfolded merge]]
    have seg: "bseg ?f b ys 0" "?f b = mk_block ?s True (first_addr ys 0) q" "b \<noteq> 0" using m(1) by auto
    have dist: "distinct (map fst ys)" "b \<notin> addrs ys" using less.prems(2) by (auto simp: merge)
    obtain f' where f': "coalesce_from (first_addr ys 0) ?f = Some f'" "bseg f' b (coalesced ys) 0"
      "\<forall>a. a \<notin> addrs ys \<longrightarrow> f' a = ?f a"
      using less.hyps [of ys ?f b] seg(1) dist(1) by (auto simp: merge)
    have first: "first_addr (coalesced ys) 0 = first_addr ys 0"
      by (cases ys rule: coalesced.cases) auto
    have "coalesce_from b f = coalesce_from (first_addr ys 0) ?f"
      using less.prems(1) seg by (subst coalesce_from.simps) (auto simp: merge Let_def)
    then show ?thesis
      using f' seg(2,3) first dist(2) m(2) by (auto simp: merge)
  next
    case (step b s fr ys)
    have seg: "bseg f b ys 0" "f b = mk_block s fr (first_addr ys 0) q" "b \<noteq> 0"
      using less.prems(1) by (auto simp: step(1))
    have dist: "distinct (map fst ys)" "b \<notin> addrs ys" using less.prems(2) by (auto simp: step(1))
    obtain f' where f': "coalesce_from (first_addr ys 0) f = Some f'" "bseg f' b (coalesced ys) 0"
      "\<forall>a. a \<notin> addrs ys \<longrightarrow> f' a = f a"
      using less.hyps [of ys f b] seg(1) dist(1) by (auto simp: step(1))
    have first: "first_addr (coalesced ys) 0 = first_addr ys 0"
      by (cases ys rule: coalesced.cases) auto
    have "\<not> (fr \<and> first_addr ys 0 \<noteq> 0 \<and> hb_free (f (first_addr ys 0)))"
      using step(2) seg(1) by (cases ys) auto
    then have "coalesce_from b f = coalesce_from (first_addr ys 0) f"
      using seg by (subst coalesce_from.simps) (auto simp: Let_def)
    then show ?thesis
      using f' seg(2,3) first dist(2) step(3) by (auto simp: step(1))
  next
    case nil
    then show ?thesis by (subst coalesce_from.simps) auto
  qed
qed


text \<open>Blocks that follow each other in memory as they do in the list.\<close>

fun contig :: "blk list \<Rightarrow> bool" where
  "contig (x # y # bs) \<longleftrightarrow> unat (fst y) = unat (fst x) + 29 + unat (fst (snd x)) \<and> contig (y # bs)"
| "contig _ \<longleftrightarrow> True"

lemma contig_append:
  "contig (xs @ ys) \<longleftrightarrow> contig xs \<and> contig ys \<and>
     (xs \<noteq> [] \<and> ys \<noteq> [] \<longrightarrow> unat (fst (hd ys)) = unat (fst (last xs)) + 29 + unat (fst (snd (last xs))))"
proof (induction xs)
  case (Cons x xs)
  then show ?case by (cases xs; cases ys) auto
qed simp

lemma contig_above:
  "contig (x # bs) \<Longrightarrow> y \<in> set bs \<Longrightarrow> unat (fst x) + 29 + unat (fst (snd x)) \<le> unat (fst y)"
proof (induction bs arbitrary: x)
  case (Cons z bs)
  show ?case
  proof (cases "y = z")
    case False
    then have "unat (fst z) + 29 + unat (fst (snd z)) \<le> unat (fst y)" using Cons.prems by (intro Cons.IH) auto
    then show ?thesis using Cons.prems by simp
  qed (use Cons in simp)
qed simp

lemma contig_disjoint: "contig bs \<Longrightarrow> disjoint_blocks bs"
proof (induction bs)
  case (Cons x bs)
  have "apart_blk x y" if "y \<in> set bs" for y
    using contig_above [OF Cons.prems that] by (auto simp: apart_blk_def extent_def)
  moreover have "contig bs" using Cons.prems by (cases bs) auto
  ultimately show ?case using Cons.IH by (simp add: disjoint_blocks_def)
qed (simp add: disjoint_blocks_def)

lemma merge_size:
  assumes "contig [(b, s, fr), (c, t, gr)]" "in_range (c, t, gr)"
  shows "unat (s + (sizeof_heap_block + t)) = unat s + 29 + unat t"
proof -
  have "unat s + 29 + unat t < 2 ^ 64" using assms by (simp add: in_range_def)
  then show ?thesis by (simp add: unat_add_cases sizeof_heap_block_def)
qed

lemma coalesced_contig:
  assumes "contig bs" "\<forall>x \<in> set bs. in_range x"
  shows "contig (coalesced bs) \<and> (\<forall>x \<in> set (coalesced bs). in_range x) \<and>
    heap_bytes (coalesced bs) = heap_bytes bs \<and> used_blocks (coalesced bs) = used_blocks bs \<and>
    first_addr (coalesced bs) 0 = first_addr bs 0"
  using assms
proof (induction "length bs" arbitrary: bs rule: less_induct)
  case less
  show ?case
  proof (cases bs rule: coalesced_cases)
    case (merge b s c t ys)
    have sz: "unat (s + (sizeof_heap_block + t)) = unat s + 29 + unat t"
      using less.prems by (intro merge_size [of b s True c t True]) (auto simp: merge)
    have "contig ys" using less.prems(1) by (cases ys) (auto simp: merge)
    then have IH: "contig (coalesced ys) \<and> (\<forall>x \<in> set (coalesced ys). in_range x) \<and>
      heap_bytes (coalesced ys) = heap_bytes ys \<and> used_blocks (coalesced ys) = used_blocks ys \<and>
      first_addr (coalesced ys) 0 = first_addr ys 0"
      using less.prems(2) by (intro less.hyps) (auto simp: merge)
    have "contig ((b, s + (sizeof_heap_block + t), True) # coalesced ys)"
      using IH less.prems(1) sz
      by (cases ys; cases "coalesced ys"; auto simp: merge)
    then show ?thesis using IH sz less.prems by (auto simp: merge in_range_def)
  next
    case (step b s fr ys)
    have "contig ys" using less.prems(1) by (cases ys) (auto simp: step(1))
    then have IH: "contig (coalesced ys) \<and> (\<forall>x \<in> set (coalesced ys). in_range x) \<and>
      heap_bytes (coalesced ys) = heap_bytes ys \<and> used_blocks (coalesced ys) = used_blocks ys \<and>
      first_addr (coalesced ys) 0 = first_addr ys 0"
      using less.prems(2) by (intro less.hyps) (auto simp: step(1))
    have "contig ((b, s, fr) # coalesced ys)"
      using IH less.prems(1) by (cases ys; cases "coalesced ys"; auto simp: step(1))
    then show ?thesis using IH step(3) less.prems(2) by (simp add: step(1))
  next
    case nil
    then show ?thesis by simp
  qed
qed

lemma kfree_list:
  assumes "heap_inv h (xs @ (b, s, fr) # ys)"
  shows "\<exists>h'. kfree (b + sizeof_heap_block) h = Some h' \<and> heap_start h' = heap_start h \<and> heap_mem h' = heap_mem h \<and>
    bseg (hdr h') 0 (coalesced (xs @ (b, s, True) # ys)) 0"
proof -
  let ?bs = "xs @ (b, s, True) # ys"
  let ?f = "(hdr h)(b := (hdr h b)\<lparr>hb_free := True\<rparr>)"
  have seg: "bseg (hdr h) 0 (xs @ (b, s, fr) # ys) 0" and start: "heap_start h = first_addr ?bs 0"
    and r: "in_range (b, s, fr)" and dis: "disjoint_blocks (xs @ (b, s, fr) # ys)"
    using assms by (auto simp: heap_inv_def)
  note d = disjoint_blocks_distinct [OF dis]
  have "bseg ?f 0 ?bs 0" using seg d by (rule bseg_set_free)
  moreover have "distinct (map fst ?bs)" using d by simp
  ultimately obtain f' where f': "coalesce_from (first_addr ?bs 0) ?f = Some f'" "bseg f' 0 (coalesced ?bs) 0"
    using coalesce_from_bseg by blast
  have "hb_magic (hdr h b) = HEAP_MAGIC" using seg by (simp add: bseg_append)
  then have "kfree (b + sizeof_heap_block) h = Some (h\<lparr>hdr := f'\<rparr>)"
    using f'(1) start payload_nonzero [OF r] by (simp add: kfree_def Let_def heap_coalesce_def)
  then show ?thesis using f'(2) by simp
qed


lemma kfree_contig_inv:
  assumes "heap_inv h (xs @ (b, s, fr) # ys)" "contig (xs @ (b, s, fr) # ys)"
  shows "\<exists>h' bs'. kfree (b + sizeof_heap_block) h = Some h' \<and> heap_inv h' bs' \<and> contig bs' \<and>
    heap_mem h' = heap_mem h \<and> heap_bytes bs' = heap_bytes (xs @ (b, s, fr) # ys) \<and>
    used_blocks bs' = used_blocks (xs @ ys)"
proof -
  let ?bs = "xs @ (b, s, True) # ys"
  have c: "contig ?bs" using assms(2) by (cases ys) (auto simp: contig_append)
  have r: "\<forall>x \<in> set ?bs. in_range x" using assms(1) by (auto simp: heap_inv_def in_range_def)
  note co = coalesced_contig [OF c r]
  have "first_addr ?bs 0 = heap_start h" using assms(1) by (simp add: heap_inv_def)
  then have "\<exists>h'. kfree (b + sizeof_heap_block) h = Some h' \<and> heap_inv h' (coalesced ?bs) \<and> heap_mem h' = heap_mem h"
    using kfree_list [OF assms(1)] co contig_disjoint by (auto simp: heap_inv_def)
  then show ?thesis using co by fastforce
qed

lemma bseg_unique:
  "bseg f q bs 0 \<Longrightarrow> bseg f q cs 0 \<Longrightarrow> first_addr bs 0 = first_addr cs 0 \<Longrightarrow> bs = cs"
proof (induction f q bs "0 :: u64" arbitrary: cs rule: bseg.induct)
  case (1 f q)
  then show ?case using first_addr_zero [of f q cs] by auto
next
  case (2 f q b s fr bs)
  obtain t gr ds where cs: "cs = (b, t, gr) # ds" using 2 by (cases cs) auto
  have "mk_block s fr (first_addr bs 0) q = mk_block t gr (first_addr ds 0) q" using 2 by (simp add: cs)
  then have "s = t" "fr = gr" "first_addr bs 0 = first_addr ds 0" by (simp_all add: mk_block_def)
  then show ?case using 2 by (simp add: cs)
qed

lemma heap_inv_unique: "heap_inv h bs \<Longrightarrow> heap_inv h cs \<Longrightarrow> bs = cs"
  using bseg_unique by (auto simp: heap_inv_def)

subsection \<open>The interface to the clients\<close>

text \<open>
  Nodes, pipes and tasks are heap objects: their code relies on a request either failing or
  returning a pointer that is not live, and on the live pointers staying live.
\<close>

locale object_allocator =
  fixes ok :: "'s \<Rightarrow> bool" and alloc :: "u64 \<Rightarrow> 's \<Rightarrow> (u64 \<times> 's) option" and live :: "'s \<Rightarrow> u64 \<Rightarrow> bool"
  assumes alloc_total: "ok s \<Longrightarrow> sz \<noteq> 0 \<Longrightarrow> unat sz + 15 < 2 ^ 64 \<Longrightarrow> \<exists>a s'. alloc sz s = Some (a, s') \<and> ok s'"
    and alloc_null: "ok s \<Longrightarrow> sz \<noteq> 0 \<Longrightarrow> unat sz + 15 < 2 ^ 64 \<Longrightarrow> alloc sz s = Some (0, s') \<Longrightarrow> live s' b = live s b"
    and alloc_new: "ok s \<Longrightarrow> sz \<noteq> 0 \<Longrightarrow> unat sz + 15 < 2 ^ 64 \<Longrightarrow> alloc sz s = Some (a, s') \<Longrightarrow> a \<noteq> 0 \<Longrightarrow>
      \<not> live s a \<and> (live s' b \<longleftrightarrow> b = a \<or> live s b)"
begin

primrec alloc_objects :: "nat \<Rightarrow> u64 \<Rightarrow> 's \<Rightarrow> (u64 list \<times> 's) option" where
  "alloc_objects 0 sz s = Some ([], s)"
| "alloc_objects (Suc n) sz s = Option.bind (alloc sz s) (\<lambda>(a, s').
     if a = 0 then Some ([], s')
     else map_option (\<lambda>(as, s''). (a # as, s'')) (alloc_objects n sz s'))"

lemma alloc_objects_distinct:
  assumes "ok s" "sz \<noteq> 0" "unat sz + 15 < 2 ^ 64"
  shows "\<exists>as s'. alloc_objects n sz s = Some (as, s') \<and> ok s' \<and> distinct as \<and> 0 \<notin> set as \<and>
    (\<forall>a \<in> set as. \<not> live s a) \<and> (\<forall>b. live s' b \<longleftrightarrow> b \<in> set as \<or> live s b)"
  using assms(1)
proof (induction n arbitrary: s)
  case (Suc n)
  obtain a s1 where a: "alloc sz s = Some (a, s1)" "ok s1"
    using alloc_total [OF Suc.prems assms(2,3)] by blast
  show ?case
  proof (cases "a = 0")
    case True
    then show ?thesis using a alloc_null [OF Suc.prems assms(2,3)] by auto
  next
    case False
    obtain as s' where "alloc_objects n sz s1 = Some (as, s')" "ok s'" "distinct as" "0 \<notin> set as"
      "\<forall>a \<in> set as. \<not> live s1 a" "\<forall>b. live s' b \<longleftrightarrow> b \<in> set as \<or> live s1 b"
      using Suc.IH [OF a(2)] by blast
    then show ?thesis
      using a False alloc_new [OF Suc.prems assms(2,3) a(1) False] by (auto simp: False)
  qed
qed simp

end

definition heap_ok :: "pmm \<times> kheap \<Rightarrow> bool" where
  "heap_ok s \<longleftrightarrow> (\<exists>bs. heap_inv (snd s) bs \<and> pmm_inv (fst s) \<and> backed (fst s) bs)"

definition live_ptr :: "pmm \<times> kheap \<Rightarrow> u64 \<Rightarrow> bool" where
  "live_ptr s a \<longleftrightarrow> (\<exists>bs z. heap_inv (snd s) bs \<and> (a - sizeof_heap_block, z, False) \<in># used_blocks bs)"

lemma in_used_blocks: "x \<in># used_blocks bs \<longleftrightarrow> x \<in> set bs \<and> \<not> snd (snd x)"
  by (auto simp: used_blocks_def)

lemma live_ptr_inv: "heap_inv h bs \<Longrightarrow> live_ptr (p, h) a \<longleftrightarrow> (\<exists>z. (a - sizeof_heap_block, z, False) \<in># used_blocks bs)"
  using heap_inv_unique by (auto simp: live_ptr_def)

lemma kmalloc_total_inv:
  assumes "heap_inv h bs" "pmm_inv p" "backed p bs" "sz \<noteq> 0" "unat sz + 15 < 2 ^ 64"
  shows "\<exists>ptr p' h' bs'. kmalloc sz (p, h) = Some (ptr, p', h') \<and> heap_inv h' bs' \<and> pmm_inv p' \<and>
    backed p' bs' \<and> heap_mem h' = heap_mem h \<and> alloc_result (align16 sz) p bs ptr p' bs'"
  using kmalloc_total_aligned [OF assms(1-3), of "align16 sz"] align16_bounds(3,4) [OF assms(5)]
    kmalloc_align [OF assms(4,5)] assms(4) by simp

lemma fresh_used:
  assumes "heap_inv h' bs'" "used_blocks bs' = add_mset (b, z, False) (used_blocks bs)"
  shows "(b, z', False) \<notin># used_blocks bs"
proof
  assume "(b, z', False) \<in># used_blocks bs"
  then obtain M where "used_blocks bs = add_mset (b, z', False) M" by (metis mset_add)
  then have two: "2 \<le> count (image_mset fst (used_blocks bs')) b" using assms(2) by simp
  have "distinct (map fst (filter (\<lambda>x. \<not> snd (snd x)) bs'))"
    using assms(1) disjoint_blocks_distinct by (auto simp: heap_inv_def distinct_map_filter)
  then have "count (mset (map fst (filter (\<lambda>x. \<not> snd (snd x)) bs'))) b \<le> 1"
    by (simp add: distinct_count_atmost_1 del: mset_map mset_filter)
  then show False using two by (simp add: used_blocks_def)
qed

interpretation kobjects: object_allocator heap_ok kmalloc live_ptr
proof
  fix st :: "pmm \<times> kheap" and sz :: u64
  assume ok: "heap_ok st" and sz: "sz \<noteq> 0" "unat sz + 15 < 2 ^ 64"
  obtain p h where st: "st = (p, h)" by (cases st)
  obtain bs where inv: "heap_inv h bs" "pmm_inv p" "backed p bs" using ok by (auto simp: heap_ok_def st)
  obtain ptr p' h' bs' where k: "kmalloc sz (p, h) = Some (ptr, p', h')" "heap_inv h' bs'" "pmm_inv p'"
    "backed p' bs'" "alloc_result (align16 sz) p bs ptr p' bs'"
    using kmalloc_total_inv [OF inv sz] by blast
  show "\<exists>a s'. kmalloc sz st = Some (a, s') \<and> heap_ok s'"
    using k by (auto simp: st heap_ok_def)
  show "kmalloc sz st = Some (0, s') \<Longrightarrow> live_ptr s' b = live_ptr st b" for s' b
    using k inv(1) by (auto simp: st live_ptr_inv alloc_result_def)
  show "kmalloc sz st = Some (a, s') \<Longrightarrow> a \<noteq> 0 \<Longrightarrow> \<not> live_ptr st a \<and> (live_ptr s' b \<longleftrightarrow> b = a \<or> live_ptr st b)" for s' a b
    using k inv(1) fresh_used [OF k(2)] by (auto simp: st live_ptr_inv alloc_result_def)
qed


subsection \<open>Properties of the kernel heap\<close>

text \<open>
  (C6) \<open>kmalloc\<close> always returns: the search ends and the retry after an expansion ends.  NULL
  means that no block of the heap fits and no run of frames is left for an expansion, and then
  no block in use has changed; otherwise the result is the payload of a block at least as large
  as the request that was not in use, all other used blocks are unchanged, and the blocks stay disjoint
  and backed by frames.  Bytes of blocks and free frames are conserved in both cases.
\<close>

theorem kmalloc_total:
  assumes "heap_inv h bs" "pmm_inv p" "backed p bs" "sz \<noteq> 0" "unat sz + 15 < 2 ^ 64"
  shows "\<exists>ptr p' h' bs'. kmalloc sz (p, h) = Some (ptr, p', h') \<and>
    heap_inv h' bs' \<and> pmm_inv p' \<and> backed p' bs' \<and> heap_mem h' = heap_mem h \<and>
    sz \<le> align16 sz \<and> alloc_result (align16 sz) p bs ptr p' bs'"
  using kmalloc_total_inv [OF assms] align16_bounds(2) [OF assms(5)] by simp

definition empty_heap :: kheap where
  "empty_heap = \<lparr>hdr = (\<lambda>_. mk_block 0 False 0 0), heap_start = 0, heap_end = 0, heap_mem = (\<lambda>_. 7)\<rparr>"

definition free8_pmm :: pmm where
  "free8_pmm = \<lparr>bitmap_ptr = 0xffff800000001000, bitmap = (\<lambda>_. 0), usable_bytes = 0, bitmap_size = 1,
     total_pages = 8, free_pages = 8, highest_page = 0, hhdm_offset = 0xffff800000000000\<rparr>"

lemma free8_inv: "pmm_inv free8_pmm"
  by (simp add: pmm_inv_def hhdm_ok_def free8_pmm_def free_count_def count_upto_code PAGE_SIZE_def
      bitmap_test_bit upt_rec)

lemma empty_heap_inv: "heap_inv empty_heap []" "backed p []"
  by (simp_all add: heap_inv_def empty_heap_def disjoint_blocks_def backed_def)

theorem kmalloc_total_witness:
  "\<exists>ptr p' h' bs'. kmalloc 100 (free8_pmm, empty_heap) = Some (ptr, p', h') \<and> heap_inv h' bs' \<and>
     alloc_result (align16 100) free8_pmm [] ptr p' bs'"
  using kmalloc_total [OF empty_heap_inv(1) free8_inv empty_heap_inv(2), of 100] by auto

text \<open>
  (C7) \<open>kfree\<close> on a heap whose blocks follow each other in memory returns, gives up exactly the
  released block, keeps the list linked, disjoint and contiguous after its coalescing
  pass, and loses no byte.
\<close>

theorem kfree_contiguous:
  assumes "heap_inv h (xs @ (b, s, False) # ys)" "contig (xs @ (b, s, False) # ys)"
  shows "\<exists>h' bs'. kfree (b + sizeof_heap_block) h = Some h' \<and> heap_inv h' bs' \<and> contig bs' \<and>
    heap_bytes bs' = heap_bytes (xs @ (b, s, False) # ys) \<and>
    used_blocks (xs @ (b, s, False) # ys) = add_mset (b, s, False) (used_blocks bs')"
  using kfree_contig_inv [OF assms] by fastforce

definition two_heap :: kheap where
  "two_heap = \<lparr>hdr = (\<lambda>a. if a = 0x10000 then mk_block 100 False 0x10081 0 else mk_block 200 True 0 0x10000),
     heap_start = 0x10000, heap_end = 0, heap_mem = (\<lambda>_. 7)\<rparr>"

lemma two_heap_inv: "heap_inv two_heap [(0x10000, 100, False), (0x10081, 200, True)]"
  by (auto simp: heap_inv_def two_heap_def disjoint_blocks_def apart_blk_def in_range_def extent_def)

theorem kfree_contiguous_witness:
  "\<exists>h' bs'. kfree (0x10000 + sizeof_heap_block) two_heap = Some h' \<and> heap_inv h' bs' \<and> used_blocks bs' = {#}"
  using kfree_contiguous [of two_heap "[]" "0x10000" 100 "[(0x10081, 200, True)]"] two_heap_inv by auto

text \<open>
  Boot: \<open>heap_init\<close> on the empty heap, when sixteen adjacent frames are free, leaves one free block
  of sixteen pages less its header, backed by frames that are now in use.
\<close>

theorem heap_init_correct:
  assumes "heap_inv h []" "pmm_inv p" "run_free p (unat (total_pages p)) t 16"
  shows "\<exists>p' h' v. heap_init (p, h) = Some (p', h') \<and> pmm_inv p' \<and> heap_inv h' [(v, 65507, True)] \<and>
    backed p' [(v, 65507, True)] \<and> free_count p = free_count p' + 16"
proof -
  have pages: "expand_pages (HEAP_INITIAL_PAGES * 4096) = 16"
    by (simp add: expand_pages_def HEAP_INITIAL_PAGES_def)
  have "backed p []" by (simp add: backed_def)
  from heap_expand_inv [OF assms(1,2) this, of "HEAP_INITIAL_PAGES * 4096"] show ?thesis
    using assms(3) unfolding pages by (auto simp: heap_init_def sizeof_heap_block_def)
qed

definition free17_pmm :: pmm where
  "free17_pmm = \<lparr>bitmap_ptr = 0xffff800000001000, bitmap = (\<lambda>_. 0), usable_bytes = 0, bitmap_size = 1,
     total_pages = 17, free_pages = 17, highest_page = 0, hhdm_offset = 0xffff800000000000\<rparr>"

lemma free17_inv: "pmm_inv free17_pmm"
  by (simp add: pmm_inv_def hhdm_ok_def free17_pmm_def free_count_def count_upto_code PAGE_SIZE_def
      bitmap_test_bit)

theorem heap_init_correct_witness:
  "\<exists>p' h' v. heap_init (free17_pmm, empty_heap) = Some (p', h') \<and> heap_inv h' [(v, 65507, True)]"
proof -
  have "run_free free17_pmm (unat (total_pages free17_pmm)) 0 16"
    by (simp add: run_free_def free17_pmm_def bitmap_test_bit)
  then show ?thesis using heap_init_correct [OF empty_heap_inv(1) free17_inv] by blast
qed


text \<open>The payloads of two blocks do not meet, so copying between them is copying through a buffer.\<close>

lemma payloads_apart:
  assumes "in_range (b, s, fr)" "in_range (c, t, gr)" "apart_blk (b, s, fr) (c, t, gr)"
    "n \<le> unat s" "n \<le> unat t" "0 < n"
  shows "n \<le> unat ((c + sizeof_heap_block) - (b + sizeof_heap_block))"
proof -
  have "unat c \<notin> extent (b, s, fr)" "unat b \<notin> extent (c, t, gr)"
    using assms(3) addr_in_extent [of "(b, s, fr)"] addr_in_extent [of "(c, t, gr)"]
    by (auto simp: apart_blk_def)
  then have "unat b + 29 + unat s \<le> unat c \<or> unat c + 29 + unat t \<le> unat b"
    by (auto simp: extent_def)
  moreover have "unat b + 29 + unat s < 2 ^ 64" using assms(1) by (simp add: in_range_def)
  ultimately have "n \<le> unat (c - b)" using assms(4,5) by (simp add: unat_sub_cases) linarith
  then show ?thesis by simp
qed

lemma used_in_inv:
  assumes "heap_inv h bs" "(b, s, fr) \<in> set bs"
  shows "in_range (b, s, fr)" "hb_size (hdr h b) = s" "hb_magic (hdr h b) = HEAP_MAGIC"
    "\<exists>xs ys. bs = xs @ (b, s, fr) # ys"
proof -
  obtain xs ys where bs: "bs = xs @ (b, s, fr) # ys" using assms(2) by (meson split_list)
  then show "in_range (b, s, fr)" "hb_size (hdr h b) = s" "hb_magic (hdr h b) = HEAP_MAGIC"
    using assms(1) by (auto simp: heap_inv_def bseg_append)
  show "\<exists>xs ys. bs = xs @ (b, s, fr) # ys" using bs by blast
qed

lemma disjoint_blocks_apart:
  "disjoint_blocks bs \<Longrightarrow> x \<in> set bs \<Longrightarrow> y \<in> set bs \<Longrightarrow> x \<noteq> y \<Longrightarrow> apart_blk x y"
proof (induction bs)
  case (Cons z bs)
  then show ?case unfolding disjoint_blocks_def by (auto simp: apart_blk_def)
qed simp


definition full_pmm :: pmm where
  "full_pmm = \<lparr>bitmap_ptr = 0x10000, bitmap = (\<lambda>_. 0xFF), usable_bytes = 0, bitmap_size = 1,
     total_pages = 8, free_pages = 0, highest_page = 0, hhdm_offset = 0x10000\<rparr>"

lemma full_inv: "pmm_inv full_pmm" "backed full_pmm [(0x10000, 100, False), (0x10081, 200, True)]"
  by (auto simp: pmm_inv_def hhdm_ok_def full_pmm_def free_count_def count_upto_code PAGE_SIZE_def
      bitmap_test_bit upt_rec backed_def extent_def)


text \<open>
  \<open>kcalloc\<close>, when the product of its arguments does not overflow, returns, and every byte of
  the returned payload up to the requested total is zero.
\<close>

theorem kcalloc_zeroes:
  assumes "heap_inv h bs" "pmm_inv p" "backed p bs" "n * sz \<noteq> 0" "unat n * unat sz + 15 < 2 ^ 64"
  shows "\<exists>ptr p' h' bs'. kcalloc n sz (p, h) = Some (ptr, p', h') \<and> heap_inv h' bs' \<and>
    alloc_result (align16 (n * sz)) p bs ptr p' bs' \<and>
    (ptr \<noteq> 0 \<longrightarrow> (\<forall>i < unat n * unat sz. heap_mem h' (ptr + of_nat i) = 0))"
proof -
  have "unat (n * sz) = unat n * unat sz"
    using assms(5) by (subst unat_mult_lem [THEN iffD1]) simp_all
  moreover from this obtain ptr p' h' bs' where "kmalloc (n * sz) (p, h) = Some (ptr, p', h')" "heap_inv h' bs'"
      "alloc_result (align16 (n * sz)) p bs ptr p' bs'"
    using kmalloc_total_inv [OF assms(1-4)] assms(5) by auto
  ultimately show ?thesis
    using assms(5) by (auto simp: kcalloc_def Let_def heap_inv_def memset_eq fill_mem_def unat_of_nat_u64)
qed

theorem kcalloc_zeroes_witness:
  "\<exists>ptr p' h' bs'. kcalloc 4 8 (free8_pmm, empty_heap) = Some (ptr, p', h') \<and> heap_inv h' bs' \<and>
     (ptr \<noteq> 0 \<longrightarrow> (\<forall>i < 32. heap_mem h' (ptr + of_nat i) = 0))"
  using kcalloc_zeroes [OF empty_heap_inv(1) free8_inv empty_heap_inv(2), of 4 8] by auto

subsection \<open>Limits of the implementation\<close>

lemma kmalloc_never_fits:
  assumes "heap_inv h bs" "pmm_inv p" "backed p bs" "sz \<noteq> 0" "align16 sz = sz"
    "\<not> (\<exists>x \<in> set bs. fits sz x)" "unat (expand_pages sz) * 4096 < unat sz + 29"
  shows "\<exists>p' h'. kmalloc sz (p, h) = Some (0, p', h') \<and>
    (\<forall>t. \<not> run_free p' (unat (total_pages p')) t (unat (expand_pages sz)))"
  using assms(1-3,6)
proof (induction "free_count p" arbitrary: p h bs rule: less_induct)
  case less
  have "find_block (hdr h) sz (heap_start h) = Some 0"
    using find_block_bseg [of "hdr h" 0 bs sz] less.prems(1) no_fit [OF less.prems(4)] by (simp add: heap_inv_def)
  then have step: "kmalloc sz (p, h) = Option.bind (heap_expand sz (p, h))
      (\<lambda>(ok, s'). if \<not> ok then Some (0, s') else kmalloc sz s')"
    using assms(4) by (subst kmalloc.simps, unfold assms(5)) simp
  consider (fail) "heap_expand sz (p, h) = Some (False, p, h)"
      "\<forall>t. \<not> run_free p (unat (total_pages p)) t (unat (expand_pages sz))"
    | (grow) p1 h1 v where "heap_expand sz (p, h) = Some (True, p1, h1)" "pmm_inv p1"
      "free_count p = free_count p1 + unat (expand_pages sz)"
      "heap_inv h1 (bs @ [(v, expand_pages sz * 4096 - sizeof_heap_block, True)])"
      "backed p1 (bs @ [(v, expand_pages sz * 4096 - sizeof_heap_block, True)])"
      "unat (expand_pages sz * 4096 - sizeof_heap_block) + 29 = unat (expand_pages sz) * 4096"
    using heap_expand_inv [OF less.prems(1-3), of sz] by blast
  then show ?case
  proof cases
    case grow
    have "\<not> sz \<le> expand_pages sz * 4096 - sizeof_heap_block"
      using grow(6) assms(7) by (simp add: word_le_nat_alt)
    then have "\<not> (\<exists>x \<in> set (bs @ [(v, expand_pages sz * 4096 - sizeof_heap_block, True)]). fits sz x)"
      using less.prems(4) by auto
    moreover have "free_count p1 < free_count p" using grow(3) expand_pages_bounds(1) [of sz] by simp
    ultimately show ?thesis using less.hyps [OF _ grow(4,2,5)] step grow(1) by simp
  qed (use step in simp)
qed


text \<open>
  A request of four pages less sixteen bytes is larger than the block that its own expansion adds, because
  the expansion does not count the header: where no block fits already, \<open>kmalloc\<close> takes
  every run of four frames the memory manager has and then returns NULL.
\<close>

theorem kmalloc_starves:
  assumes "heap_inv h bs" "pmm_inv p" "backed p bs" "\<forall>x \<in> set bs. \<not> fits 16368 x"
  shows "\<exists>p' h'. kmalloc 16368 (p, h) = Some (0, p', h') \<and> (\<forall>t. \<not> run_free p' (unat (total_pages p')) t 4)"
proof -
  have "align16 16368 = 16368" by (simp add: align16_def)
  moreover have "expand_pages 16368 = 4" by (simp add: expand_pages_def)
  ultimately show ?thesis using kmalloc_never_fits [OF assms(1-3), of 16368] assms(4) by simp
qed

theorem kmalloc_starves_witness:
  "\<exists>p' h'. kmalloc 16368 (free8_pmm, empty_heap) = Some (0, p', h') \<and>
     (\<forall>t. \<not> run_free p' (unat (total_pages p')) t 4) \<and> run_free free8_pmm 8 0 4"
  using kmalloc_starves [OF empty_heap_inv(1) free8_inv empty_heap_inv(2)]
  by (auto simp: run_free_def free8_pmm_def bitmap_test_bit)

text \<open>
  (C9) Coalescing looks at the order of the list, not at addresses: releasing a block whose
  successor in the list is free merges the two even when the successor lies elsewhere in memory, and the
  merged block then covers addresses that belong to neither.
\<close>

theorem kfree_merges_gap:
  assumes "heap_inv h [(b, s, False), (c, t, True)]" "unat s + 29 + unat t < 2 ^ 64"
    "unat c \<noteq> unat b + 29 + unat s"
  shows "\<exists>h'. kfree (b + sizeof_heap_block) h = Some h' \<and> bseg (hdr h') 0 [(b, s + (sizeof_heap_block + t), True)] 0 \<and>
    \<not> extent (b, s + (sizeof_heap_block + t), True) \<subseteq> extent (b, s, False) \<union> extent (c, t, True)"
proof -
  have "unat (s + (sizeof_heap_block + t)) = unat s + 29 + unat t"
    using assms(2) by (simp add: unat_add_cases sizeof_heap_block_def)
  moreover have "apart_blk (b, s, False) (c, t, True)"
    using assms(1) by (simp add: heap_inv_def disjoint_blocks_def)
  ultimately have "unat b + 29 + unat s \<in> extent (b, s + (sizeof_heap_block + t), True)"
      "unat b + 29 + unat s \<notin> extent (b, s, False)"
      "unat b + 29 + unat s \<in> extent (c, t, True) \<Longrightarrow> unat b + 28 + unat s \<in> extent (c, t, True)"
      "unat b + 28 + unat s \<in> extent (b, s, False)"
    using assms(3) by (auto simp: extent_def)
  moreover have "unat b + 28 + unat s \<notin> extent (c, t, True)"
    using \<open>apart_blk (b, s, False) (c, t, True)\<close> calculation(4) unfolding apart_blk_def by blast
  ultimately have "\<not> extent (b, s + (sizeof_heap_block + t), True) \<subseteq> extent (b, s, False) \<union> extent (c, t, True)"
    by blast
  then show ?thesis using kfree_list [of h "[]" b s False "[(c, t, True)]"] assms(1) by auto
qed

definition gap_heap :: kheap where
  "gap_heap = \<lparr>hdr = (\<lambda>a. if a = 0x20000 then mk_block 100 False 0x10000 0 else mk_block 200 True 0 0x20000),
     heap_start = 0x20000, heap_end = 0, heap_mem = (\<lambda>_. 7)\<rparr>"

lemma gap_heap_inv: "heap_inv gap_heap [(0x20000, 100, False), (0x10000, 200, True)]"
  by (auto simp: heap_inv_def gap_heap_def disjoint_blocks_def apart_blk_def in_range_def extent_def)

theorem kfree_merges_gap_witness:
  "\<exists>h'. kfree (0x20000 + sizeof_heap_block) gap_heap = Some h' \<and>
     bseg (hdr h') 0 [(0x20000, 100 + (sizeof_heap_block + 200), True)] 0"
  using kfree_merges_gap [OF gap_heap_inv] by auto

end
