(* ===== verification/Sched.thy ===== *)
theory Sched
  imports Pmm Kstring
begin

text \<open>
  Tasks and the scheduler, \<open>kernel/src/proc/sched.c\<close> and \<open>sched.h\<close>: the task table, creation of
  tasks with their kernel stacks, the round-robin choice and the switch of the user context held
  in the per-CPU slots.  A pointer into the task table is the index of the slot.  The stack
  pointer that \<open>context_switch\<close> saves is the machine's, an argument of the operations that switch.
\<close>

subsection \<open>Constants and data\<close>

abbreviation MAX_TASKS :: nat where "MAX_TASKS \<equiv> 64"
abbreviation TASK_NAME_LEN :: nat where "TASK_NAME_LEN \<equiv> 32"
abbreviation KSTACK_PAGES :: u64 where "KSTACK_PAGES \<equiv> 32"
abbreviation MAX_FDS :: nat where "MAX_FDS \<equiv> 16"
abbreviation NSIG :: nat where "NSIG \<equiv> 32"

abbreviation SIGINT :: nat where "SIGINT \<equiv> 2"
abbreviation SIGSEGV :: nat where "SIGSEGV \<equiv> 11"
abbreviation SIGPIPE :: nat where "SIGPIPE \<equiv> 13"
abbreviation SIGTERM :: nat where "SIGTERM \<equiv> 15"
abbreviation SIGKILL :: nat where "SIGKILL \<equiv> 17"
abbreviation SIG_DFL :: u64 where "SIG_DFL \<equiv> 0"
abbreviation SIG_IGN :: u64 where "SIG_IGN \<equiv> 1"

datatype task_state = TASK_FREE | TASK_READY | TASK_RUNNING | TASK_BLOCKED

record file_t =
  f_node :: u64
  f_pipe :: u64
  f_flags :: u32
  f_pos :: u64

abbreviation FDF_CONSOLE_IN :: u32 where "FDF_CONSOLE_IN \<equiv> 1"
abbreviation FDF_CONSOLE_OUT :: u32 where "FDF_CONSOLE_OUT \<equiv> 2"
abbreviation FDF_PIPE_RD :: u32 where "FDF_PIPE_RD \<equiv> 4"
abbreviation FDF_PIPE_WR :: u32 where "FDF_PIPE_WR \<equiv> 8"

record task =
  pid :: int
  parent_pid :: int
  pgid :: int
  sid :: int
  uid :: u32
  state :: task_state
  zombie :: bool
  exit_status :: int
  name :: string
  rsp :: u64
  uctx_rip :: u64
  uctx_rsp :: u64
  uctx_rflags :: u64
  kstack :: u64
  pml4_phys :: u64
  user_entry :: u64
  task_user_rsp :: u64
  brk_base :: u64
  brk_cur :: u64
  mmap_top :: u64
  fds :: "file_t list"
  sig_pending :: u32
  sig_handler :: "u64 list"
  wait_pipe :: u64

record cpu_data =
  kstack_top :: u64
  user_rsp :: u64
  user_rip :: u64
  user_rflags :: u64

record sched =
  tasks :: "task list"
  current :: "nat option"
  scheduling_started :: bool
  next_pid :: int
  init_pid :: int
  bsp_cpu :: cpu_data
  tss_rsp0 :: u64
  cr3 :: u64
  kernel_pml4 :: u64
  ticks :: u64
  g_uptime_ticks :: u64
  g_resched_requested :: bool
  console_fds :: "file_t option list"
  frames :: pmm
  kmem :: mem
  refs :: u64
  refs_pages :: u64

text \<open>What \<open>memset(t, 0, sizeof( *t))\<close> leaves; the zeroed state is \<open>TASK_FREE\<close>.\<close>

definition zero_file :: file_t where
  "zero_file = \<lparr>f_node = 0, f_pipe = 0, f_flags = 0, f_pos = 0\<rparr>"

definition zero_task :: task where
  "zero_task = \<lparr>pid = 0, parent_pid = 0, pgid = 0, sid = 0, uid = 0, state = TASK_FREE, zombie = False,
     exit_status = 0, name = '''', rsp = 0, uctx_rip = 0, uctx_rsp = 0, uctx_rflags = 0, kstack = 0,
     pml4_phys = 0, user_entry = 0, task_user_rsp = 0, brk_base = 0, brk_cur = 0, mmap_top = 0,
     fds = replicate MAX_FDS zero_file, sig_pending = 0, sig_handler = replicate NSIG 0, wait_pipe = 0\<rparr>"

definition put_task :: "nat \<Rightarrow> task \<Rightarrow> 'a sched_scheme \<Rightarrow> 'a sched_scheme" where
  "put_task i t k = k\<lparr>tasks := (tasks k)[i := t]\<rparr>"

definition task_at :: "'a sched_scheme \<Rightarrow> nat \<Rightarrow> task" where
  "task_at k i = (if i < length (tasks k) then tasks k ! i else zero_task)"

subsection \<open>Operations\<close>

definition sched_get_current :: "'a sched_scheme \<Rightarrow> nat option" where
  "sched_get_current k = current k"

definition sched_wake :: "nat \<Rightarrow> 'a sched_scheme \<Rightarrow> 'a sched_scheme" where
  "sched_wake i k =
     (let t = task_at k i
      in if state t = TASK_BLOCKED \<and> \<not> zombie t then put_task i (t\<lparr>state := TASK_READY\<rparr>) k else k)"

definition alloc_slot :: "'a sched_scheme \<Rightarrow> nat option" where
  "alloc_slot k = find (\<lambda>i. state (task_at k i) = TASK_FREE) [0 ..< MAX_TASKS]"

definition task_prepare_stack :: "nat \<Rightarrow> u64 \<Rightarrow> 'a sched_scheme \<Rightarrow> bool \<times> 'a sched_scheme" where
  "task_prepare_stack i entry k =
     (let (st, p) = pmm_alloc KSTACK_PAGES (frames k);
          k = put_task i ((task_at k i)\<lparr>kstack := st\<rparr>) (k\<lparr>frames := p\<rparr>)
      in if st = 0 then (False, k)
         else let top = st + KSTACK_PAGES * 4096;
                  m = store (top - 8) entry (kmem k);
                  m = fold (\<lambda>j. store (top - 8 * j) (0 :: u64)) [2, 3, 4, 5, 6, 7] m
              in (True, put_task i ((task_at k i)\<lparr>rsp := top - 56\<rparr>) (k\<lparr>kmem := m\<rparr>)))"

text \<open>A name is copied with room for the terminator.\<close>

definition task_name :: "string \<Rightarrow> string" where
  "task_name s = take (TASK_NAME_LEN - 1) s"

definition sched_init :: "u64 \<Rightarrow> 'a sched_scheme \<Rightarrow> 'a sched_scheme" where
  "sched_init idle_task k =
     (let k = k\<lparr>tasks := replicate MAX_TASKS zero_task, next_pid := 1\<rparr>
      in case alloc_slot k of
           None \<Rightarrow> k
         | Some i \<Rightarrow>
             let (ok, k) = task_prepare_stack i idle_task k
             in if \<not> ok then k
                else put_task i ((task_at k i)\<lparr>pid := 0, parent_pid := 0, state := TASK_READY,
                                  name := task_name ''idle''\<rparr>) k)"

definition sched_create_kernel_task :: "u64 \<Rightarrow> string \<Rightarrow> 'a sched_scheme \<Rightarrow> int \<times> 'a sched_scheme" where
  "sched_create_kernel_task entry nm k =
     (case alloc_slot k of
        None \<Rightarrow> (-1, k)
      | Some i \<Rightarrow>
          let k = put_task i (zero_task\<lparr>pid := next_pid k, parent_pid := 0, state := TASK_READY,
                                name := task_name nm\<rparr>) (k\<lparr>next_pid := next_pid k + 1\<rparr>);
              (ok, k) = task_prepare_stack i entry k
          in if \<not> ok then (-1, put_task i ((task_at k i)\<lparr>state := TASK_FREE\<rparr>) k)
             else (pid (task_at k i), k))"

definition copy_console_fds :: "file_t option list \<Rightarrow> file_t list \<Rightarrow> file_t list" where
  "copy_console_fds cs fs =
     fold (\<lambda>i fs. case cs ! i of None \<Rightarrow> fs | Some f \<Rightarrow> fs[i := f]) [0 ..< 3] fs"

definition sched_spawn_user_task ::
  "u64 \<Rightarrow> string \<Rightarrow> u64 \<Rightarrow> u64 \<Rightarrow> u64 \<Rightarrow> int \<Rightarrow> 'a sched_scheme \<Rightarrow> int \<times> 'a sched_scheme" where
  "sched_spawn_user_task enter_first_userspace nm pml4 entry usp parent k =
     (case alloc_slot k of
        None \<Rightarrow> (-1, k)
      | Some i \<Rightarrow>
          let k = put_task i (zero_task\<lparr>pid := next_pid k, parent_pid := parent, pgid := parent,
                                sid := parent, uid := 1000, state := TASK_READY, pml4_phys := pml4,
                                user_entry := entry, task_user_rsp := usp, uctx_rflags := 0x202,
                                name := task_name nm\<rparr>) (k\<lparr>next_pid := next_pid k + 1\<rparr>);
              (ok, k) = task_prepare_stack i enter_first_userspace k
          in if \<not> ok then (-1, put_task i ((task_at k i)\<lparr>state := TASK_FREE\<rparr>) k)
             else let t = task_at k i;
                      k = put_task i (t\<lparr>fds := copy_console_fds (console_fds k) (fds t),
                                        mmap_top := 0x50000000\<rparr>) k;
                      k = (if init_pid k < 0 then k\<lparr>init_pid := pid t\<rparr> else k)
                  in (pid t, k))"

definition sched_find_pid :: "'a sched_scheme \<Rightarrow> int \<Rightarrow> nat option" where
  "sched_find_pid k p = find (\<lambda>i. state (task_at k i) \<noteq> TASK_FREE \<and> pid (task_at k i) = p) [0 ..< MAX_TASKS]"

definition sched_task_at :: "int \<Rightarrow> nat option" where
  "sched_task_at index = (if index < 0 \<or> index \<ge> int MAX_TASKS then None else Some (nat index))"

definition switch_to :: "u64 \<Rightarrow> nat \<Rightarrow> 'a sched_scheme \<Rightarrow> 'a sched_scheme" where
  "switch_to sp nxt k =
     (let ktop = kstack (task_at k nxt) + KSTACK_PAGES * 4096;
          pml4 = pml4_phys (task_at k nxt);
          k = k\<lparr>tss_rsp0 := ktop, bsp_cpu := (bsp_cpu k)\<lparr>kstack_top := ktop\<rparr>,
                cr3 := (if pml4 \<noteq> 0 then pml4 else kernel_pml4 k)\<rparr>;
          prev = current k;
          k = (case prev of
                 None \<Rightarrow> k
               | Some i \<Rightarrow> put_task i ((task_at k i)\<lparr>uctx_rip := user_rip (bsp_cpu k),
                             uctx_rsp := user_rsp (bsp_cpu k), uctx_rflags := user_rflags (bsp_cpu k)\<rparr>) k);
          n = task_at k nxt;
          k = k\<lparr>bsp_cpu := (bsp_cpu k)\<lparr>user_rip := uctx_rip n, user_rsp := uctx_rsp n,
                             user_rflags := uctx_rflags n\<rparr>, current := Some nxt\<rparr>
      in case prev of None \<Rightarrow> k | Some i \<Rightarrow> put_task i ((task_at k i)\<lparr>rsp := sp\<rparr>) k)"

definition runnable :: "task \<Rightarrow> bool" where
  "runnable t \<longleftrightarrow> state t = TASK_READY \<or> state t = TASK_RUNNING"

definition pick_next :: "'a sched_scheme \<Rightarrow> nat \<Rightarrow> nat" where
  "pick_next k prev =
     (case find (\<lambda>i. runnable (task_at k ((prev + i) mod MAX_TASKS))) [1 ..< MAX_TASKS + 1] of
        None \<Rightarrow> prev
      | Some i \<Rightarrow> (prev + i) mod MAX_TASKS)"

definition sched_yield :: "u64 \<Rightarrow> 'a sched_scheme \<Rightarrow> 'a sched_scheme" where
  "sched_yield sp k =
     (if \<not> scheduling_started k then k
      else case current k of
             None \<Rightarrow> k
           | Some prev \<Rightarrow>
               let nxt = pick_next k prev
               in if nxt = prev then k
                  else let t = task_at k prev;
                           k = (if state t = TASK_RUNNING
                                then put_task prev (t\<lparr>state := if zombie t then TASK_BLOCKED else TASK_READY\<rparr>) k
                                else k);
                           k = put_task nxt ((task_at k nxt)\<lparr>state := TASK_RUNNING\<rparr>) k
                       in switch_to sp nxt k)"

definition sched_timer_tick :: "'a sched_scheme \<Rightarrow> 'a sched_scheme" where
  "sched_timer_tick k =
     (let k = k\<lparr>ticks := ticks k + 1, g_uptime_ticks := g_uptime_ticks k + 1\<rparr>
      in if scheduling_started k \<and> ticks k mod 5 = 0 then k\<lparr>g_resched_requested := True\<rparr> else k)"

definition sched_start :: "u64 \<Rightarrow> 'a sched_scheme \<Rightarrow> 'a sched_scheme" where
  "sched_start sp k =
     (let k = k\<lparr>scheduling_started := True\<rparr>
      in case find (\<lambda>i. state (task_at k i) = TASK_READY) (rev [1 ..< MAX_TASKS]) of
           None \<Rightarrow> k
         | Some i \<Rightarrow> switch_to sp i (put_task i ((task_at k i)\<lparr>state := TASK_RUNNING\<rparr>) k))"

text \<open>One turn of the idle loop.\<close>

definition idle_step :: "u64 \<Rightarrow> 'a sched_scheme \<Rightarrow> 'a sched_scheme" where
  "idle_step sp k =
     (if g_resched_requested k then sched_yield sp (k\<lparr>g_resched_requested := False\<rparr>) else k)"


subsection \<open>The table\<close>

lemma put_task_sel [simp]:
  "current (put_task i t k) = current k" "scheduling_started (put_task i t k) = scheduling_started k"
  "next_pid (put_task i t k) = next_pid k" "init_pid (put_task i t k) = init_pid k"
  "bsp_cpu (put_task i t k) = bsp_cpu k" "frames (put_task i t k) = frames k" "kmem (put_task i t k) = kmem k"
  "console_fds (put_task i t k) = console_fds k" "kernel_pml4 (put_task i t k) = kernel_pml4 k"
  "g_resched_requested (put_task i t k) = g_resched_requested k" "cr3 (put_task i t k) = cr3 k"
  "length (tasks (put_task i t k)) = length (tasks k)" "sched.more (put_task i t k) = sched.more k"
  "g_uptime_ticks (put_task i t k) = g_uptime_ticks k" "tss_rsp0 (put_task i t k) = tss_rsp0 k"
  "ticks (put_task i t k) = ticks k" "refs (put_task i t k) = refs k" "refs_pages (put_task i t k) = refs_pages k"
  by (simp_all add: put_task_def)

lemma task_at_put [simp]:
  "task_at (put_task i t k) j = (if i = j \<and> i < length (tasks k) then t else task_at k j)"
  by (auto simp: task_at_def put_task_def nth_list_update)

lemma task_at_upd [simp]:
  "task_at (k\<lparr>current := c\<rparr>) = task_at k" "task_at (k\<lparr>bsp_cpu := b\<rparr>) = task_at k"
  "task_at (k\<lparr>frames := p\<rparr>) = task_at k" "task_at (k\<lparr>kmem := m\<rparr>) = task_at k"
  "task_at (k\<lparr>next_pid := n\<rparr>) = task_at k" "task_at (k\<lparr>init_pid := n\<rparr>) = task_at k"
  "task_at (k\<lparr>cr3 := c3\<rparr>) = task_at k" "task_at (k\<lparr>tss_rsp0 := r\<rparr>) = task_at k"
  "task_at (k\<lparr>g_resched_requested := g\<rparr>) = task_at k" "task_at (k\<lparr>scheduling_started := sc\<rparr>) = task_at k"
  "task_at (k\<lparr>ticks := u\<rparr>) = task_at k" "task_at (k\<lparr>g_uptime_ticks := u\<rparr>) = task_at k"
  "task_at (k\<lparr>sched.more := z\<rparr>) = task_at k"
  by (simp_all add: task_at_def fun_eq_iff)

lemma find_upt:
  assumes "find P [a ..< b] = Some i"
  shows "a \<le> i \<and> i < b \<and> P i \<and> (\<forall>j. a \<le> j \<and> j < i \<longrightarrow> \<not> P j)"
proof -
  obtain l where l: "l < length [a ..< b]" "P ([a ..< b] ! l)" "i = [a ..< b] ! l" "\<forall>j < l. \<not> P ([a ..< b] ! j)"
    using assms by (auto simp: find_Some_iff)
  have "\<not> P j" if "a \<le> j" "j < i" for j
    using l that by (auto dest!: spec [of _ "j - a"])
  then show ?thesis using l by auto
qed

lemma find_upt_None: "find P [a ..< b] = None \<longleftrightarrow> (\<forall>i. a \<le> i \<and> i < b \<longrightarrow> \<not> P i)"
  by (auto simp: find_None_iff)

subsection \<open>Switching\<close>

text \<open>At most one task is running, and it is the current one.\<close>

definition sched_inv :: "'a sched_scheme \<Rightarrow> bool" where
  "sched_inv k \<longleftrightarrow> length (tasks k) = MAX_TASKS \<and> (\<forall>c. current k = Some c \<longrightarrow> c < MAX_TASKS) \<and>
     (\<forall>i < MAX_TASKS. state (task_at k i) = TASK_RUNNING \<longrightarrow> current k = Some i)"

lemma sched_invD: "sched_inv k \<Longrightarrow> i < MAX_TASKS \<Longrightarrow> state (task_at k i) = TASK_RUNNING \<Longrightarrow> current k = Some i"
  unfolding sched_inv_def by blast

lemma sched_inv_cur: "sched_inv k \<Longrightarrow> current k = Some c \<Longrightarrow> c < MAX_TASKS"
  and sched_inv_len: "sched_inv k \<Longrightarrow> length (tasks k) = MAX_TASKS"
  unfolding sched_inv_def by blast+

text \<open>The user context of a task: in the per-CPU slots while it is current, parked in its structure otherwise.\<close>

definition user_ctx :: "'a sched_scheme \<Rightarrow> nat \<Rightarrow> u64 \<times> u64 \<times> u64" where
  "user_ctx k i = (if current k = Some i
     then (user_rip (bsp_cpu k), user_rsp (bsp_cpu k), user_rflags (bsp_cpu k))
     else (uctx_rip (task_at k i), uctx_rsp (task_at k i), uctx_rflags (task_at k i)))"

lemma switch_to_facts:
  assumes "length (tasks k) = MAX_TASKS" "current k = Some c" "c < MAX_TASKS" "n < MAX_TASKS" "n \<noteq> c"
  shows "current (switch_to sp n k) = Some n" "user_ctx (switch_to sp n k) i = user_ctx k i"
    "state (task_at (switch_to sp n k) i) = state (task_at k i)"
    "length (tasks (switch_to sp n k)) = MAX_TASKS"
    "scheduling_started (switch_to sp n k) = scheduling_started k"
    "cr3 (switch_to sp n k) = (if pml4_phys (task_at k n) \<noteq> 0 then pml4_phys (task_at k n) else kernel_pml4 k)"
    "kstack_top (bsp_cpu (switch_to sp n k)) = kstack (task_at k n) + KSTACK_PAGES * 4096"
  using assms by (auto simp: switch_to_def Let_def user_ctx_def)

lemma pick_next_cases:
  assumes "c < MAX_TASKS"
  obtains (none) "\<And>j. j < MAX_TASKS \<Longrightarrow> \<not> runnable (task_at k j)" "pick_next k c = c"
  | (some) i where "1 \<le> i" "i \<le> MAX_TASKS" "pick_next k c = (c + i) mod MAX_TASKS"
      "runnable (task_at k (pick_next k c))" "\<And>j. 1 \<le> j \<Longrightarrow> j < i \<Longrightarrow> \<not> runnable (task_at k ((c + j) mod MAX_TASKS))"
proof (cases "find (\<lambda>i. runnable (task_at k ((c + i) mod MAX_TASKS))) [1 ..< MAX_TASKS + 1]")
  case None
  have "\<not> runnable (task_at k j)" if "j < MAX_TASKS" for j
  proof -
    define i where "i = (if c < j then j - c else j + MAX_TASKS - c)"
    have "1 \<le> i" "i < MAX_TASKS + 1" "(c + i) mod MAX_TASKS = j" using assms that by (auto simp: i_def)
    then show ?thesis using None by (auto simp: find_upt_None)
  qed
  then show ?thesis using none None by (simp add: pick_next_def)
next
  case (Some i)
  then show ?thesis using some [of i] find_upt [OF Some] by (auto simp: pick_next_def simp del: upt_Suc)
qed

lemma pick_next_less: "c < MAX_TASKS \<Longrightarrow> pick_next k c < MAX_TASKS"
  by (simp add: pick_next_def split: option.split)

lemma sched_yield_cases:
  assumes "sched_inv k" "scheduling_started k" "current k = Some c"
  obtains (stay) "pick_next k c = c" "sched_yield sp k = k"
  | (switch) n k1 where "n = pick_next k c" "n \<noteq> c" "n < MAX_TASKS" "c < MAX_TASKS" "runnable (task_at k n)"
      "sched_yield sp k = switch_to sp n k1" "length (tasks k1) = MAX_TASKS" "current k1 = Some c"
      "\<And>i. user_ctx k1 i = user_ctx k i" "scheduling_started k1"
      "\<And>i. i \<noteq> n \<Longrightarrow> i \<noteq> c \<Longrightarrow> task_at k1 i = task_at k i" "state (task_at k1 n) = TASK_RUNNING"
      "state (task_at k1 c) \<noteq> TASK_RUNNING" 
      "\<And>i. task_at k1 i = (task_at k i)\<lparr>state := state (task_at k1 i)\<rparr>"
      "state (task_at k1 c) = (if state (task_at k c) = TASK_RUNNING \<and> \<not> zombie (task_at k c) then TASK_READY
         else if state (task_at k c) = TASK_RUNNING then TASK_BLOCKED else state (task_at k c))"
proof (cases "pick_next k c = c")
  case True
  then show ?thesis using stay assms by (simp add: sched_yield_def)
next
  case False
  have c: "c < MAX_TASKS" "length (tasks k) = MAX_TASKS" using assms by (auto simp: sched_inv_def)
  let ?n = "pick_next k c" and ?t = "task_at k c"
  let ?k0 = "if state ?t = TASK_RUNNING then put_task c (?t\<lparr>state := if zombie ?t then TASK_BLOCKED else TASK_READY\<rparr>) k else k"
  let ?k1 = "put_task ?n ((task_at ?k0 ?n)\<lparr>state := TASK_RUNNING\<rparr>) ?k0"
  have n: "?n < MAX_TASKS" using c(1) by (rule pick_next_less)
  have run: "runnable (task_at k ?n)" using c(1) by (cases rule: pick_next_cases [where k = k]) (use False in auto)
  show ?thesis
  proof (rule switch [of ?n ?k1])
    show "sched_yield sp k = switch_to sp ?n ?k1" using assms False by (simp add: sched_yield_def Let_def)
    show "user_ctx ?k1 i = user_ctx k i" for i using c n by (auto simp: user_ctx_def)
  qed (use False c n run assms in \<open>auto simp: \<close>)
qed


lemma sched_yield_idle: "\<not> (scheduling_started k \<and> current k \<noteq> None) \<Longrightarrow> sched_yield sp k = k"
  by (auto simp: sched_yield_def)

lemma sched_yield_inv:
  assumes "sched_inv k" shows "sched_inv (sched_yield sp k)" "user_ctx (sched_yield sp k) i = user_ctx k i"
    "scheduling_started (sched_yield sp k) = scheduling_started k"
proof -
  have "sched_inv (sched_yield sp k) \<and> user_ctx (sched_yield sp k) i = user_ctx k i \<and>
      scheduling_started (sched_yield sp k) = scheduling_started k"
  proof (cases "scheduling_started k \<and> current k \<noteq> None")
    case True
    then obtain c where c: "scheduling_started k" "current k = Some c" by auto
    from assms c show ?thesis
    proof (cases rule: sched_yield_cases [where sp = sp])
      case stay
      then show ?thesis using assms by simp
    next
      case (switch n k1)
      note sw = switch_to_facts [OF switch(7,8,4,3,2), of sp]
      have "i = n" if "state (task_at k1 i) = TASK_RUNNING" "i < MAX_TASKS" for i
      proof (rule ccontr)
        assume n: "i \<noteq> n"
        have "i \<noteq> c" using that(1) switch(13) by auto
        then have "state (task_at k i) = TASK_RUNNING" using switch(11) [OF n] that(1) by simp
        then show False using assms c(2) that(2) \<open>i \<noteq> c\<close> by (simp add: sched_inv_def)
      qed
      then have "sched_inv (switch_to sp n k1)" using sw(1,3,4) switch(3) by (auto simp: sched_inv_def)
      then show ?thesis using sw(2,5) switch(6,9,10) c(1) by simp
    qed
  next
    case False
    then show ?thesis using assms by (simp add: sched_yield_idle)
  qed
  then show "sched_inv (sched_yield sp k)" "user_ctx (sched_yield sp k) i = user_ctx k i"
    "scheduling_started (sched_yield sp k) = scheduling_started k" by auto
qed

text \<open>How far a slot is ahead of the current one in the round.\<close>

definition ahead :: "nat \<Rightarrow> nat \<Rightarrow> nat" where
  "ahead c j = (if c < j then j - c else j + MAX_TASKS - c)"

lemma ahead_step:
  assumes "c < MAX_TASKS" "j < MAX_TASKS" "j \<noteq> c" "1 \<le> i" "i \<le> ahead c j" "n = (c + i) mod MAX_TASKS"
  shows "n = j \<or> ahead n j < ahead c j"
proof (cases "c < j")
  case True
  then have "i \<le> j - c" using assms(5) by (simp add: ahead_def)
  then have "n = c + i" "c + i \<le> j" using assms(2,6) True by simp_all
  then show ?thesis using True assms(4) by (cases "n = j") (simp_all add: ahead_def)
next
  case False
  then have jc: "j < c" using assms(3) by simp
  then have i: "i \<le> j + MAX_TASKS - c" using assms(5) False by (simp add: ahead_def)
  show ?thesis
  proof (cases "c + i < MAX_TASKS")
    case True
    then have "n = c + i" using assms(6) by simp
    then show ?thesis using jc assms(1,4) by (simp add: ahead_def)
  next
    case wrap: False
    then have "c + i = MAX_TASKS + (c + i - MAX_TASKS)" "c + i - MAX_TASKS < MAX_TASKS"
      using i assms(1,2) jc by simp_all
    then have "n = c + i - MAX_TASKS" using assms(6) by (metis mod_add_self1 mod_less)
    then have "n \<le> j" using i jc assms(1) by linarith
    show ?thesis
    proof (cases "n = j")
      case False
      then have "ahead n j = j - n" using \<open>n \<le> j\<close> by (simp add: ahead_def)
      moreover have "ahead c j = j + MAX_TASKS - c" using jc by (simp add: ahead_def)
      ultimately show ?thesis using assms(1) jc by linarith
    qed simp
  qed
qed

lemma yield_progress:
  assumes "sched_inv k" "scheduling_started k" "current k = Some c" "j < MAX_TASKS" "j \<noteq> c"
    "state (task_at k j) = TASK_READY"
  shows "\<exists>n. current (sched_yield sp k) = Some n \<and> (n = j \<or>
    (ahead n j < ahead c j \<and> state (task_at (sched_yield sp k) j) = TASK_READY))"
proof -
  have c: "c < MAX_TASKS" using assms by (auto simp: sched_inv_def)
  obtain i where i: "1 \<le> i" "pick_next k c = (c + i) mod MAX_TASKS" "i \<le> ahead c j"
    using c
  proof (cases rule: pick_next_cases [where k = k])
    case none
    then show ?thesis using none(1) [OF assms(4)] assms(6) by (simp add: runnable_def)
  next
    case (some i)
    have "(c + ahead c j) mod MAX_TASKS = j" "1 \<le> ahead c j"
      using c assms(4,5) by (auto simp: ahead_def)
    then have "\<not> ahead c j < i" using some(5) [of "ahead c j"] assms(6) by (auto simp: runnable_def)
    then show ?thesis using that some by auto
  qed
  have step: "pick_next k c = j \<or> ahead (pick_next k c) j < ahead c j"
    using ahead_step [OF c assms(4,5) i(1,3,2)] .
  have ne: "pick_next k c \<noteq> c"
  proof
    assume "pick_next k c = c"
    then show False using step assms(5) by simp
  qed
  from assms(1-3) show ?thesis
  proof (cases rule: sched_yield_cases [where sp = sp])
    case stay
    then show ?thesis using ne by simp
  next
    case (switch n k1)
    note sw = switch_to_facts [OF switch(7,8,4,3,2), of sp]
    have "n \<noteq> j \<Longrightarrow> state (task_at k1 j) = TASK_READY" using switch(11) [of j] assms(5,6) by simp
    then show ?thesis using sw step switch(1,6) by auto
  qed
qed

lemma yield_reaches:
  assumes "sched_inv k" "scheduling_started k" "current k = Some c" "j < MAX_TASKS"
    "c = j \<or> state (task_at k j) = TASK_READY"
  shows "\<exists>n \<le> (if c = j then 0 else ahead c j). current ((sched_yield sp ^^ n) k) = Some j"
  using assms
proof (induction "if c = j then 0 else ahead c j" arbitrary: k c rule: less_induct)
  case less
  show ?case
  proof (cases "c = j")
    case True
    then show ?thesis using less.prems by (intro exI [of _ 0]) simp
  next
    case False
    then obtain n where n: "current (sched_yield sp k) = Some n" "n = j \<or>
        (ahead n j < ahead c j \<and> state (task_at (sched_yield sp k) j) = TASK_READY)"
      using yield_progress [OF less.prems(1-4), of sp] less.prems(5) by auto
    have c: "c < MAX_TASKS" using less.prems by (auto simp: sched_inv_def)
    have pos: "0 < ahead c j" using c False less.prems(4) by (auto simp: ahead_def)
    have dec: "(if n = j then 0 else ahead n j) < (if c = j then 0 else ahead c j)"
      using n(2) False pos by auto
    obtain m where m: "m \<le> (if n = j then 0 else ahead n j)" "current ((sched_yield sp ^^ m) (sched_yield sp k)) = Some j"
      using less.hyps [OF dec sched_yield_inv(1) [OF less.prems(1)] _ n(1) less.prems(4)] n(2)
        sched_yield_inv(3) [OF less.prems(1)] less.prems(2) by blast
    then show ?thesis using dec by (intro exI [of _ "Suc m"]) (auto simp: funpow_swap1)
  qed
qed


subsection \<open>Creation\<close>

definition used :: "'a sched_scheme \<Rightarrow> nat \<Rightarrow> bool" where
  "used k i \<longleftrightarrow> i < MAX_TASKS \<and> state (task_at k i) \<noteq> TASK_FREE"

definition pids_ok :: "'a sched_scheme \<Rightarrow> bool" where
  "pids_ok k \<longleftrightarrow> 0 < next_pid k \<and> (\<forall>i. used k i \<longrightarrow> pid (task_at k i) < next_pid k) \<and>
     (\<forall>i j. used k i \<and> used k j \<and> pid (task_at k i) = pid (task_at k j) \<longrightarrow> i = j)"

definition stack_frames :: "'a sched_scheme \<Rightarrow> nat \<Rightarrow> nat set" where
  "stack_frames k i = (let s = frame_of (frames k) (kstack (task_at k i)) in {s ..< s + 32})"

definition stacks_ok :: "'a sched_scheme \<Rightarrow> bool" where
  "stacks_ok k \<longleftrightarrow> pmm_inv (frames k) \<and>
     (\<forall>i. used k i \<longrightarrow> kstack (task_at k i) \<noteq> 0 \<and> (\<forall>f \<in> stack_frames k i. bitmap_test (frames k) f)) \<and>
     (\<forall>i j. used k i \<and> used k j \<and> i \<noteq> j \<longrightarrow> stack_frames k i \<inter> stack_frames k j = {})"

lemma alloc_slot_Some:
  assumes "alloc_slot k = Some i"
  shows "i < MAX_TASKS" "state (task_at k i) = TASK_FREE" "\<not> used k i" "\<And>j. j < i \<Longrightarrow> state (task_at k j) \<noteq> TASK_FREE"
  using find_upt [OF assms [unfolded alloc_slot_def]] by (auto simp: used_def)

lemma task_prepare_stack_facts:
  assumes "pmm_inv (frames k)" "length (tasks k) = MAX_TASKS" "i < MAX_TASKS" "task_prepare_stack i e k = (ok, k')"
  shows "length (tasks k') = MAX_TASKS \<and> current k' = current k \<and> next_pid k' = next_pid k \<and>
     init_pid k' = init_pid k \<and> console_fds k' = console_fds k \<and> scheduling_started k' = scheduling_started k \<and>
     frame_of (frames k') = frame_of (frames k) \<and> pmm_inv (frames k') \<and>
     (\<forall>j. j \<noteq> i \<longrightarrow> task_at k' j = task_at k j) \<and>
     (if ok then \<exists>v. v \<noteq> 0 \<and> task_at k' i = (task_at k i)\<lparr>kstack := v, rsp := v + 131072 - 56\<rparr> \<and>
          (\<forall>f. bitmap_test (frames k') f \<longleftrightarrow> bitmap_test (frames k) f \<or>
               (frame_of (frames k) v \<le> f \<and> f < frame_of (frames k) v + 32)) \<and>
          (\<forall>f. frame_of (frames k) v \<le> f \<and> f < frame_of (frames k) v + 32 \<longrightarrow> \<not> bitmap_test (frames k) f)
      else frames k' = frames k \<and> task_at k' i = (task_at k i)\<lparr>kstack := 0\<rparr>)"
proof -
  obtain v p where v: "pmm_alloc KSTACK_PAGES (frames k) = (v, p)" by (cases "pmm_alloc KSTACK_PAGES (frames k)")
  have p: "pmm_inv p" "frame_of p = frame_of (frames k)"
    using frames.alloc_inv [OF assms(1), of 32] frames.alloc_frame [of 32 "frames k"] v by auto
  show ?thesis
  proof (cases "v = 0")
    case True
    then have "p = frames k" using frames.alloc_null [OF assms(1), of 32] v by simp
    then show ?thesis using True v assms by (auto simp: task_prepare_stack_def)
  next
    case False
    have "\<And>f. frame_of (frames k) v \<le> f \<and> f < frame_of (frames k) v + 32 \<Longrightarrow> \<not> bitmap_test (frames k) f"
      using frames.alloc_fresh [OF assms(1), of 32] v False by auto
    moreover have "\<And>f. bitmap_test p f \<longleftrightarrow> bitmap_test (frames k) f \<or>
        (frame_of (frames k) v \<le> f \<and> f < frame_of (frames k) v + 32)"
      using frames.alloc_marks [OF assms(1), of 32] v False by auto
    ultimately show ?thesis using False v p assms by (auto simp: task_prepare_stack_def Let_def)
  qed
qed

text \<open>The frame that the first switch to the task pops: six zero registers and the entry point.\<close>

lemma prepared_frame:
  assumes "m' = fold (\<lambda>j. store (tp - 8 * j) (0 :: u64)) [2, 3, 4, 5, 6, 7] (store (tp - 8) entry m)"
  shows "load m' (tp - 8) = (entry :: u64)" "load m' (tp - 8 * 2) = (0 :: u64)" "load m' (tp - 8 * 7) = (0 :: u64)"
    "load m' (tp - 8 * 3) = (0 :: u64)" "load m' (tp - 8 * 4) = (0 :: u64)" "load m' (tp - 8 * 5) = (0 :: u64)"
    "load m' (tp - 8 * 6) = (0 :: u64)"
  unfolding assms by (simp_all add: load_store_apart apart_def)


definition tasks_inv :: "'a sched_scheme \<Rightarrow> bool" where
  "tasks_inv k \<longleftrightarrow> sched_inv k \<and> pids_ok k \<and> stacks_ok k"

lemma new_task_inv:
  assumes inv: "tasks_inv k" and slot: "\<not> used k i" "i < MAX_TASKS"
    and k': "length (tasks k') = MAX_TASKS" "current k' = current k" "next_pid k' = next_pid k + 1"
      "\<And>j. j \<noteq> i \<Longrightarrow> task_at k' j = task_at k j"
      "state (task_at k' i) = TASK_READY" "pid (task_at k' i) = next_pid k" "kstack (task_at k' i) = v" "v \<noteq> 0"
    and fr: "pmm_inv (frames k')" "frame_of (frames k') = frame_of (frames k)"
      "\<And>f. bitmap_test (frames k') f \<longleftrightarrow> bitmap_test (frames k) f \<or> (frame_of (frames k) v \<le> f \<and> f < frame_of (frames k) v + 32)"
      "\<And>f. frame_of (frames k) v \<le> f \<and> f < frame_of (frames k) v + 32 \<Longrightarrow> \<not> bitmap_test (frames k) f"
  shows "tasks_inv k'"
proof -
  have used: "used k' j = used k j" if "j \<noteq> i" for j using k'(4) [OF that] by (simp add: used_def)
  have ui: "used k' i" using slot(2) k'(5) by (simp add: used_def)
  have sf: "stack_frames k' j = stack_frames k j" if "j \<noteq> i" for j
    using k'(4) [OF that] by (simp add: stack_frames_def fr(2))
  have si: "stack_frames k' i = {frame_of (frames k) v ..< frame_of (frames k) v + 32}"
    by (simp add: stack_frames_def fr(2) k'(7) Let_def)
  have "sched_inv k'"
    unfolding sched_inv_def
  proof (intro conjI allI impI)
    fix j assume j: "j < MAX_TASKS" "state (task_at k' j) = TASK_RUNNING"
    then have "j \<noteq> i" using k'(5) by auto
    then have "state (task_at k j) = TASK_RUNNING" using k'(4) [of j] j(2) by simp
    then show "current k' = Some j" using sched_invD [OF _ j(1), of k] inv k'(2) by (auto simp: tasks_inv_def)
  qed (use k'(1,2) inv sched_inv_cur [of k] in \<open>auto simp: tasks_inv_def\<close>)
  moreover have "pids_ok k'"
    unfolding pids_ok_def
  proof (intro conjI allI impI)
    have p: "0 < next_pid k" "\<And>j. used k j \<Longrightarrow> pid (task_at k j) < next_pid k"
      "\<And>j l. used k j \<Longrightarrow> used k l \<Longrightarrow> pid (task_at k j) = pid (task_at k l) \<Longrightarrow> j = l"
      using inv by (auto simp: tasks_inv_def pids_ok_def)
    show "0 < next_pid k'" using p(1) k'(3) by simp
    show "pid (task_at k' j) < next_pid k'" if "used k' j" for j
      using that p(2) [of j] used [of j] k'(3,6) k'(4) [of j] by (cases "j = i") auto
    show "j = l" if "used k' j \<and> used k' l \<and> pid (task_at k' j) = pid (task_at k' l)" for j l
    proof -
      have "pid (task_at k l) \<noteq> next_pid k" if "used k' l" "l \<noteq> i" for l
        using p(2) [of l] used [of l] that by auto
      then show ?thesis
        using that p(3) [of j l] used [of j] used [of l] k'(4) [of j] k'(4) [of l] k'(6)
        by (cases "j = i"; cases "l = i") force+
    qed
  qed
  moreover have "stacks_ok k'"
    unfolding stacks_ok_def
  proof (intro conjI allI impI ballI)
    have p: "\<And>j. used k j \<Longrightarrow> kstack (task_at k j) \<noteq> 0" "\<And>j f. used k j \<Longrightarrow> f \<in> stack_frames k j \<Longrightarrow> bitmap_test (frames k) f"
      "\<And>j l. used k j \<Longrightarrow> used k l \<Longrightarrow> j \<noteq> l \<Longrightarrow> stack_frames k j \<inter> stack_frames k l = {}"
      using inv by (auto simp: tasks_inv_def stacks_ok_def)
    show "pmm_inv (frames k')" by (rule fr(1))
    show "kstack (task_at k' j) \<noteq> 0" if "used k' j" for j
      using that p(1) [of j] used [of j] k'(4,7,8) by (cases "j = i") auto
    show "bitmap_test (frames k') f" if "used k' j" "f \<in> stack_frames k' j" for j f
      using that p(2) [of j f] used [of j] sf [of j] si fr(3) by (cases "j = i") auto
    have disj: "stack_frames k' i \<inter> stack_frames k' j = {}" if "used k' j" "j \<noteq> i" for j
    proof -
      have "f \<notin> stack_frames k' i" if f: "f \<in> stack_frames k' j" for f
      proof -
        have "bitmap_test (frames k) f" using p(2) [of j f] f sf [OF \<open>j \<noteq> i\<close>] used [OF \<open>j \<noteq> i\<close>] \<open>used k' j\<close> by simp
        then show ?thesis using fr(4) [of f] unfolding si by auto
      qed
      then show ?thesis by blast
    qed
    show "stack_frames k' j \<inter> stack_frames k' l = {}" if "used k' j \<and> used k' l \<and> j \<noteq> l" for j l
    proof (cases "j = i \<or> l = i")
      case True
      then show ?thesis using that disj by blast
    next
      case False
      then show ?thesis using that p(3) [of j l] used [of j] used [of l] sf by simp
    qed
  qed
  ultimately show ?thesis by (simp add: tasks_inv_def)
qed

lemma no_task_inv:
  assumes inv: "tasks_inv k"
    and k': "length (tasks k') = MAX_TASKS" "current k' = current k" "next_pid k \<le> next_pid k'" "frames k' = frames k"
      "\<And>j. used k' j \<Longrightarrow> task_at k' j = task_at k j"
  shows "tasks_inv k'"
proof -
  have u: "used k j \<and> task_at k' j = task_at k j" if "used k' j" for j
    using k'(5) [OF that] that by (simp add: used_def)
  have sf: "stack_frames k' j = stack_frames k j" if "used k' j" for j
    using u [OF that] by (simp add: stack_frames_def k'(4))
  have "sched_inv k'"
    unfolding sched_inv_def
  proof (intro conjI allI impI)
    fix j assume j: "j < MAX_TASKS" "state (task_at k' j) = TASK_RUNNING"
    then have "used k' j" by (simp add: used_def)
    then have "state (task_at k j) = TASK_RUNNING" using u [of j] j(2) by simp
    then show "current k' = Some j" using sched_invD [OF _ j(1), of k] inv k'(2) by (auto simp: tasks_inv_def)
  qed (use k'(1,2) inv sched_inv_cur [of k] in \<open>auto simp: tasks_inv_def\<close>)
  moreover have "pids_ok k'"
  proof -
    have p: "0 < next_pid k" "\<And>j. used k j \<Longrightarrow> pid (task_at k j) < next_pid k"
      "\<And>j l. used k j \<Longrightarrow> used k l \<Longrightarrow> pid (task_at k j) = pid (task_at k l) \<Longrightarrow> j = l"
      using inv by (auto simp: tasks_inv_def pids_ok_def)
    have "pid (task_at k' j) < next_pid k'" if "used k' j" for j using p(2) [of j] u [OF that] k'(3) by simp
    moreover have "j = l" if "used k' j" "used k' l" "pid (task_at k' j) = pid (task_at k' l)" for j l
      using p(3) [of j l] u [OF that(1)] u [OF that(2)] that(3) by simp
    ultimately show ?thesis using p(1) k'(3) unfolding pids_ok_def by auto
  qed
  moreover have "stacks_ok k'"
  proof -
    have p: "pmm_inv (frames k)" "\<And>j. used k j \<Longrightarrow> kstack (task_at k j) \<noteq> 0"
      "\<And>j f. used k j \<Longrightarrow> f \<in> stack_frames k j \<Longrightarrow> bitmap_test (frames k) f"
      "\<And>j l. used k j \<Longrightarrow> used k l \<Longrightarrow> j \<noteq> l \<Longrightarrow> stack_frames k j \<inter> stack_frames k l = {}"
      using inv by (auto simp: tasks_inv_def stacks_ok_def)
    have "kstack (task_at k' j) \<noteq> 0 \<and> (\<forall>f \<in> stack_frames k' j. bitmap_test (frames k') f)" if "used k' j" for j
      using p(2,3) [of j] u [OF that] sf [OF that] k'(4) by simp
    moreover have "stack_frames k' j \<inter> stack_frames k' l = {}" if "used k' j" "used k' l" "j \<noteq> l" for j l
      using p(4) [of j l] u [OF that(1)] u [OF that(2)] sf [OF that(1)] sf [OF that(2)] that(3) by simp
    ultimately show ?thesis using p(1) k'(4) unfolding stacks_ok_def by simp
  qed
  ultimately show ?thesis by (simp add: tasks_inv_def)
qed


lemma spawn_user_task_inv:
  assumes inv: "tasks_inv k" and spawn: "sched_spawn_user_task e nm pml4 entry usp parent k = (r, k')"
  shows "tasks_inv k' \<and>
    (if r = -1 then \<forall>j. used k j \<longrightarrow> task_at k' j = task_at k j
     else r = next_pid k \<and> (\<exists>i. alloc_slot k = Some i \<and> used k' i \<and> pid (task_at k' i) = r \<and>
            parent_pid (task_at k' i) = parent \<and> state (task_at k' i) = TASK_READY \<and> uid (task_at k' i) = 1000 \<and>
            pml4_phys (task_at k' i) = pml4 \<and> user_entry (task_at k' i) = entry \<and> task_user_rsp (task_at k' i) = usp \<and>
            sig_pending (task_at k' i) = 0 \<and> \<not> zombie (task_at k' i) \<and>
            (\<forall>j. j \<noteq> i \<longrightarrow> task_at k' j = task_at k j)))"
proof (cases "alloc_slot k")
  case None
  then show ?thesis using assms by (auto simp: sched_spawn_user_task_def)
next
  case (Some i)
  note slot = alloc_slot_Some [OF Some]
  define t0 where "t0 = zero_task\<lparr>pid := next_pid k, parent_pid := parent, pgid := parent,
      sid := parent, uid := 1000, state := TASK_READY, pml4_phys := pml4,
      user_entry := entry, task_user_rsp := usp, uctx_rflags := 0x202, name := task_name nm\<rparr>"
  define k1 where "k1 = put_task i t0 (k\<lparr>next_pid := next_pid k + 1\<rparr>)"
  obtain ok k2 where prep: "task_prepare_stack i e k1 = (ok, k2)" by (cases "task_prepare_stack i e k1")
  have len: "length (tasks k) = MAX_TASKS" and fr: "pmm_inv (frames k)"
    and np: "0 < next_pid k" using inv sched_inv_len by (auto simp: tasks_inv_def stacks_ok_def pids_ok_def)
  have k1: "length (tasks k1) = MAX_TASKS" "frames k1 = frames k" "task_at k1 i = t0" "current k1 = current k"
    "next_pid k1 = next_pid k + 1" "\<And>j. j \<noteq> i \<Longrightarrow> task_at k1 j = task_at k j"
    using len slot(1) by (auto simp: k1_def)
  have pf: "length (tasks k2) = MAX_TASKS" "current k2 = current k" "next_pid k2 = next_pid k + 1"
    "frame_of (frames k2) = frame_of (frames k)" "pmm_inv (frames k2)" "\<And>j. j \<noteq> i \<Longrightarrow> task_at k2 j = task_at k j"
    using task_prepare_stack_facts [OF _ k1(1) slot(1) prep] fr k1 by auto
  show ?thesis
  proof (cases ok)
    case False
    have "frames k2 = frames k" using task_prepare_stack_facts [OF _ k1(1) slot(1) prep] fr k1(2) False by auto
    moreover have res: "r = -1" "k' = put_task i ((task_at k2 i)\<lparr>state := TASK_FREE\<rparr>) k2"
      using spawn Some prep False by (auto simp: sched_spawn_user_task_def Let_def k1_def t0_def)
    ultimately have "tasks_inv k'"
      using inv pf slot(1) by (intro no_task_inv [OF inv]) (auto simp: used_def split: if_splits)
    moreover have "task_at k' j = task_at k j" if "used k j" for j
      using that slot(3) pf(6) [of j] by (cases "j = i") (auto simp: res(2))
    ultimately show ?thesis using res(1) by simp
  next
    case True
    obtain v where v: "v \<noteq> 0" "task_at k2 i = t0\<lparr>kstack := v, rsp := v + 131072 - 56\<rparr>"
      "\<And>f. bitmap_test (frames k2) f \<longleftrightarrow> bitmap_test (frames k) f \<or> (frame_of (frames k) v \<le> f \<and> f < frame_of (frames k) v + 32)"
      "\<And>f. frame_of (frames k) v \<le> f \<and> f < frame_of (frames k) v + 32 \<Longrightarrow> \<not> bitmap_test (frames k) f"
      using task_prepare_stack_facts [OF _ k1(1) slot(1) prep] fr k1(2,3) True by auto
    define t2 where "t2 = task_at k2 i"
    define t3 where "t3 = t2\<lparr>fds := copy_console_fds (console_fds k2) (fds t2), mmap_top := 0x50000000\<rparr>"
    have res: "r = next_pid k" "k' = (if init_pid k2 < 0 then (put_task i t3 k2)\<lparr>init_pid := next_pid k\<rparr> else put_task i t3 k2)"
      using spawn Some prep True v(2)
      by (auto simp: sched_spawn_user_task_def Let_def k1_def [symmetric] t0_def [symmetric] t3_def t2_def)
         (auto simp: t0_def)
    have t3: "task_at k' i = t3" "\<And>j. j \<noteq> i \<Longrightarrow> task_at k' j = task_at k j" "length (tasks k') = MAX_TASKS"
      "current k' = current k" "next_pid k' = next_pid k + 1" "frames k' = frames k2"
      using pf(1,2,3,6) slot(1) by (auto simp: res(2))
    have f3: "pid t3 = next_pid k" "state t3 = TASK_READY" "kstack t3 = v" "parent_pid t3 = parent" "uid t3 = 1000"
      "pml4_phys t3 = pml4" "user_entry t3 = entry" "task_user_rsp t3 = usp" "sig_pending t3 = 0" "\<not> zombie t3"
      by (simp_all add: t3_def t2_def v(2) t0_def zero_task_def)
    have "tasks_inv k'"
      using new_task_inv [OF inv slot(3,1), of k' v] t3 f3 v pf(4,5) by simp
    then show ?thesis using res(1) np Some slot(1) t3 f3 by (auto simp: used_def)
  qed
qed

lemma find_pid_unique:
  assumes "pids_ok k" "used k i" shows "sched_find_pid k (pid (task_at k i)) = Some i"
proof (cases "sched_find_pid k (pid (task_at k i))")
  case None
  then show ?thesis using assms(2) by (auto simp: sched_find_pid_def find_upt_None used_def)
next
  case (Some j)
  have "used k j" "pid (task_at k j) = pid (task_at k i)"
    using find_upt [OF Some [unfolded sched_find_pid_def]] by (auto simp: used_def)
  then have "j = i" using assms by (auto simp: pids_ok_def)
  then show ?thesis using Some by simp
qed

subsection \<open>Properties of the scheduler\<close>

text \<open>
  (C13) Switching is safe: \<open>sched_yield\<close> keeps at most one task running, namely the current one, and the
  user context of every task, held in the per-CPU slots or parked in its structure, is unchanged by it.
\<close>

theorem sched_yield_safe:
  assumes "sched_inv k"
  shows "sched_inv (sched_yield sp k) \<and> (\<forall>i. user_ctx (sched_yield sp k) i = user_ctx k i)"
  using sched_yield_inv [OF assms] by blast

definition two_sched :: sched where
  "two_sched = \<lparr>tasks = zero_task\<lparr>state := TASK_RUNNING\<rparr> # zero_task\<lparr>state := TASK_READY, pid := 1\<rparr> # replicate 62 zero_task,
     current = Some 0, scheduling_started = True, next_pid = 2, init_pid = 1,
     bsp_cpu = \<lparr>kstack_top = 0, user_rsp = 8, user_rip = 9, user_rflags = 10\<rparr>, tss_rsp0 = 0, cr3 = 0, kernel_pml4 = 0,
     ticks = 0, g_uptime_ticks = 0, g_resched_requested = False, console_fds = [None, None, None],
     frames = free3_pmm, kmem = (\<lambda>_. 0), refs = 0, refs_pages = 0\<rparr>"

lemma two_sched_state: "i < MAX_TASKS \<Longrightarrow> state (task_at two_sched i) =
    (if i = 0 then TASK_RUNNING else if i = 1 then TASK_READY else TASK_FREE)"
  by (auto simp: two_sched_def task_at_def zero_task_def nth_Cons')

lemma two_sched_inv: "sched_inv two_sched"
  unfolding sched_inv_def using two_sched_state by (auto simp: two_sched_def split: if_splits)

theorem sched_yield_safe_witness:
  "sched_inv (sched_yield 0 two_sched) \<and> user_ctx (sched_yield 0 two_sched) 0 = (9, 8, 10)"
proof -
  have "user_ctx two_sched 0 = (9, 8, 10)" by (simp add: user_ctx_def two_sched_def)
  then show ?thesis using sched_yield_safe [OF two_sched_inv, of 0] by simp
qed

text \<open>
  (C14) The round robin is fair: a ready task becomes the current one after at most as many yields as it is
  slots ahead of the current task, so after at most 63.
\<close>

theorem sched_yield_fair:
  assumes "sched_inv k" "scheduling_started k" "current k = Some c" "j < MAX_TASKS" "j \<noteq> c"
    "state (task_at k j) = TASK_READY"
  shows "\<exists>n \<le> 63. current ((sched_yield sp ^^ n) k) = Some j"
proof -
  have c: "c < MAX_TASKS" using assms(1,3) by (rule sched_inv_cur)
  obtain n where "n \<le> ahead c j" "current ((sched_yield sp ^^ n) k) = Some j"
    using yield_reaches [OF assms(1-4), of sp] assms(5,6) by auto
  moreover have "ahead c j \<le> 63" using c assms(4,5) by (auto simp: ahead_def)
  ultimately show ?thesis using le_trans by blast
qed

theorem sched_yield_fair_witness: "\<exists>n \<le> 63. current ((sched_yield 0 ^^ n) two_sched) = Some 1"
  using sched_yield_fair [OF two_sched_inv, of 0 1 0] two_sched_state [of 1] by (simp add: two_sched_def)


definition blank_sched :: sched where
  "blank_sched = two_sched\<lparr>tasks := replicate MAX_TASKS zero_task, current := None,
     frames := free3_pmm\<lparr>bitmap := (\<lambda>_. 0), total_pages := 40, free_pages := 40\<rparr>\<rparr>"

lemma blank_sched_inv: "tasks_inv blank_sched"
proof -
  have z: "task_at blank_sched i = zero_task" for i by (simp add: task_at_def blank_sched_def)
  then have "\<not> used blank_sched i" for i by (simp add: used_def zero_task_def)
  moreover have "pmm_inv (frames blank_sched)"
    by (simp add: blank_sched_def two_sched_def free3_pmm_def pmm_inv_def hhdm_ok_def free_count_def
        count_upto_code PAGE_SIZE_def bitmap_test_bit)
  moreover have "sched_inv blank_sched"
    unfolding sched_inv_def using z by (simp add: zero_task_def) (simp add: blank_sched_def)
  ultimately show ?thesis
    by (simp add: tasks_inv_def pids_ok_def stacks_ok_def blank_sched_def two_sched_def)
qed


end
