(* ===== verification/Fifo.thy ===== *)
theory Fifo
  imports Prelude
begin

text \<open>
  The interface of a bounded byte queue: the pipe buffer and the keyboard ring implement it.
  An operation either keeps the order of what is stored or leaves the queue alone.
\<close>

locale bounded_fifo =
  fixes inv :: "'s \<Rightarrow> bool" and contents :: "'s \<Rightarrow> 'b list" and capacity :: nat
    and push :: "'b \<Rightarrow> 's \<Rightarrow> 's" and pop :: "'s \<Rightarrow> ('b \<times> 's) option"
  assumes within: "inv s \<Longrightarrow> length (contents s) \<le> capacity"
    and push_inv: "inv s \<Longrightarrow> inv (push x s)"
    and push_contents: "inv s \<Longrightarrow>
      contents (push x s) = (if length (contents s) < capacity then contents s @ [x] else contents s)"
    and pop_None: "inv s \<Longrightarrow> pop s = None \<longleftrightarrow> contents s = []"
    and pop_Some: "inv s \<Longrightarrow> pop s = Some (x, s') \<Longrightarrow> inv s' \<and> contents s = x # contents s'"
begin

lemma fold_push:
  "inv s \<Longrightarrow> inv (fold push xs s) \<and> contents (fold push xs s) = take capacity (contents s @ xs)"
proof (induction xs arbitrary: s)
  case Nil
  then show ?case using within by simp
next
  case (Cons x xs)
  have IH: "inv (fold push xs (push x s)) \<and> contents (fold push xs (push x s)) = take capacity (contents (push x s) @ xs)"
    using Cons.prems push_inv by (intro Cons.IH) simp
  show ?case
  proof (cases "length (contents s) < capacity")
    case True
    then show ?thesis using IH push_contents [OF Cons.prems, of x] by simp
  next
    case False
    then have "length (contents s) = capacity" using within [OF Cons.prems] by simp
    then show ?thesis using IH push_contents [OF Cons.prems, of x] by simp
  qed
qed

primrec pops :: "nat \<Rightarrow> 's \<Rightarrow> 'b list \<times> 's" where
  "pops 0 s = ([], s)"
| "pops (Suc n) s = (case pop s of None \<Rightarrow> ([], s) | Some (x, s') \<Rightarrow> let (xs, s'') = pops n s' in (x # xs, s''))"

lemma pops_contents:
  "inv s \<Longrightarrow> pops n s = (xs, s') \<Longrightarrow> inv s' \<and> xs = take n (contents s) \<and> contents s' = drop n (contents s)"
proof (induction n arbitrary: s xs)
  case (Suc n)
  show ?case
  proof (cases "pop s")
    case None
    then have "contents s = []" using pop_None [OF Suc.prems(1)] by blast
    then show ?thesis using Suc.prems None by auto
  next
    case (Some y)
    obtain x s1 where y: "y = (x, s1)" by (cases y)
    obtain zs where zs: "pops n s1 = (zs, s')" "xs = x # zs"
      using Suc.prems(2) Some y by (cases "pops n s1") auto
    have "inv s1" "contents s = x # contents s1" using pop_Some [OF Suc.prems(1)] Some y by auto
    then show ?thesis using Suc.IH [OF _ zs(1)] zs(2) by auto
  qed
qed simp

text \<open>First in, first out: what fits comes back in the order it was put.\<close>

lemma push_pops:
  assumes "inv s" "contents s = []" "length xs \<le> capacity"
  shows "fst (pops (length xs) (fold push xs s)) = xs"
proof -
  obtain ys s' where "pops (length xs) (fold push xs s) = (ys, s')" by (cases "pops (length xs) (fold push xs s)")
  moreover from this have "ys = take (length xs) (contents (fold push xs s))"
    using pops_contents fold_push [OF assms(1)] by blast
  ultimately show ?thesis using fold_push [OF assms(1), of xs] assms(2,3) by simp
qed

end

end
