(* ===== verification/Pipe.thy ===== *)
theory Pipe
  imports Sched Fifo
begin

text \<open>
  Anonymous pipes, \<open>kernel/src/fs/pipe.c\<close>: a ring of 256 bytes with reader and writer counts, shared by
  the descriptors that refer to it.  Pipes are heap objects: the state has a store from pointers to
  pipes, the pointer that \<open>kmalloc\<close> returned is an argument of \<open>pipe_create\<close>, and \<open>kfree\<close>
  removes the object.  A blocking operation is a pass of its loop: it returns, or it parks the
  current task and yields; the parked task runs the next pass when it is scheduled again.
\<close>

subsection \<open>The ring\<close>

abbreviation PIPE_BUF :: nat where "PIPE_BUF \<equiv> 256"

record pipe =
  p_buf :: "u8 list"
  p_head :: nat
  p_tail :: nat
  p_len :: nat
  readers :: int
  writers :: int

definition zero_pipe :: pipe where
  "zero_pipe = \<lparr>p_buf = replicate PIPE_BUF 0, p_head = 0, p_tail = 0, p_len = 0, readers = 0, writers = 0\<rparr>"

primrec drain :: "nat \<Rightarrow> pipe \<Rightarrow> u8 list \<times> pipe" where
  "drain 0 p = ([], p)"
| "drain (Suc n) p =
     (let b = p_buf p ! p_tail p;
          (bs, p') = drain n (p\<lparr>p_tail := (p_tail p + 1) mod PIPE_BUF\<rparr>)
      in (b # bs, p'))"

definition pipe_take :: "nat \<Rightarrow> pipe \<Rightarrow> u8 list \<times> pipe" where
  "pipe_take n p =
     (let got = (if n < p_len p then n else p_len p); (bs, p) = drain got p
      in (bs, p\<lparr>p_len := p_len p - got\<rparr>))"

definition pipe_put :: "u8 \<Rightarrow> pipe \<Rightarrow> pipe" where
  "pipe_put b p = p\<lparr>p_buf := (p_buf p)[p_head p := b], p_head := (p_head p + 1) mod PIPE_BUF, p_len := p_len p + 1\<rparr>"

fun fill :: "u8 list \<Rightarrow> pipe \<Rightarrow> nat \<times> pipe" where
  "fill [] p = (0, p)"
| "fill (b # bs) p =
     (if p_len p < PIPE_BUF then let (c, p') = fill bs (pipe_put b p) in (c + 1, p') else (0, p))"

subsection \<open>Operations\<close>

record ipc = sched +
  pipes :: "u64 \<rightharpoonup> pipe"

datatype io = IO_Ret int "u8 list" | IO_Parked nat

definition pipe_create :: "u64 \<Rightarrow> 'a ipc_scheme \<Rightarrow> u64 \<times> 'a ipc_scheme" where
  "pipe_create ptr k =
     (if ptr = 0 then (0, k)
      else (ptr, k\<lparr>pipes := (pipes k)(ptr \<mapsto> zero_pipe\<lparr>readers := 1, writers := 1\<rparr>)\<rparr>))"

definition pipe_ref :: "u64 \<Rightarrow> int \<Rightarrow> int \<Rightarrow> 'a ipc_scheme \<Rightarrow> 'a ipc_scheme" where
  "pipe_ref ptr rd wr k =
     (if ptr = 0 then k
      else k\<lparr>pipes := (pipes k)(ptr := map_option (\<lambda>p. p\<lparr>readers := readers p + rd, writers := writers p + wr\<rparr>) (pipes k ptr))\<rparr>)"

definition wake_if_waiting :: "u64 \<Rightarrow> nat \<Rightarrow> 'a ipc_scheme \<Rightarrow> 'a ipc_scheme" where
  "wake_if_waiting ptr i k =
     (let t = task_at k i
      in if state t = TASK_BLOCKED \<and> wait_pipe t = ptr
         then sched_wake i (put_task i (t\<lparr>wait_pipe := 0\<rparr>) k) else k)"

definition pipe_wake :: "u64 \<Rightarrow> 'a ipc_scheme \<Rightarrow> 'a ipc_scheme" where
  "pipe_wake ptr k = fold (wake_if_waiting ptr) [0 ..< MAX_TASKS] k"

definition pipe_unref :: "u64 \<Rightarrow> int \<Rightarrow> int \<Rightarrow> 'a ipc_scheme \<Rightarrow> 'a ipc_scheme" where
  "pipe_unref ptr rd wr k =
     (if ptr = 0 then k
      else let k = k\<lparr>pipes := (pipes k)(ptr := map_option (\<lambda>p. p\<lparr>readers := readers p - rd, writers := writers p - wr\<rparr>) (pipes k ptr))\<rparr>;
               k = pipe_wake ptr k
           in case pipes k ptr of
                None \<Rightarrow> k
              | Some p \<Rightarrow> if readers p \<le> 0 \<and> writers p \<le> 0 then k\<lparr>pipes := (pipes k)(ptr := None)\<rparr> else k)"

definition sig_abort :: "task \<Rightarrow> bool" where
  "sig_abort t \<longleftrightarrow> sig_pending t \<noteq> 0"

definition park_on_pipe :: "u64 \<Rightarrow> u64 \<Rightarrow> nat \<Rightarrow> 'a ipc_scheme \<Rightarrow> 'a ipc_scheme" where
  "park_on_pipe sp ptr cur k =
     sched_yield sp (put_task cur ((task_at k cur)\<lparr>wait_pipe := ptr, state := TASK_BLOCKED\<rparr>) k)"

definition pipe_resume :: "nat \<Rightarrow> 'a ipc_scheme \<Rightarrow> 'a ipc_scheme" where
  "pipe_resume cur k = put_task cur ((task_at k cur)\<lparr>wait_pipe := 0\<rparr>) k"

text \<open>
  The object a pipe pointer refers to.  A pointer that no object is stored under is dangling; the
  invariant of the descriptor tables excludes it.
\<close>

definition the_pipe :: "'a ipc_scheme \<Rightarrow> u64 \<Rightarrow> pipe" where
  "the_pipe k ptr = (case pipes k ptr of None \<Rightarrow> zero_pipe | Some p \<Rightarrow> p)"

definition put_pipe :: "u64 \<Rightarrow> pipe \<Rightarrow> 'a ipc_scheme \<Rightarrow> 'a ipc_scheme" where
  "put_pipe ptr p k = k\<lparr>pipes := (pipes k)(ptr \<mapsto> p)\<rparr>"

definition pipe_read :: "u64 \<Rightarrow> u64 \<Rightarrow> nat \<Rightarrow> nat \<Rightarrow> 'a ipc_scheme \<Rightarrow> io \<times> 'a ipc_scheme" where
  "pipe_read sp ptr n cur k =
     (let p = the_pipe k ptr
      in if p_len p > 0
         then let (bs, p') = pipe_take n p
              in (IO_Ret (int (length bs)) bs, pipe_wake ptr (put_pipe ptr p' k))
         else if writers p = 0 then (IO_Ret 0 [], k)
         else if sig_abort (task_at k cur) then (IO_Ret (-1) [], k)
         else (IO_Parked 0, park_on_pipe sp ptr cur k))"

lemma fill_count: "fill bs p = (c, p') \<Longrightarrow> c \<le> length bs \<and> (bs \<noteq> [] \<longrightarrow> p_len p < PIPE_BUF \<longrightarrow> 0 < c)"
proof (induction bs p arbitrary: c p' rule: fill.induct)
  case (2 b bs p)
  show ?case
  proof (cases "p_len p < PIPE_BUF")
    case True
    obtain d q where "fill bs (pipe_put b p) = (d, q)" by (cases "fill bs (pipe_put b p)")
    then show ?thesis using 2 True by auto
  qed (use 2 in auto)
qed auto

text \<open>The loop of \<open>pipe_write\<close> from \<open>done\<close> bytes on, until it returns or parks.\<close>

function pipe_write_from :: "u64 \<Rightarrow> u64 \<Rightarrow> u8 list \<Rightarrow> nat \<Rightarrow> nat \<Rightarrow> 'a ipc_scheme \<Rightarrow> io \<times> 'a ipc_scheme" where
  "pipe_write_from sp ptr data don cur k =
     (if length data \<le> don then (IO_Ret (int don) [], k)
      else if readers (the_pipe k ptr) = 0 then (IO_Ret (-1) [], k)
      else if sig_abort (task_at k cur) then (IO_Ret (-1) [], k)
      else if p_len (the_pipe k ptr) < PIPE_BUF
      then let (c, p') = fill (drop don data) (the_pipe k ptr)
           in pipe_write_from sp ptr data (don + c) cur (pipe_wake ptr (put_pipe ptr p' k))
      else (IO_Parked don, park_on_pipe sp ptr cur k))"
  by pat_completeness auto
termination
proof (relation "measure (\<lambda>(sp, ptr, data, don, cur, k). length data - don)", goal_cases)
  case (2 sp ptr data don cur k x c p')
  then show ?case using fill_count [of "drop don data" "the_pipe k ptr" c p'] by auto
qed simp

declare pipe_write_from.simps [simp del]

definition pipe_write :: "u64 \<Rightarrow> u64 \<Rightarrow> u8 list \<Rightarrow> nat \<Rightarrow> 'a ipc_scheme \<Rightarrow> io \<times> 'a ipc_scheme" where
  "pipe_write sp ptr data cur k = pipe_write_from sp ptr data 0 cur k"


subsection \<open>The ring is a bounded queue\<close>

definition pipe_inv :: "pipe \<Rightarrow> bool" where
  "pipe_inv p \<longleftrightarrow> length (p_buf p) = PIPE_BUF \<and> p_tail p < PIPE_BUF \<and> p_len p \<le> PIPE_BUF \<and>
     p_head p = (p_tail p + p_len p) mod PIPE_BUF"

definition contents :: "pipe \<Rightarrow> u8 list" where
  "contents p = map (\<lambda>i. p_buf p ! ((p_tail p + i) mod PIPE_BUF)) [0 ..< p_len p]"

lemma length_contents [simp]: "length (contents p) = p_len p"
  by (simp add: contents_def)

lemma contents_counts [simp]:
  "contents (p\<lparr>readers := r\<rparr>) = contents p" "contents (p\<lparr>writers := w\<rparr>) = contents p"
  "pipe_inv (p\<lparr>readers := r\<rparr>) = pipe_inv p" "pipe_inv (p\<lparr>writers := w\<rparr>) = pipe_inv p"
  by (simp_all add: contents_def pipe_inv_def)

lemma map_upt_Suc_shift: "map f [0 ..< Suc n] = f 0 # map (\<lambda>i. f (Suc i)) [0 ..< n]"
  by (simp add: upt_conv_Cons map_Suc_upt [symmetric] del: upt_Suc)

lemma drain_eq:
  "p_tail p < PIPE_BUF \<Longrightarrow> drain n p =
     (map (\<lambda>i. p_buf p ! ((p_tail p + i) mod PIPE_BUF)) [0 ..< n], p\<lparr>p_tail := (p_tail p + n) mod PIPE_BUF\<rparr>)"
proof (induction n arbitrary: p)
  case (Suc n)
  let ?p = "p\<lparr>p_tail := (p_tail p + 1) mod PIPE_BUF\<rparr>"
  have "drain n ?p = (map (\<lambda>i. p_buf p ! ((p_tail p + Suc i) mod PIPE_BUF)) [0 ..< n],
      p\<lparr>p_tail := (p_tail p + Suc n) mod PIPE_BUF\<rparr>)"
    using Suc.IH [of ?p] by (simp add: mod_simps)
  then show ?case using Suc.prems by (simp add: map_upt_Suc_shift del: upt_Suc)
qed simp

lemma pipe_take_spec:
  assumes "pipe_inv p" "pipe_take n p = (bs, p')"
  shows "pipe_inv p' \<and> bs = take n (contents p) \<and> contents p' = drop n (contents p) \<and>
    readers p' = readers p \<and> writers p' = writers p"
proof -
  define got where "got = min n (p_len p)"
  have got: "(if n < p_len p then n else p_len p) = got" by (simp add: got_def)
  have res: "bs = map (\<lambda>i. p_buf p ! ((p_tail p + i) mod PIPE_BUF)) [0 ..< got]"
    "p' = p\<lparr>p_tail := (p_tail p + got) mod PIPE_BUF, p_len := p_len p - got\<rparr>"
    using assms by (auto simp: pipe_take_def got drain_eq pipe_inv_def)
  have "bs = take n (contents p)"
    by (simp add: res(1) contents_def take_map got_def take_upt_min)
  moreover have "contents p' = drop n (contents p)"
  proof (rule nth_equalityI)
    show "length (contents p') = length (drop n (contents p))" by (simp add: res(2) got_def)
    fix i assume "i < length (contents p')"
    then have i: "i < p_len p - got" by (simp add: res(2))
    then have "n + i < p_len p" "got = n" by (auto simp: got_def)
    then show "contents p' ! i = drop n (contents p) ! i"
      using i by (simp add: contents_def res(2) mod_simps add.assoc)
  qed
  moreover have "pipe_inv p'"
  proof -
    have "((p_tail p + got) mod PIPE_BUF + (p_len p - got)) mod PIPE_BUF = (p_tail p + p_len p) mod PIPE_BUF"
      unfolding mod_add_left_eq by (rule arg_cong [where f = "\<lambda>x. x mod PIPE_BUF"]) (simp add: got_def)
    then show ?thesis using assms(1) by (auto simp: pipe_inv_def res(2))
  qed
  ultimately show ?thesis by (simp add: res(2))
qed

lemma pipe_put_spec:
  assumes "pipe_inv p" "p_len p < PIPE_BUF"
  shows "pipe_inv (pipe_put b p)" "contents (pipe_put b p) = contents p @ [b]"
proof -
  show "pipe_inv (pipe_put b p)" using assms by (simp add: pipe_inv_def pipe_put_def mod_Suc_eq)
  have other: "(p_tail p + i) mod PIPE_BUF \<noteq> p_head p" if "i < p_len p" for i
  proof
    assume "(p_tail p + i) mod PIPE_BUF = p_head p"
    then have "(p_tail p + i) mod PIPE_BUF = (p_tail p + p_len p) mod PIPE_BUF" "p_tail p < PIPE_BUF"
      using assms(1) by (simp_all add: pipe_inv_def)
    then have "i = p_len p" using ring_index_inj [of "p_tail p" PIPE_BUF i "p_len p"] that assms(2) by simp
    then show False using that by simp
  qed
  show "contents (pipe_put b p) = contents p @ [b]"
  proof -
    have "(p_buf p)[p_head p := b] ! ((p_tail p + i) mod PIPE_BUF) = p_buf p ! ((p_tail p + i) mod PIPE_BUF)"
      if "i < p_len p" for i using other [OF that] by (metis nth_list_update_neq)
    moreover have "(p_buf p)[p_head p := b] ! ((p_tail p + p_len p) mod PIPE_BUF) = b"
      using assms(1) by (simp add: pipe_inv_def)
    ultimately show ?thesis by (simp add: contents_def pipe_put_def)
  qed
qed


definition ring_push :: "u8 \<Rightarrow> pipe \<Rightarrow> pipe" where
  "ring_push b p = snd (fill [b] p)"

definition ring_pop :: "pipe \<Rightarrow> (u8 \<times> pipe) option" where
  "ring_pop p = (case pipe_take 1 p of ([], _) \<Rightarrow> None | (b # _, p') \<Rightarrow> Some (b, p'))"

lemma ring_push_eq: "ring_push b p = (if p_len p < PIPE_BUF then pipe_put b p else p)"
  by (simp add: ring_push_def)

interpretation ring: bounded_fifo pipe_inv contents PIPE_BUF ring_push ring_pop
proof
  fix p q :: pipe and b assume inv: "pipe_inv p"
  show "length (contents p) \<le> PIPE_BUF" using inv by (simp add: pipe_inv_def)
  show "pipe_inv (ring_push b p)" using inv pipe_put_spec(1) by (simp add: ring_push_eq)
  show "contents (ring_push b p) = (if length (contents p) < PIPE_BUF then contents p @ [b] else contents p)"
    using inv pipe_put_spec(2) by (simp add: ring_push_eq)
  obtain bs p' where t: "pipe_take (Suc 0) p = (bs, p')" by (cases "pipe_take (Suc 0) p")
  note ts = pipe_take_spec [OF inv t]
  show "(ring_pop p = None) = (contents p = [])"
    using ts by (cases "contents p") (auto simp: ring_pop_def t)
  show "ring_pop p = Some (b, q) \<Longrightarrow> pipe_inv q \<and> contents p = b # contents q"
    using ts by (cases "contents p") (auto simp: ring_pop_def t)
qed

lemma fill_spec:
  "pipe_inv p \<Longrightarrow> fill bs p = (c, p') \<Longrightarrow>
   pipe_inv p' \<and> c = min (length bs) (PIPE_BUF - p_len p) \<and> contents p' = contents p @ take c bs \<and>
   readers p' = readers p \<and> writers p' = writers p"
proof (induction bs p arbitrary: c p' rule: fill.induct)
  case (2 b bs p)
  show ?case
  proof (cases "p_len p < PIPE_BUF")
    case True
    obtain d q where d: "fill bs (pipe_put b p) = (d, q)" by (cases "fill bs (pipe_put b p)")
    have eq: "c = d + 1" "p' = q" using 2(3) True d by auto
    have "pipe_inv q \<and> d = min (length bs) (PIPE_BUF - p_len (pipe_put b p)) \<and>
        contents q = contents (pipe_put b p) @ take d bs \<and> readers q = readers (pipe_put b p) \<and> writers q = writers (pipe_put b p)"
      using 2(1) [OF True pipe_put_spec(1) [OF 2(2) True] d] .
    then show ?thesis using eq True pipe_put_spec(2) [OF 2(2) True, of b] by (auto simp: pipe_put_def)
  qed (use 2 in auto)
qed auto

subsection \<open>The frame of the operations\<close>

lemma put_task_pipes [simp]: "pipes (put_task i t k) = pipes k" for k :: "'a ipc_scheme"
  by (simp add: put_task_def)

lemma sched_wake_sel [simp]:
  "pipes (sched_wake i k) = pipes k" "current (sched_wake i k) = current k" "length (tasks (sched_wake i k)) = length (tasks k)"
  "scheduling_started (sched_wake i k) = scheduling_started k" "next_pid (sched_wake i k) = next_pid k"
  "frames (sched_wake i k) = frames k" "bsp_cpu (sched_wake i k) = bsp_cpu k"
  for k :: "'a ipc_scheme"
  by (simp_all add: sched_wake_def Let_def)

lemma switch_to_pipes [simp]: "pipes (switch_to sp n k) = pipes k" for k :: "'a ipc_scheme"
  by (simp add: switch_to_def Let_def split: option.split)

lemma sched_yield_pipes [simp]: "pipes (sched_yield sp k) = pipes k" for k :: "'a ipc_scheme"
  by (simp add: sched_yield_def Let_def split: option.split)

lemma wake_if_waiting_sel [simp]:
  "pipes (wake_if_waiting ptr i k) = pipes k" "current (wake_if_waiting ptr i k) = current k"
  "length (tasks (wake_if_waiting ptr i k)) = length (tasks k)" "next_pid (wake_if_waiting ptr i k) = next_pid k"
  "scheduling_started (wake_if_waiting ptr i k) = scheduling_started k" "frames (wake_if_waiting ptr i k) = frames k"
  "bsp_cpu (wake_if_waiting ptr i k) = bsp_cpu k"
  by (simp_all add: wake_if_waiting_def Let_def)

lemma fold_wake_sel [simp]:
  "pipes (fold (wake_if_waiting ptr) is k) = pipes k" "current (fold (wake_if_waiting ptr) is k) = current k"
  "length (tasks (fold (wake_if_waiting ptr) is k)) = length (tasks k)" "next_pid (fold (wake_if_waiting ptr) is k) = next_pid k"
  "scheduling_started (fold (wake_if_waiting ptr) is k) = scheduling_started k" "frames (fold (wake_if_waiting ptr) is k) = frames k"
  "bsp_cpu (fold (wake_if_waiting ptr) is k) = bsp_cpu k"
  by (induction "is" arbitrary: k) simp_all

lemma pipe_wake_sel [simp]:
  "pipes (pipe_wake ptr k) = pipes k" "current (pipe_wake ptr k) = current k"
  "length (tasks (pipe_wake ptr k)) = length (tasks k)" "next_pid (pipe_wake ptr k) = next_pid k"
  "scheduling_started (pipe_wake ptr k) = scheduling_started k" "frames (pipe_wake ptr k) = frames k"
  "bsp_cpu (pipe_wake ptr k) = bsp_cpu k"
  by (simp_all add: pipe_wake_def del: upt_Suc)

text \<open>Waking changes the state and the wait channel of the tasks that wait on the pipe, and nothing else.\<close>

definition woken :: "u64 \<Rightarrow> task \<Rightarrow> task" where
  "woken ptr t = (if state t = TASK_BLOCKED \<and> wait_pipe t = ptr
     then t\<lparr>wait_pipe := 0, state := if zombie t then TASK_BLOCKED else TASK_READY\<rparr> else t)"

lemma task_at_wake_if: "length (tasks k) = MAX_TASKS \<Longrightarrow> i < MAX_TASKS \<Longrightarrow>
    task_at (wake_if_waiting ptr i k) j = (if i = j then woken ptr (task_at k j) else task_at k j)"
  by (auto simp: wake_if_waiting_def Let_def woken_def sched_wake_def)

lemma task_at_fold_wake:
  assumes "length (tasks k) = MAX_TASKS" "distinct is" "\<forall>i \<in> set is. i < MAX_TASKS"
  shows "task_at (fold (wake_if_waiting ptr) is k) j = (if j \<in> set is then woken ptr (task_at k j) else task_at k j)"
  using assms by (induction "is" arbitrary: k) (auto simp: task_at_wake_if)

lemma task_at_pipe_wake:
  assumes "length (tasks k) = MAX_TASKS" "j < MAX_TASKS"
  shows "task_at (pipe_wake ptr k) j = woken ptr (task_at k j)"
  unfolding pipe_wake_def using assms by (subst task_at_fold_wake) auto


lemma put_pipe_sel [simp]:
  "pipes (put_pipe ptr p k) = (pipes k)(ptr \<mapsto> p)" "task_at (put_pipe ptr p k) = task_at k"
  "tasks (put_pipe ptr p k) = tasks k" "current (put_pipe ptr p k) = current k"
  "the_pipe (put_pipe ptr p k) ptr = p" "scheduling_started (put_pipe ptr p k) = scheduling_started k"
  by (simp_all add: put_pipe_def the_pipe_def task_at_def fun_eq_iff)

lemma the_pipe_cong: "pipes k' = pipes k \<Longrightarrow> the_pipe k' ptr = the_pipe k ptr"
  by (simp add: the_pipe_def)

lemma the_pipe_wake [simp]: "the_pipe (pipe_wake ptr' k) ptr = the_pipe k ptr"
  by (simp add: the_pipe_def)

lemma park_pipes [simp]: "pipes (park_on_pipe sp ptr cur k) = pipes k" "the_pipe (park_on_pipe sp ptr cur k) ptr' = the_pipe k ptr'"
  by (simp_all add: park_on_pipe_def the_pipe_def)

subsection \<open>Reading and writing refine the queue\<close>

lemma pipe_read_spec:
  assumes "pipe_inv (the_pipe k ptr)" "pipe_read sp ptr n cur k = (r, k')"
  defines "p \<equiv> the_pipe k ptr"
  shows "pipe_inv (the_pipe k' ptr) \<and>
    (case r of
       IO_Ret v bs \<Rightarrow> bs = take n (contents p) \<and> contents (the_pipe k' ptr) = drop n (contents p) \<and>
         (if contents p \<noteq> [] then v = int (length bs) else k' = k \<and> (if writers p = 0 then v = 0 else v = -1 \<and> sig_pending (task_at k cur) \<noteq> 0))
     | IO_Parked d \<Rightarrow> contents p = [] \<and> writers p \<noteq> 0 \<and> pipes k' = pipes k)"
proof (cases "p_len p > 0")
  case True
  obtain bs p' where t: "pipe_take n p = (bs, p')" by (cases "pipe_take n p")
  have res: "r = IO_Ret (int (length bs)) bs" "k' = pipe_wake ptr (put_pipe ptr p' k)"
    using assms(2) True t by (auto simp: pipe_read_def p_def)
  have "contents p \<noteq> []" using True by (metis length_contents list.size(3) less_numeral_extra(3))
  then show ?thesis using pipe_take_spec [OF assms(1) [folded p_def] t] by (simp add: res)
next
  case False
  then have empty: "contents p = []" by (simp add: contents_def)
  have res: "(r, k') = (if writers p = 0 then (IO_Ret 0 [], k) else if sig_abort (task_at k cur) then (IO_Ret (-1) [], k)
      else (IO_Parked 0, park_on_pipe sp ptr cur k))"
    using assms(2) False by (simp add: pipe_read_def p_def)
  then consider "writers p = 0" "r = IO_Ret 0 []" "k' = k"
    | "writers p \<noteq> 0" "sig_abort (task_at k cur)" "r = IO_Ret (-1) []" "k' = k"
    | "writers p \<noteq> 0" "r = IO_Parked 0" "k' = park_on_pipe sp ptr cur k"
    by (auto split: if_splits)
  then show ?thesis
    using empty assms(1) by cases (simp_all add: sig_abort_def p_def)
qed

definition accepted :: "io \<Rightarrow> nat \<Rightarrow> nat" where
  "accepted r don = (case r of IO_Ret v _ \<Rightarrow> (if v < 0 then don else nat v) | IO_Parked d \<Rightarrow> d)"

lemma pipe_wake_sig [simp]:
  "length (tasks k) = MAX_TASKS \<Longrightarrow> j < MAX_TASKS \<Longrightarrow> sig_pending (task_at (pipe_wake ptr k) j) = sig_pending (task_at k j)"
  by (simp add: task_at_pipe_wake woken_def)

lemma take_split: "don + c \<le> a \<Longrightarrow> take c (drop don xs) @ take (a - (don + c)) (drop (don + c) xs) = take (a - don) (drop don xs)"
  using take_add [of c "a - (don + c)" "drop don xs"] by (simp add: add.commute)

lemma pipe_write_spec:
  assumes "pipe_inv (the_pipe k ptr)" "don \<le> length data" "pipe_write_from sp ptr data don cur k = (r, k')"
    "length (tasks k) = MAX_TASKS" "cur < MAX_TASKS"
  shows "pipe_inv (the_pipe k' ptr) \<and> don \<le> accepted r don \<and> accepted r don \<le> length data \<and>
    contents (the_pipe k' ptr) = contents (the_pipe k ptr) @ take (accepted r don - don) (drop don data) \<and>
    (case r of
       IO_Ret v bs \<Rightarrow> bs = [] \<and> (v = int (length data) \<or> (v = -1 \<and> k' = k \<and> (readers (the_pipe k ptr) = 0 \<or> sig_pending (task_at k cur) \<noteq> 0)))
     | IO_Parked d \<Rightarrow> d < length data \<and> p_len (the_pipe k' ptr) = PIPE_BUF)"
  using assms
proof (induction sp ptr data don cur k rule: pipe_write_from.induct)
  case (1 sp ptr data don cur k)
  let ?p = "the_pipe k ptr"
  consider (fin) "length data \<le> don" | (err) "don < length data" "readers ?p = 0 \<or> sig_abort (task_at k cur)"
    | (room) "don < length data" "readers ?p \<noteq> 0" "\<not> sig_abort (task_at k cur)" "p_len ?p < PIPE_BUF"
    | (full) "don < length data" "readers ?p \<noteq> 0" "\<not> sig_abort (task_at k cur)" "\<not> p_len ?p < PIPE_BUF"
    by linarith
  then show ?case
  proof cases
    case fin
    then have "r = IO_Ret (int don) []" "k' = k" using "1.prems"(3) by (auto simp: pipe_write_from.simps [of sp ptr data don])
    then show ?thesis using fin "1.prems" by (simp add: accepted_def)
  next
    case err
    then have "r = IO_Ret (-1) []" "k' = k"
      using "1.prems"(3) by (auto simp: pipe_write_from.simps [of sp ptr data don] split: if_splits)
    then show ?thesis using err "1.prems" by (auto simp: accepted_def sig_abort_def)
  next
    case full
    then have res: "r = IO_Parked don" "k' = park_on_pipe sp ptr cur k"
      using "1.prems"(3) by (auto simp: pipe_write_from.simps [of sp ptr data don])
    have "p_len ?p = PIPE_BUF" using full "1.prems"(1) by (simp add: pipe_inv_def)
    then show ?thesis using full "1.prems" by (simp add: res accepted_def the_pipe_def)
  next
    case room
    obtain c p' where f: "fill (drop don data) ?p = (c, p')" by (cases "fill (drop don data) ?p")
    note fs = fill_spec [OF "1.prems"(1) f]
    let ?k = "pipe_wake ptr (put_pipe ptr p' k)"
    have step: "pipe_write_from sp ptr data (don + c) cur ?k = (r, k')"
      using "1.prems"(3) room f by (simp add: pipe_write_from.simps [of sp ptr data don])
    have c: "don + c \<le> length data" using fill_count [OF f] room(1) by auto
    have pos: "0 < c" using fill_count [OF f] room by auto
    have tp: "the_pipe ?k ptr = p'" by simp
    have IH: "pipe_inv (the_pipe k' ptr) \<and> don + c \<le> accepted r (don + c) \<and> accepted r (don + c) \<le> length data \<and>
      contents (the_pipe k' ptr) = contents p' @ take (accepted r (don + c) - (don + c)) (drop (don + c) data) \<and>
      (case r of
         IO_Ret v bs \<Rightarrow> bs = [] \<and> (v = int (length data) \<or> (v = -1 \<and> k' = ?k \<and> (readers p' = 0 \<or> sig_pending (task_at ?k cur) \<noteq> 0)))
       | IO_Parked d \<Rightarrow> d < length data \<and> p_len (the_pipe k' ptr) = PIPE_BUF)"
    proof -
      have pre: "\<not> length data \<le> don" "pipe_inv (the_pipe ?k ptr)" "length (tasks ?k) = MAX_TASKS"
        using room(1) fs "1.prems"(4) by simp_all
      show ?thesis
        using "1.IH" [OF pre(1) room(2,3,4) refl f [symmetric] pre(2) c step pre(3) "1.prems"(5)] unfolding tp .
    qed
    have sig: "sig_pending (task_at ?k cur) = 0" using room "1.prems"(4,5) by (simp add: sig_abort_def)
    have noerr: "case r of IO_Ret v bs \<Rightarrow> v = int (length data) | IO_Parked d \<Rightarrow> True"
    proof (cases r)
      case (IO_Ret v bs)
      have "readers p' \<noteq> 0" using fs room(2) by simp
      then show ?thesis using IH sig unfolding IO_Ret io.case by blast
    qed simp
    have acc: "accepted r (don + c) = accepted r don"
      using noerr by (auto simp: accepted_def split: io.splits)
    have "take c (drop don data) @ take (accepted r don - (don + c)) (drop (don + c) data)
        = take (accepted r don - don) (drop don data)"
      by (rule take_split) (use IH acc in auto)
    then show ?thesis using IH fs noerr unfolding acc by (auto split: io.splits)
  qed
qed


subsection \<open>Streams and waiting\<close>

lemma tasks_length [simp]:
  "length (tasks (put_task i t k)) = length (tasks k)"
  "length (tasks (switch_to sp n k)) = length (tasks k)"
  "length (tasks (sched_yield sp k)) = length (tasks k)"
  by (simp_all add: put_task_def switch_to_def sched_yield_def Let_def split: option.split)

lemma pipe_ops_length:
  "pipe_read sp ptr n cur k = (r, k') \<Longrightarrow> length (tasks k') = length (tasks k)"
  by (auto simp: pipe_read_def park_on_pipe_def Let_def split: if_splits prod.splits)

lemma pipe_write_length:
  "pipe_write_from sp ptr data don cur k = (r, k') \<Longrightarrow> length (tasks k') = length (tasks k)"
proof (induction sp ptr data don cur k rule: pipe_write_from.induct)
  case (1 sp ptr data don cur k)
  show ?case
  proof (cases "\<not> length data \<le> don \<and> readers (the_pipe k ptr) \<noteq> 0 \<and> \<not> sig_abort (task_at k cur) \<and> p_len (the_pipe k ptr) < PIPE_BUF")
    case True
    obtain c p' where f: "fill (drop don data) (the_pipe k ptr) = (c, p')" by (cases "fill (drop don data) (the_pipe k ptr)")
    have "pipe_write_from sp ptr data (don + c) cur (pipe_wake ptr (put_pipe ptr p' k)) = (r, k')"
      using "1.prems" True f by (simp add: pipe_write_from.simps [of sp ptr data don])
    then show ?thesis using "1.IH" [OF _ _ _ _ refl f [symmetric]] True by auto
  next
    case False
    then show ?thesis using "1.prems"
      by (auto simp: pipe_write_from.simps [of sp ptr data don] park_on_pipe_def split: if_splits)
  qed
qed

text \<open>
  A history of one pipe: the bytes accepted from writers and the bytes handed to readers, over passes of
  \<open>pipe_read\<close> and \<open>pipe_write\<close> by any tasks, interleaved with anything that leaves this pipe alone.
\<close>

primrec io_bytes :: "io \<Rightarrow> u8 list" where
  "io_bytes (IO_Ret v bs) = bs"
| "io_bytes (IO_Parked d) = []"

inductive pipe_trace :: "u64 \<Rightarrow> 'a ipc_scheme \<Rightarrow> u8 list \<Rightarrow> u8 list \<Rightarrow> 'a ipc_scheme \<Rightarrow> bool" for ptr k where
  start: "pipe_trace ptr k [] [] k"
| reads: "pipe_trace ptr k w r k1 \<Longrightarrow> pipe_read sp ptr n cur k1 = (res, k2) \<Longrightarrow> pipe_trace ptr k w (r @ io_bytes res) k2"
| writes: "pipe_trace ptr k w r k1 \<Longrightarrow> don \<le> length data \<Longrightarrow> cur < MAX_TASKS \<Longrightarrow>
    pipe_write_from sp ptr data don cur k1 = (res, k2) \<Longrightarrow>
    pipe_trace ptr k (w @ take (accepted res don - don) (drop don data)) r k2"
| env: "pipe_trace ptr k w r k1 \<Longrightarrow> pipes k2 ptr = pipes k1 ptr \<Longrightarrow> length (tasks k2) = length (tasks k1) \<Longrightarrow> pipe_trace ptr k w r k2"

lemma pipe_trace_inv:
  assumes "pipe_trace ptr k w r k'" "pipe_inv (the_pipe k ptr)" "length (tasks k) = MAX_TASKS"
  shows "pipe_inv (the_pipe k' ptr) \<and> length (tasks k') = MAX_TASKS \<and>
    contents (the_pipe k ptr) @ w = r @ contents (the_pipe k' ptr)"
  using assms
proof (induction rule: pipe_trace.induct)
  case (reads w r k1 sp n cur res k2)
  then have k1: "pipe_inv (the_pipe k1 ptr)" "length (tasks k1) = MAX_TASKS"
    "contents (the_pipe k ptr) @ w = r @ contents (the_pipe k1 ptr)" by auto
  have "pipe_inv (the_pipe k2 ptr)" "contents (the_pipe k1 ptr) = io_bytes res @ contents (the_pipe k2 ptr)"
    using pipe_read_spec [OF k1(1) reads.hyps(2)] by (auto split: io.splits simp: the_pipe_cong [of k2 k1])
  then show ?case using k1 pipe_ops_length [OF reads.hyps(2)] by simp
next
  case (writes w r k1 don data cur sp res k2)
  then have k1: "pipe_inv (the_pipe k1 ptr)" "length (tasks k1) = MAX_TASKS"
    "contents (the_pipe k ptr) @ w = r @ contents (the_pipe k1 ptr)" by auto
  have "pipe_inv (the_pipe k2 ptr)" "contents (the_pipe k2 ptr) = contents (the_pipe k1 ptr) @ take (accepted res don - don) (drop don data)"
    using pipe_write_spec [OF k1(1) writes.hyps(2,4) k1(2) writes.hyps(3)] by auto
  then show ?case using k1 pipe_write_length [OF writes.hyps(4)] by (metis append.assoc)
next
  case (env w r k1 k2)
  then have "the_pipe k2 ptr = the_pipe k1 ptr" by (simp add: the_pipe_def)
  then show ?case using env by simp
qed simp


lemma switch_to_task [simp]:
  "state (task_at (switch_to sp n k) i) = state (task_at k i)" "zombie (task_at (switch_to sp n k) i) = zombie (task_at k i)"
  "wait_pipe (task_at (switch_to sp n k) i) = wait_pipe (task_at k i)"
  by (simp_all add: switch_to_def Let_def split: option.split)

text \<open>Task \<open>j\<close> waits for the pipe: it is blocked on it and still alive.\<close>

definition waiting :: "'a ipc_scheme \<Rightarrow> nat \<Rightarrow> u64 \<Rightarrow> bool" where
  "waiting k j ptr \<longleftrightarrow> state (task_at k j) = TASK_BLOCKED \<and> \<not> zombie (task_at k j) \<and> wait_pipe (task_at k j) = ptr"

lemma waiting_yield: "waiting (sched_yield sp k) j ptr \<Longrightarrow> waiting k j ptr"
  by (auto simp: waiting_def sched_yield_def Let_def split: option.splits if_splits)

lemma waiting_wake:
  "length (tasks k) = MAX_TASKS \<Longrightarrow> j < MAX_TASKS \<Longrightarrow> q \<noteq> 0 \<Longrightarrow> waiting (pipe_wake ptr k) j q \<longleftrightarrow> waiting k j q \<and> q \<noteq> ptr"
  by (auto simp: waiting_def task_at_pipe_wake woken_def)

lemma waiting_park: "waiting (park_on_pipe sp ptr cur k) j q \<Longrightarrow> waiting k j q \<or> q = ptr"
  unfolding park_on_pipe_def by (drule waiting_yield) (auto simp: waiting_def split: if_splits)

text \<open>Nobody waits in vain: a pipe somebody waits for is empty with a writer left, or full with a reader left.\<close>

definition stalled :: "pipe \<Rightarrow> bool" where
  "stalled p \<longleftrightarrow> (p_len p = 0 \<and> writers p \<noteq> 0) \<or> (p_len p = PIPE_BUF \<and> readers p \<noteq> 0)"

definition waiters_ok :: "'a ipc_scheme \<Rightarrow> bool" where
  "waiters_ok k \<longleftrightarrow> length (tasks k) = MAX_TASKS \<and> (\<forall>ptr p. pipes k ptr = Some p \<longrightarrow> pipe_inv p) \<and>
     (\<forall>j < MAX_TASKS. \<forall>ptr. ptr \<noteq> 0 \<longrightarrow> waiting k j ptr \<longrightarrow> stalled (the_pipe k ptr))"

lemma zero_pipe_inv [simp]: "pipe_inv zero_pipe"
  by (simp add: zero_pipe_def pipe_inv_def)

lemma waiters_okD: "waiters_ok k \<Longrightarrow> j < MAX_TASKS \<Longrightarrow> ptr \<noteq> 0 \<Longrightarrow> waiting k j ptr \<Longrightarrow> stalled (the_pipe k ptr)"
  and waiters_ok_pipe: "waiters_ok k \<Longrightarrow> pipe_inv (the_pipe k ptr)"
  and waiters_ok_len: "waiters_ok k \<Longrightarrow> length (tasks k) = MAX_TASKS"
  by (auto simp: waiters_ok_def the_pipe_def split: option.split)

lemma waiters_ok_wake:
  assumes "waiters_ok k" "pipe_inv p" shows "waiters_ok (pipe_wake ptr (put_pipe ptr p k))"
proof -
  have "stalled (the_pipe (put_pipe ptr p k) q)" if "j < MAX_TASKS" "q \<noteq> 0" "waiting k j q" "q \<noteq> ptr" for j q
    using waiters_okD [OF assms(1) that(1-3)] that(4) by (simp add: the_pipe_def put_pipe_def)
  then show ?thesis
    using assms waiting_wake [of "put_pipe ptr p k"] by (simp add: waiters_ok_def waiting_def)
qed

lemma waiters_ok_park:
  assumes "waiters_ok k" "stalled (the_pipe k ptr)" shows "waiters_ok (park_on_pipe sp ptr cur k)"
proof -
  have "stalled (the_pipe k q)" if "j < MAX_TASKS" "q \<noteq> 0" "waiting (park_on_pipe sp ptr cur k) j q" for j q
    using waiting_park [OF that(3)] waiters_okD [OF assms(1) that(1,2)] assms(2) by blast
  moreover have "length (tasks (park_on_pipe sp ptr cur k)) = MAX_TASKS"
    using waiters_ok_len [OF assms(1)] by (simp add: park_on_pipe_def)
  ultimately show ?thesis using assms(1) by (simp add: waiters_ok_def)
qed

lemma waiters_ok_read:
  assumes "waiters_ok k" shows "waiters_ok (snd (pipe_read sp ptr n cur k))"
proof -
  obtain bs p' where t: "pipe_take n (the_pipe k ptr) = (bs, p')" by (cases "pipe_take n (the_pipe k ptr)")
  have "pipe_inv p'" using pipe_take_spec [OF waiters_ok_pipe [OF assms] t] by blast
  then show ?thesis
    using waiters_ok_wake [OF assms] waiters_ok_park [OF assms, of ptr sp cur] assms t
    by (auto simp: pipe_read_def Let_def stalled_def)
qed

lemma waiters_ok_write: "waiters_ok k \<Longrightarrow> waiters_ok (snd (pipe_write_from sp ptr data don cur k))"
proof (induction sp ptr data don cur k rule: pipe_write_from.induct)
  case (1 sp ptr data don cur k)
  let ?p = "the_pipe k ptr"
  obtain c p' where f: "fill (drop don data) ?p = (c, p')" by (cases "fill (drop don data) ?p")
  have w: "waiters_ok (pipe_wake ptr (put_pipe ptr p' k))"
    using fill_spec [OF waiters_ok_pipe [OF "1.prems"] f] waiters_ok_wake [OF "1.prems"] by blast
  have full: "readers ?p \<noteq> 0 \<Longrightarrow> \<not> p_len ?p < PIPE_BUF \<Longrightarrow> stalled ?p"
    using waiters_ok_pipe [OF "1.prems", of ptr] by (simp add: stalled_def pipe_inv_def)
  have IH: "\<not> length data \<le> don \<Longrightarrow> readers ?p \<noteq> 0 \<Longrightarrow> \<not> sig_abort (task_at k cur) \<Longrightarrow> p_len ?p < PIPE_BUF \<Longrightarrow>
      waiters_ok (snd (pipe_write_from sp ptr data (don + c) cur (pipe_wake ptr (put_pipe ptr p' k))))"
    using "1.IH" [OF _ _ _ _ refl f [symmetric] w] by blast
  show ?case
    unfolding pipe_write_from.simps [of sp ptr data don]
    using IH waiters_ok_park [OF "1.prems" full, of sp cur] "1.prems" by (simp add: f)
qed


lemma waiters_ok_unref:
  assumes "waiters_ok k" shows "waiters_ok (pipe_unref ptr rd wr k)"
proof (cases "ptr = 0 \<or> pipes k ptr = None")
  case True
  have "waiters_ok (pipe_wake ptr k)" if "ptr \<noteq> 0"
    using assms waiting_wake [of k] by (simp add: waiters_ok_def)
  moreover have "pipe_unref ptr rd wr k = (if ptr = 0 then k else pipe_wake ptr k)"
  proof (cases "ptr = 0")
    case False
    then have "pipes k ptr = None" using True by simp
    then have "k\<lparr>pipes := (pipes k)(ptr := None)\<rparr> = k" by (simp add: fun_upd_idem)
    then show ?thesis using False \<open>pipes k ptr = None\<close> by (simp add: pipe_unref_def)
  qed (simp add: pipe_unref_def)
  ultimately show ?thesis using assms by simp
next
  case False
  then obtain p where p: "pipes k ptr = Some p" "ptr \<noteq> 0" by auto
  let ?p = "p\<lparr>readers := readers p - rd, writers := writers p - wr\<rparr>" and ?w = "pipe_wake ptr (put_pipe ptr (p\<lparr>readers := readers p - rd, writers := writers p - wr\<rparr>) k)"
  have w: "waiters_ok ?w" using assms p by (intro waiters_ok_wake) (auto simp: waiters_ok_def)
  have gone: "\<not> waiting ?w j ptr" if "j < MAX_TASKS" for j
    using waiting_wake [of "put_pipe ptr ?p k" j ptr ptr] p(2) that waiters_ok_len [OF assms] by simp
  have "stalled (the_pipe (?w\<lparr>pipes := (pipes ?w)(ptr := None)\<rparr>) q)" if "j < MAX_TASKS" "q \<noteq> 0" "waiting ?w j q" for j q
    using gone [OF that(1)] that waiters_okD [OF w that] by (cases "q = ptr") (auto simp: the_pipe_def)
  moreover have "waiting (k\<lparr>pipes := f\<rparr>) = waiting k" for k :: "'a ipc_scheme" and f
    by (simp add: waiting_def task_at_def fun_eq_iff)
  moreover have "\<forall>q p. pipes k q = Some p \<longrightarrow> pipe_inv p" "length (tasks ?w) = MAX_TASKS"
    using assms by (simp_all add: waiters_ok_def)
  ultimately have "waiters_ok (?w\<lparr>pipes := (pipes ?w)(ptr := None)\<rparr>)"
    by (simp add: waiters_ok_def)
  moreover have "pipe_unref ptr rd wr k = (if readers p - rd \<le> 0 \<and> writers p - wr \<le> 0 then ?w\<lparr>pipes := (pipes ?w)(ptr := None)\<rparr> else ?w)"
    using p by (simp add: pipe_unref_def put_pipe_def Let_def)
  ultimately show ?thesis using w by simp
qed

subsection \<open>Properties\<close>

definition two_ipc :: ipc where
  "two_ipc = sched.extend two_sched (ipc.fields [16 \<mapsto> zero_pipe\<lparr>readers := 1, writers := 1\<rparr>])"

lemma two_ipc_facts: "the_pipe two_ipc 16 = zero_pipe\<lparr>readers := 1, writers := 1\<rparr>" "length (tasks two_ipc) = MAX_TASKS"
  "task_at two_ipc = task_at two_sched"
  by (simp_all add: two_ipc_def sched.defs ipc.defs the_pipe_def two_sched_def task_at_def fun_eq_iff)

text \<open>
  (C17) A pipe is a lossless first-in first-out stream: over any interleaving of passes of \<open>pipe_read\<close> and
  \<open>pipe_write\<close> by any tasks, partial and resumed writes and interrupted calls included, the bytes accepted
  from the writers are the bytes handed to the readers followed by what the ring still holds, and the ring
  never holds more than its 256 bytes.
\<close>

theorem pipe_stream:
  assumes "pipe_inv (the_pipe k ptr)" "length (tasks k) = MAX_TASKS" "contents (the_pipe k ptr) = []" "pipe_trace ptr k w r k'"
  shows "w = r @ contents (the_pipe k' ptr) \<and> length (contents (the_pipe k' ptr)) \<le> PIPE_BUF"
  using pipe_trace_inv [OF assms(4,1,2)] assms(3) by (auto simp: pipe_inv_def)

theorem pipe_stream_witness:
  "\<exists>k'. pipe_trace 16 two_ipc [1, 2, 3] [1, 2] k' \<and> contents (the_pipe k' 16) = [3]"
proof -
  let ?p = "zero_pipe\<lparr>readers := 1, writers := 1\<rparr>" and ?q = "pipe_put 3 (pipe_put 2 (pipe_put 1 (zero_pipe\<lparr>readers := 1, writers := 1\<rparr>)))"
  let ?k1 = "pipe_wake 16 (put_pipe 16 ?q two_ipc)"
  have sig: "sig_pending (task_at two_sched 0) = 0" by (simp add: two_sched_def task_at_def zero_task_def)
  have "fill [1, 2, 3] ?p = (3, ?q)" by (simp add: pipe_put_def zero_pipe_def)
  then have w: "pipe_write_from 0 16 [1, 2, 3] 0 0 two_ipc = (IO_Ret 3 [], ?k1)"
    using sig by (simp add: pipe_write_from.simps two_ipc_facts sig_abort_def del: fill.simps) (simp add: zero_pipe_def)
  obtain bs p' where t: "pipe_take 2 ?q = (bs, p')" by (cases "pipe_take 2 ?q")
  have inv: "pipe_inv ?q" by (intro pipe_put_spec) (simp_all add: pipe_put_def zero_pipe_def pipe_inv_def)
  have "contents ?q = [1, 2, 3]"
    by (simp add: contents_def pipe_put_def zero_pipe_def upt_rec)
  then have bs: "bs = [1, 2]" using pipe_take_spec [OF inv t] by simp
  have r: "pipe_read 0 16 2 0 ?k1 = (IO_Ret 2 [1, 2], pipe_wake 16 (put_pipe 16 p' ?k1))"
    using t bs by (simp add: pipe_read_def) (simp add: pipe_put_def zero_pipe_def)
  have tr: "pipe_trace 16 two_ipc [1, 2, 3] [1, 2] (pipe_wake 16 (put_pipe 16 p' ?k1))"
    using pipe_trace.reads [OF pipe_trace.writes [OF pipe_trace.start _ _ w] r] by (simp add: accepted_def)
  have "[1, 2, 3] = [1, 2] @ contents (the_pipe (pipe_wake 16 (put_pipe 16 p' ?k1)) 16)"
    by (rule pipe_stream [OF _ _ _ tr, THEN conjunct1]) (simp_all add: two_ipc_facts zero_pipe_def contents_def pipe_inv_def)
  then show ?thesis using tr by auto
qed

text \<open>
  (C18) No wake-up is lost: reading, writing and dropping a reference keep it so that a living task that is
  parked on a pipe waits for an empty pipe that still has a writer, or for a full one that still has a reader.
  So nobody sleeps on a pipe that has data and room, nor on one whose other end is closed.
\<close>

theorem pipe_no_lost_wakeup:
  assumes "waiters_ok k"
  shows "waiters_ok (snd (pipe_read sp ptr n cur k)) \<and> waiters_ok (snd (pipe_write sp ptr data cur k)) \<and>
    waiters_ok (snd (pipe_write_from sp ptr data don cur k)) \<and> waiters_ok (pipe_unref ptr rd wr k)"
  using waiters_ok_read [OF assms] waiters_ok_write [OF assms] waiters_ok_unref [OF assms]
  by (simp add: pipe_write_def)

theorem pipe_no_lost_wakeup_witness:
  "waiters_ok two_ipc \<and> waiters_ok (snd (pipe_read 0 16 2 0 two_ipc)) \<and> waiters_ok (pipe_unref 16 0 1 two_ipc)"
proof -
  have "\<not> waiting two_ipc j q" if "j < MAX_TASKS" for j q
    using two_sched_state [OF that] by (auto simp: waiting_def two_ipc_facts)
  moreover have "pipes two_ipc q = Some p \<Longrightarrow> pipe_inv p" for q p
    by (auto simp: two_ipc_def sched.defs ipc.defs split: if_splits)
  ultimately have "waiters_ok two_ipc" by (simp add: waiters_ok_def two_ipc_facts)
  then show ?thesis using pipe_no_lost_wakeup by blast
qed

end
