(* ===== verification/Kbd.thy ===== *)
theory Kbd
  imports Pipe
begin

text \<open>
  The PS/2 keyboard, \<open>kernel/src/drivers/kbd.c\<close>: translation of scan codes, the ring of characters
  typed ahead, and Ctrl+C.  The bytes read from the ports are arguments of \<open>kbd_interrupt\<close>.  Waiting for a
  key is a pass of the loop of \<open>kbd_getchar\<close>; the interrupt that ends the halt runs between passes.
\<close>

subsection \<open>State and operations\<close>

abbreviation KB_BUFFER_SIZE :: nat where "KB_BUFFER_SIZE \<equiv> 128"

record kbd =
  kb_buf :: string
  kb_head :: nat
  kb_tail :: nat
  shift :: bool
  ctrl :: bool

definition kbd_boot :: kbd where
  "kbd_boot = \<lparr>kb_buf = replicate KB_BUFFER_SIZE (CHR 0x00), kb_head = 0, kb_tail = 0, shift = False, ctrl = False\<rparr>"

definition scancode_map :: string where
  "scancode_map =
     [CHR 0x00, CHR 0x00] @ ''1234567890-='' @ [CHR 0x08, CHR 0x09] @ ''qwertyuiop[]'' @ [CHR 0x0A, CHR 0x00] @
     ''asdfghjkl;'' @ [CHR 0x27, CHR 0x60] @ [CHR 0x00, CHR 0x5C] @ ''zxcvbnm,./'' @
     [CHR 0x00, CHR ''*'', CHR 0x00, CHR '' '', CHR 0x00] @ replicate 70 (CHR 0x00)"

definition is_lower :: "char \<Rightarrow> bool" where
  "is_lower c \<longleftrightarrow> of_char c \<ge> (97 :: nat) \<and> of_char c \<le> (122 :: nat)"

definition shifted :: "char \<Rightarrow> char" where
  "shifted c = (case map_of
     [(CHR ''1'', CHR ''!''), (CHR ''2'', CHR ''@''), (CHR ''3'', CHR ''#''), (CHR ''4'', CHR ''$''), (CHR ''5'', CHR ''%''),
      (CHR ''6'', CHR 0x5E), (CHR ''7'', CHR ''&''), (CHR ''8'', CHR ''*''), (CHR ''9'', CHR ''(''), (CHR ''0'', CHR '')''),
      (CHR ''-'', CHR ''_''), (CHR ''='', CHR ''+''), (CHR ''['', CHR ''{''), (CHR '']'', CHR ''}''), (CHR 0x5C, CHR ''|''),
      (CHR '';'', CHR '':''), (CHR 0x27, CHR 0x22), (CHR '','', CHR ''<''), (CHR ''.'', CHR ''>''), (CHR ''/'', CHR ''?''),
      (CHR 0x60, CHR ''~'')] c of None \<Rightarrow> c | Some d \<Rightarrow> d)"

definition translate :: "bool \<Rightarrow> u8 \<Rightarrow> char" where
  "translate sh sc =
     (let c = scancode_map ! unat sc
      in if is_lower c \<and> \<not> sh then c
         else if is_lower c \<and> sh then char_of (of_char c - 97 + 65 :: nat)
         else if sh then shifted c else c)"

definition buf_push :: "char \<Rightarrow> kbd \<Rightarrow> kbd" where
  "buf_push c b =
     (let nxt = (kb_head b + 1) mod KB_BUFFER_SIZE
      in if nxt = kb_tail b then b else b\<lparr>kb_buf := (kb_buf b)[kb_head b := c], kb_head := nxt\<rparr>)"

record kcon = ipc +
  kb :: kbd
  console_fg_pgid :: int

definition sigint_one :: "nat \<Rightarrow> 'a kcon_scheme \<Rightarrow> 'a kcon_scheme" where
  "sigint_one i k =
     (let t = task_at k i
      in if state t = TASK_FREE \<or> pid t < 1 then k
         else if pgid t \<noteq> console_fg_pgid k then k
         else let t = t\<lparr>sig_pending := sig_pending t OR push_bit SIGINT 1\<rparr>; k = put_task i t k
              in if state t = TASK_BLOCKED \<and> wait_pipe t \<noteq> 0
                 then sched_wake i (put_task i (t\<lparr>wait_pipe := 0\<rparr>) k) else k)"

definition raise_sigint :: "'a kcon_scheme \<Rightarrow> 'a kcon_scheme" where
  "raise_sigint k =
     (let k = k\<lparr>kb := (kb k)\<lparr>kb_head := kb_tail (kb k)\<rparr>\<rparr>
      in fold sigint_one [0 ..< MAX_TASKS] k)"

definition kbd_interrupt :: "u8 \<Rightarrow> u8 \<Rightarrow> 'a kcon_scheme \<Rightarrow> 'a kcon_scheme" where
  "kbd_interrupt status sc k =
     (if status AND 1 = 0 then k
      else if sc = 0x2A \<or> sc = 0x36 then k\<lparr>kb := (kb k)\<lparr>shift := True\<rparr>\<rparr>
      else if sc = 0xAA \<or> sc = 0xB6 then k\<lparr>kb := (kb k)\<lparr>shift := False\<rparr>\<rparr>
      else if sc = 0x1D then k\<lparr>kb := (kb k)\<lparr>ctrl := True\<rparr>\<rparr>
      else if sc = 0x9D then k\<lparr>kb := (kb k)\<lparr>ctrl := False\<rparr>\<rparr>
      else if sc AND 0x80 \<noteq> 0 then k
      else if sc = 0xE0 then k
      else let c = translate (shift (kb k)) (sc AND 0x7F)
           in if c = CHR 0x00 then k
              else if ctrl (kb k) \<and> (c = CHR ''c'' \<or> c = CHR ''C'') then raise_sigint k
              else k\<lparr>kb := buf_push c (kb k)\<rparr>)"

definition kbd_usb_push :: "char \<Rightarrow> 'a kcon_scheme \<Rightarrow> 'a kcon_scheme" where
  "kbd_usb_push c k = k\<lparr>kb := buf_push c (kb k)\<rparr>"

definition kbd_poll :: "kbd \<Rightarrow> (char \<times> kbd) option" where
  "kbd_poll b =
     (if kb_head b = kb_tail b then None
      else Some (kb_buf b ! kb_tail b, b\<lparr>kb_tail := (kb_tail b + 1) mod KB_BUFFER_SIZE\<rparr>))"

text \<open>A pass of the loop; the result 0 of \<open>IO_Parked\<close> stands for the halt.\<close>

definition kbd_getchar :: "u64 \<Rightarrow> 'a kcon_scheme \<Rightarrow> io \<times> 'a kcon_scheme" where
  "kbd_getchar sp k =
     (if (case sched_get_current k of None \<Rightarrow> False | Some cur \<Rightarrow> sig_pending (task_at k cur) \<noteq> 0)
      then (IO_Ret (-1) [], k)
      else let k = (if g_resched_requested k then sched_yield sp (k\<lparr>g_resched_requested := False\<rparr>) else k)
           in case kbd_poll (kb k) of
                Some (c, b) \<Rightarrow> (IO_Ret (of_char c) [], k\<lparr>kb := b\<rparr>)
              | None \<Rightarrow> (IO_Parked 0, k))"

subsection \<open>The ring is a bounded queue\<close>

definition kbd_inv :: "kbd \<Rightarrow> bool" where
  "kbd_inv b \<longleftrightarrow> length (kb_buf b) = KB_BUFFER_SIZE \<and> kb_head b < KB_BUFFER_SIZE \<and> kb_tail b < KB_BUFFER_SIZE"

definition kb_len :: "kbd \<Rightarrow> nat" where
  "kb_len b = (kb_head b + KB_BUFFER_SIZE - kb_tail b) mod KB_BUFFER_SIZE"

definition typed :: "kbd \<Rightarrow> string" where
  "typed b = map (\<lambda>i. kb_buf b ! ((kb_tail b + i) mod KB_BUFFER_SIZE)) [0 ..< kb_len b]"

lemma kb_head_eq: "kbd_inv b \<Longrightarrow> kb_head b = (kb_tail b + kb_len b) mod KB_BUFFER_SIZE"
  unfolding kbd_inv_def kb_len_def by (cases "kb_tail b \<le> kb_head b") (auto simp: mod_if)

lemma kb_len_if: "kbd_inv b \<Longrightarrow> kb_len b = (if kb_tail b \<le> kb_head b then kb_head b - kb_tail b else kb_head b + KB_BUFFER_SIZE - kb_tail b)"
  unfolding kbd_inv_def kb_len_def by (cases "kb_tail b \<le> kb_head b") (auto simp: mod_if)

lemma kb_len_less: "kb_len b < KB_BUFFER_SIZE"
  by (simp add: kb_len_def)

lemma kb_full: "kbd_inv b \<Longrightarrow> (kb_head b + 1) mod KB_BUFFER_SIZE = kb_tail b \<longleftrightarrow> kb_len b = 127"
  unfolding kbd_inv_def kb_len_def by (cases "kb_tail b \<le> kb_head b") (auto simp: mod_if)

lemma kb_empty: "kbd_inv b \<Longrightarrow> kb_head b = kb_tail b \<longleftrightarrow> kb_len b = 0"
  unfolding kbd_inv_def kb_len_def by (cases "kb_tail b \<le> kb_head b") (auto simp: mod_if)

lemma kb_len_push: "kbd_inv b \<Longrightarrow> kb_len b \<noteq> 127 \<Longrightarrow> kb_len (b\<lparr>kb_buf := x, kb_head := (kb_head b + 1) mod KB_BUFFER_SIZE\<rparr>) = Suc (kb_len b)"
  unfolding kbd_inv_def kb_len_def by (cases "kb_tail b \<le> kb_head b") (auto simp: mod_if)

lemma kb_len_pop: "kbd_inv b \<Longrightarrow> kb_len b \<noteq> 0 \<Longrightarrow> Suc (kb_len (b\<lparr>kb_tail := (kb_tail b + 1) mod KB_BUFFER_SIZE\<rparr>)) = kb_len b"
proof -
  assume inv: "kbd_inv b" "kb_len b \<noteq> 0"
  let ?b = "b\<lparr>kb_tail := (kb_tail b + 1) mod KB_BUFFER_SIZE\<rparr>"
  have "kbd_inv ?b" using inv by (simp add: kbd_inv_def)
  then have "kb_len ?b = (if kb_tail ?b \<le> kb_head ?b then kb_head ?b - kb_tail ?b else kb_head ?b + KB_BUFFER_SIZE - kb_tail ?b)"
    by (rule kb_len_if)
  then show ?thesis using inv kb_len_if [OF inv(1)] by (auto simp: kbd_inv_def mod_Suc split: if_splits)
qed

lemma length_typed [simp]: "length (typed b) = kb_len b"
  by (simp add: typed_def)

lemma buf_push_typed:
  assumes "kbd_inv b" shows "typed (buf_push c b) = (if kb_len b < 127 then typed b @ [c] else typed b)"
proof (cases "kb_len b = 127")
  case False
  let ?b = "b\<lparr>kb_buf := (kb_buf b)[kb_head b := c], kb_head := (kb_head b + 1) mod KB_BUFFER_SIZE\<rparr>"
  have lt: "kb_len b < 127" using False kb_len_less [of b] by linarith
  have old: "(kb_buf b)[kb_head b := c] ! ((kb_tail b + i) mod KB_BUFFER_SIZE) = kb_buf b ! ((kb_tail b + i) mod KB_BUFFER_SIZE)"
    if "i < kb_len b" for i
  proof -
    have "(kb_tail b + i) mod KB_BUFFER_SIZE \<noteq> (kb_tail b + kb_len b) mod KB_BUFFER_SIZE"
      using ring_index_inj [of "kb_tail b" KB_BUFFER_SIZE i "kb_len b"] that kb_len_less [of b] assms
      unfolding kbd_inv_def by linarith
    then show ?thesis using kb_head_eq [OF assms] by simp
  qed
  have new: "(kb_buf b)[kb_head b := c] ! ((kb_tail b + kb_len b) mod KB_BUFFER_SIZE) = c"
    using kb_head_eq [OF assms] assms by (simp add: kbd_inv_def)
  have "typed ?b = typed b @ [c]"
    unfolding typed_def kb_len_push [OF assms False] using old new by simp
  then show ?thesis using lt False kb_full [OF assms] by (simp add: buf_push_def Let_def)
qed (use kb_full [OF assms] in \<open>simp add: buf_push_def\<close>)

interpretation keys: bounded_fifo kbd_inv typed 127 buf_push kbd_poll
proof
  fix b b' :: kbd and c assume inv: "kbd_inv b"
  show "length (typed b) \<le> 127" using kb_len_less [of b] by simp
  show "kbd_inv (buf_push c b)" using inv by (simp add: kbd_inv_def buf_push_def Let_def)
  show "typed (buf_push c b) = (if length (typed b) < 127 then typed b @ [c] else typed b)"
    using buf_push_typed [OF inv] by simp
  show "(kbd_poll b = None) = (typed b = [])"
    using kb_empty [OF inv] by (simp add: kbd_poll_def typed_def)
  assume p: "kbd_poll b = Some (c, b')"
  then have ne: "kb_len b \<noteq> 0" using kb_empty [OF inv] by (auto simp: kbd_poll_def split: if_splits)
  have b': "c = kb_buf b ! kb_tail b" "b' = b\<lparr>kb_tail := (kb_tail b + 1) mod KB_BUFFER_SIZE\<rparr>"
    using p by (auto simp: kbd_poll_def split: if_splits)
  have "typed b = c # typed b'"
    unfolding typed_def kb_len_pop [OF inv ne, symmetric] b' map_upt_Suc_shift
    using inv by (simp add: mod_simps kbd_inv_def)
  then show "kbd_inv b' \<and> typed b = c # typed b'" using inv b' by (simp add: kbd_inv_def)
qed

subsection \<open>Ctrl+C\<close>

definition sigint_task :: "int \<Rightarrow> task \<Rightarrow> task" where
  "sigint_task fg t =
     (if state t = TASK_FREE \<or> pid t < 1 \<or> pgid t \<noteq> fg then t
      else if state t = TASK_BLOCKED \<and> wait_pipe t \<noteq> 0
      then t\<lparr>sig_pending := sig_pending t OR push_bit SIGINT 1, wait_pipe := 0, state := if zombie t then TASK_BLOCKED else TASK_READY\<rparr>
      else t\<lparr>sig_pending := sig_pending t OR push_bit SIGINT 1\<rparr>)"

lemma put_task_kcon [simp]: "kb (put_task i t k) = kb k" "console_fg_pgid (put_task i t k) = console_fg_pgid k" for k :: "'a kcon_scheme"
  by (simp_all add: put_task_def)

lemma sched_wake_kcon [simp]: "kb (sched_wake i k) = kb k" "console_fg_pgid (sched_wake i k) = console_fg_pgid k" for k :: "'a kcon_scheme"
  by (simp_all add: sched_wake_def Let_def)

lemma sigint_one_sel [simp]:
  "kb (sigint_one i k) = kb k" "console_fg_pgid (sigint_one i k) = console_fg_pgid k" "pipes (sigint_one i k) = pipes k"
  "length (tasks (sigint_one i k)) = length (tasks k)" "current (sigint_one i k) = current k"
  by (simp_all add: sigint_one_def Let_def)

lemma task_at_sigint_one:
  "length (tasks k) = MAX_TASKS \<Longrightarrow> i < MAX_TASKS \<Longrightarrow>
   task_at (sigint_one i k) j = (if i = j then sigint_task (console_fg_pgid k) (task_at k j) else task_at k j)"
  by (cases "i = j"; cases "state (task_at k i) = TASK_BLOCKED \<and> wait_pipe (task_at k i) \<noteq> 0")
    (simp_all add: sigint_one_def Let_def sigint_task_def sched_wake_def)

lemma fold_sigint:
  assumes "length (tasks k) = MAX_TASKS" "distinct is" "\<forall>i \<in> set is. i < MAX_TASKS"
  shows "task_at (fold sigint_one is k) j = (if j \<in> set is then sigint_task (console_fg_pgid k) (task_at k j) else task_at k j) \<and>
    kb (fold sigint_one is k) = kb k \<and> pipes (fold sigint_one is k) = pipes k"
  using assms by (induction "is" arbitrary: k) (auto simp: task_at_sigint_one)

lemma kb_upd_sel [simp]: "task_at (k\<lparr>kb := b\<rparr>) = task_at k" for k :: "'a kcon_scheme"
  by (simp add: task_at_def fun_eq_iff)

lemma raise_sigint_spec:
  assumes "length (tasks k) = MAX_TASKS"
  shows "j < MAX_TASKS \<Longrightarrow> task_at (raise_sigint k) j = sigint_task (console_fg_pgid k) (task_at k j)"
    "kb (raise_sigint k) = (kb k)\<lparr>kb_head := kb_tail (kb k)\<rparr>" "pipes (raise_sigint k) = pipes k"
proof -
  let ?k = "k\<lparr>kb := (kb k)\<lparr>kb_head := kb_tail (kb k)\<rparr>\<rparr>"
  have f: "task_at (raise_sigint k) j = (if j \<in> set [0 ..< MAX_TASKS] then sigint_task (console_fg_pgid ?k) (task_at ?k j) else task_at ?k j) \<and>
      kb (raise_sigint k) = kb ?k \<and> pipes (raise_sigint k) = pipes ?k" for j
    unfolding raise_sigint_def Let_def using assms by (intro fold_sigint) (simp_all del: upt_rec_numeral)
  show "j < MAX_TASKS \<Longrightarrow> task_at (raise_sigint k) j = sigint_task (console_fg_pgid k) (task_at k j)"
    using f [of j, THEN conjunct1] by (simp del: upt_rec_numeral)
  show "kb (raise_sigint k) = (kb k)\<lparr>kb_head := kb_tail (kb k)\<rparr>" "pipes (raise_sigint k) = pipes k"
    using f [THEN conjunct2] by simp_all
qed

subsection \<open>The abstract keyboard\<close>

text \<open>
  What the driver promises: two modifier flags and a line of characters typed ahead, at most 127 of them.
\<close>

record keyboard =
  shifting :: bool
  controlling :: bool
  pending :: string

definition kbd_abs :: "kbd \<Rightarrow> keyboard" where
  "kbd_abs b = \<lparr>shifting = shift b, controlling = ctrl b, pending = typed b\<rparr>"

definition press :: "char \<Rightarrow> keyboard \<Rightarrow> keyboard" where
  "press c a =
     (if c = CHR 0x00 then a
      else if controlling a \<and> c \<in> {CHR ''c'', CHR ''C''} then a\<lparr>pending := []\<rparr>
      else a\<lparr>pending := take 127 (pending a @ [c])\<rparr>)"

definition key_event :: "u8 \<Rightarrow> keyboard \<Rightarrow> keyboard" where
  "key_event sc a =
     (if sc \<in> {0x2A, 0x36} then a\<lparr>shifting := True\<rparr>
      else if sc \<in> {0xAA, 0xB6} then a\<lparr>shifting := False\<rparr>
      else if sc = 0x1D then a\<lparr>controlling := True\<rparr>
      else if sc = 0x9D then a\<lparr>controlling := False\<rparr>
      else if sc < 0x80 then press (translate (shifting a) sc) a else a)"

lemma kbd_flush [simp]: "kbd_inv b \<Longrightarrow> kbd_inv (b\<lparr>kb_head := kb_tail b\<rparr>)" "typed (b\<lparr>kb_head := kb_tail b\<rparr>) = []"
  by (simp_all add: kbd_inv_def typed_def kb_len_def)

lemma kbd_mod_sel [simp]:
  "typed (b\<lparr>shift := s\<rparr>) = typed b" "typed (b\<lparr>ctrl := s\<rparr>) = typed b" "kbd_inv (b\<lparr>shift := s\<rparr>) = kbd_inv b" "kbd_inv (b\<lparr>ctrl := s\<rparr>) = kbd_inv b"
  "shift (buf_push c b) = shift b" "ctrl (buf_push c b) = ctrl b"
  by (simp_all add: typed_def kb_len_def kbd_inv_def buf_push_def Let_def)

lemma kbd_press:
  assumes "kbd_inv b" shows "kbd_abs (buf_push c b) = (kbd_abs b)\<lparr>pending := take 127 (typed b @ [c])\<rparr>"
  using keys.push_contents [OF assms, of c] kb_len_less [of b] by (auto simp: kbd_abs_def)

lemma scan_press: fixes sc :: u8 shows "sc AND 0x80 = 0 \<longleftrightarrow> sc < 0x80" "sc < 0x80 \<Longrightarrow> sc AND 0x7F = sc"
proof -
  have "sc AND 2 ^ 7 = 0 \<longleftrightarrow> \<not> bit sc 7" by (rule and_exp_eq_0_iff_not_bit)
  also have "bit sc 7 \<longleftrightarrow> bit (unat sc) 7" by (simp add: bit_unsigned_iff)
  also have "\<dots> \<longleftrightarrow> odd (unat sc div 128)" by (simp add: bit_iff_odd)
  also have "\<dots> \<longleftrightarrow> \<not> unat sc < 128"
  proof -
    have "unat sc < 256" using unsigned_less [where w = sc and ?'a = nat] by simp
    then have "unat sc div 128 < 2" by (simp add: less_mult_imp_div_less)
    then show ?thesis by (auto simp: div_eq_0_iff less_2_cases_iff)
  qed
  finally show "sc AND 0x80 = 0 \<longleftrightarrow> sc < 0x80" by (simp add: word_less_nat_alt)
  assume "sc < 0x80"
  then have "take_bit 7 sc = sc" by (simp add: take_bit_eq_mod unat_mod word_unat_eq_iff word_less_nat_alt)
  then show "sc AND 0x7F = sc" by (simp add: take_bit_eq_mask mask_eq_exp_minus_1)
qed

lemma kbd_refines:
  assumes "kbd_inv (kb k)" "length (tasks k) = MAX_TASKS" "status AND 1 \<noteq> 0"
  shows "kbd_inv (kb (kbd_interrupt status sc k)) \<and> kbd_abs (kb (kbd_interrupt status sc k)) = key_event sc (kbd_abs (kb k))"
proof -
  consider "sc \<in> {0x2A, 0x36, 0xAA, 0xB6, 0x1D, 0x9D}" | (up) "sc \<notin> {0x2A, 0x36, 0xAA, 0xB6, 0x1D, 0x9D}" "\<not> sc < 0x80"
    | (down) "sc \<notin> {0x2A, 0x36, 0xAA, 0xB6, 0x1D, 0x9D}" "sc < 0x80" by blast
  then show ?thesis
  proof cases
    case 1
    then show ?thesis using assms by (auto simp: kbd_interrupt_def key_event_def kbd_abs_def)
  next
    case up
    then have "kbd_interrupt status sc k = k" using assms(3) scan_press(1) [of sc] by (simp add: kbd_interrupt_def)
    then show ?thesis using up assms(1) by (simp add: key_event_def)
  next
    case down
    let ?c = "translate (shift (kb k)) sc"
    have "kbd_interrupt status sc k = (if ?c = CHR 0x00 then k
        else if ctrl (kb k) \<and> (?c = CHR ''c'' \<or> ?c = CHR ''C'') then raise_sigint k else k\<lparr>kb := buf_push ?c (kb k)\<rparr>)"
    proof -
      have "sc AND 0x80 = 0" "sc AND 0x7F = sc" "sc \<noteq> 0xE0" using down(2) scan_press [of sc] by auto
      then show ?thesis using down(1) assms(3) by (simp add: kbd_interrupt_def Let_def)
    qed
    moreover have "key_event sc (kbd_abs (kb k)) = press ?c (kbd_abs (kb k))"
      using down by (simp add: key_event_def) (simp add: kbd_abs_def)
    moreover have "kbd_abs ((kb k)\<lparr>kb_head := kb_tail (kb k)\<rparr>) = (kbd_abs (kb k))\<lparr>pending := []\<rparr>"
      "controlling (kbd_abs (kb k)) = ctrl (kb k)" "pending (kbd_abs (kb k)) = typed (kb k)"
      by (simp_all add: kbd_abs_def)
    moreover have "kbd_inv ((kb k)\<lparr>kb_head := kb_tail (kb k)\<rparr>)" using assms(1) by simp
    moreover note raise_sigint_spec(2) [OF assms(2)] kbd_press [OF assms(1), of ?c] keys.push_inv [OF assms(1), of ?c] assms(1)
    ultimately show ?thesis unfolding press_def
      by (cases "?c = CHR 0x00"; cases "ctrl (kb k) \<and> (?c = CHR ''c'' \<or> ?c = CHR ''C'')") simp_all
  qed
qed

subsection \<open>Properties\<close>

definition two_kcon :: kcon where
  "two_kcon = ipc.extend two_ipc (kcon.fields kbd_boot 1)"

lemma two_kcon_facts: "kb two_kcon = kbd_boot" "length (tasks two_kcon) = MAX_TASKS" "console_fg_pgid two_kcon = 1"
  "task_at two_kcon = task_at two_sched"
  by (simp_all add: two_kcon_def ipc.defs kcon.defs two_ipc_def sched.defs two_sched_def task_at_def fun_eq_iff)

lemma kbd_boot_inv: "kbd_inv kbd_boot"
  by (simp add: kbd_boot_def kbd_inv_def)

lemma kbd_interrupts:
  assumes "kbd_inv (kb k)" "length (tasks k) = MAX_TASKS"
  shows "length (tasks (kbd_interrupt st sc k)) = MAX_TASKS"
proof -
  have "length (tasks (fold sigint_one is k)) = length (tasks k)" for "is" and k :: "'a kcon_scheme"
    by (induction "is" arbitrary: k) simp_all
  then have "length (tasks (raise_sigint k)) = MAX_TASKS" using assms(2) by (simp add: raise_sigint_def)
  then show ?thesis using assms(2) by (simp add: kbd_interrupt_def Let_def)
qed

text \<open>
  (C19) The keyboard driver refines the abstract keyboard: after any sequence of scan codes the modifiers and
  the characters typed ahead are the ones the abstract keyboard has, so keys come out translated, in order and
  never more than 127 ahead, later ones are dropped, Ctrl+C empties the line, and polling takes the first.
\<close>

theorem kbd_refinement:
  fixes k :: "'a kcon_scheme" and codes :: "u8 list"
  assumes "kbd_inv (kb k)" "length (tasks k) = MAX_TASKS" "status AND 1 \<noteq> 0"
  defines "k' \<equiv> fold (kbd_interrupt status) codes k"
  shows "kbd_abs (kb k') = fold key_event codes (kbd_abs (kb k)) \<and>
    (case kbd_poll (kb k') of None \<Rightarrow> pending (kbd_abs (kb k')) = []
     | Some (c, b) \<Rightarrow> kbd_abs b = (kbd_abs (kb k'))\<lparr>pending := tl (pending (kbd_abs (kb k')))\<rparr> \<and> c = hd (pending (kbd_abs (kb k'))))"
proof -
  have *: "kbd_inv (kb k') \<and> kbd_abs (kb k') = fold key_event codes (kbd_abs (kb k))"
    unfolding k'_def using assms(1,2)
  proof (induction codes arbitrary: k)
    case (Cons sc codes)
    then show ?case
      using kbd_refines [OF Cons.prems assms(3), of sc] kbd_interrupts [OF Cons.prems, of status sc]
        Cons.IH [of "kbd_interrupt status sc k"] by simp
  qed simp
  have "kbd_abs b = (kbd_abs (kb k'))\<lparr>pending := tl (pending (kbd_abs (kb k')))\<rparr> \<and> c = hd (pending (kbd_abs (kb k')))"
    if "kbd_poll (kb k') = Some (c, b)" for c b
  proof -
    have "typed (kb k') = c # typed b" using keys.pop_Some * that by blast
    moreover have "shift b = shift (kb k')" "ctrl b = ctrl (kb k')" using that by (auto simp: kbd_poll_def split: if_splits)
    ultimately show ?thesis by (simp add: kbd_abs_def)
  qed
  moreover have "pending (kbd_abs (kb k')) = []" if "kbd_poll (kb k') = None"
  proof -
    have "typed (kb k') = []" using keys.pop_None [of "kb k'"] * that by blast
    then show ?thesis by (simp add: kbd_abs_def)
  qed
  ultimately show ?thesis using * by (auto split: option.split)
qed

text \<open>Shift, h, release shift, i, Ctrl, c, release Ctrl, o, k.\<close>

theorem kbd_refinement_witness:
  "pending (kbd_abs (kb (fold (kbd_interrupt 1) [0x2A, 0x23, 0xAA, 0x17] two_kcon))) = ''Hi'' \<and>
   pending (kbd_abs (kb (fold (kbd_interrupt 1) [0x23, 0x1D, 0x2E, 0x9D, 0x18, 0x25] two_kcon))) = ''ok''"
proof -
  have a: "kbd_abs (kb two_kcon) = \<lparr>shifting = False, controlling = False, pending = []\<rparr>"
    by (simp add: kbd_abs_def two_kcon_facts kbd_boot_def typed_def kb_len_def)
  have r: "kbd_abs (kb (fold (kbd_interrupt 1) codes two_kcon)) = fold key_event codes (kbd_abs (kb two_kcon))" for codes
    using kbd_refinement [of two_kcon 1 codes] kbd_boot_inv by (simp add: two_kcon_facts)
  show ?thesis unfolding r a
    by (simp add: key_event_def press_def translate_def scancode_map_def is_lower_def Let_def) (simp add: char_of_def bit_0)
qed



end
