(* ===== verification/Vfs.thy ===== *)
theory Vfs
  imports Prelude
begin

text \<open>
  The virtual file system, \<open>kernel/src/fs/vfs.c\<close>, with the node handling of \<open>kernel/src/fs/procfs.c\<close>.
  Nodes are heap objects under their addresses.  The chain \<open>children\<close>/\<open>next_sibling\<close> of a directory is the
  list of its elements, first child first, and \<open>size\<close> is the length of the data.  The state carries the
  addresses that the next calls of \<open>kcalloc\<close> and \<open>krealloc\<close> return, 0 for a failure.  The data pointer of a
  procfs node holds a number, \<open>payload\<close>.
\<close>

subsection \<open>Nodes\<close>

abbreviation VFS_MAX_PATH :: nat where "VFS_MAX_PATH \<equiv> 256"
abbreviation VFS_MAX_NAME :: nat where "VFS_MAX_NAME \<equiv> 64"

datatype vfs_type = VFS_FILE | VFS_DIRECTORY | VFS_CHARDEV | VFS_PROCFS

datatype chardev = Dev_console | Dev_null | Dev_zero | Dev_random | Dev_net | Dev_audio

record vnode =
  vname :: string
  vtype :: vfs_type
  vdata :: "u8 list"
  payload :: u32
  vdev :: "chardev option"
  parent :: u64
  children :: "u64 list"

record vfs =
  nodes :: "u64 \<rightharpoonup> vnode"
  root :: u64
  allocs :: "u64 list"
  pool_base :: u64
  pool_used :: nat

definition zero_vnode :: vnode where
  "zero_vnode = \<lparr>vname = [], vtype = VFS_FILE, vdata = [], payload = 0, vdev = None, parent = 0, children = []\<rparr>"

definition node_at :: "vfs \<Rightarrow> u64 \<Rightarrow> vnode" where
  "node_at s p = (case nodes s p of None \<Rightarrow> zero_vnode | Some n \<Rightarrow> n)"

definition put_node :: "u64 \<Rightarrow> vnode \<Rightarrow> vfs \<Rightarrow> vfs" where
  "put_node p n s = s\<lparr>nodes := (nodes s)(p \<mapsto> n)\<rparr>"

definition next_alloc :: "vfs \<Rightarrow> u64 \<times> vfs" where
  "next_alloc s = (case allocs s of [] \<Rightarrow> (0, s) | p # ps \<Rightarrow> (p, s\<lparr>allocs := ps\<rparr>))"

text \<open>Prepending a node to the children of a directory, as every creation does.\<close>

definition link_child :: "u64 \<Rightarrow> u64 \<Rightarrow> vfs \<Rightarrow> vfs" where
  "link_child d p s =
     (let s = put_node p ((node_at s p)\<lparr>parent := d\<rparr>) s
      in put_node d ((node_at s d)\<lparr>children := p # children (node_at s d)\<rparr>) s)"

definition find_child :: "vfs \<Rightarrow> u64 \<Rightarrow> string \<Rightarrow> u64 option" where
  "find_child s d nm = find (\<lambda>c. vname (node_at s c) = nm) (children (node_at s d))"

definition vfs_create_node :: "string \<Rightarrow> vfs_type \<Rightarrow> vfs \<Rightarrow> u64 \<times> vfs" where
  "vfs_create_node nm ty s =
     (let (p, s) = next_alloc s
      in if p = 0 then (0, s)
         else (p, put_node p (zero_vnode\<lparr>vname := take (VFS_MAX_NAME - 1) nm, vtype := ty, vdev := None\<rparr>) s))"

definition vfs_get_or_create_dir :: "u64 \<Rightarrow> string \<Rightarrow> vfs \<Rightarrow> u64 \<times> vfs" where
  "vfs_get_or_create_dir d nm s =
     (case find_child s d nm of
        Some c \<Rightarrow> (c, s)
      | None \<Rightarrow> let (p, s) = vfs_create_node nm VFS_DIRECTORY s
                in if p = 0 then (0, s) else (p, link_child d p s))"

subsection \<open>Paths\<close>

abbreviation slash :: char where "slash \<equiv> CHR ''/''"

function vfs_ensure_path :: "u64 \<Rightarrow> string \<Rightarrow> vfs \<Rightarrow> u64 \<times> vfs" where
  "vfs_ensure_path cur path s =
     (let token = takeWhile (\<lambda>c. c \<noteq> slash) path
      in case dropWhile (\<lambda>c. c \<noteq> slash) path of
           [] \<Rightarrow> if token \<noteq> [] then vfs_get_or_create_dir cur token s else (cur, s)
         | _ # rest \<Rightarrow>
             if token \<noteq> []
             then let (d, s) = vfs_get_or_create_dir cur token s
                  in if d = 0 then (0, s) else vfs_ensure_path d rest s
             else vfs_ensure_path cur rest s)"
  by pat_completeness auto
termination
proof (relation "measure (\<lambda>(_, p, _). length p)", goal_cases)
  case (2 cur path s token x rest y d s')
  then show ?case using length_dropWhile_le [of "\<lambda>c. c \<noteq> slash" path] by (metis Suc_le_eq case_prod_conv in_measure length_Cons)
next
  case (3 cur path s token x rest)
  then show ?case using length_dropWhile_le [of "\<lambda>c. c \<noteq> slash" path] by (metis Suc_le_eq case_prod_conv in_measure length_Cons)
qed simp

declare vfs_ensure_path.simps [simp del]

text \<open>\<open>strrchr\<close>: what precedes and what follows the last slash.\<close>

definition split_last :: "string \<Rightarrow> (string \<times> string) option" where
  "split_last p =
     (if slash \<notin> set p then None
      else Some (rev (tl (dropWhile (\<lambda>c. c \<noteq> slash) (rev p))), rev (takeWhile (\<lambda>c. c \<noteq> slash) (rev p))))"

definition add_file :: "u64 \<Rightarrow> string \<Rightarrow> vfs \<Rightarrow> u64 \<times> vfs" where
  "add_file d nm s =
     (case find_child s d nm of
        Some c \<Rightarrow> (c, s)
      | None \<Rightarrow> let (p, s) = vfs_create_node nm VFS_FILE s
                in if p = 0 then (0, s) else (p, link_child d p s))"

definition vfs_create_file :: "string \<Rightarrow> vfs \<Rightarrow> u64 \<times> vfs" where
  "vfs_create_file path s =
     (if root s = 0 \<or> path = [] \<or> hd path \<noteq> slash then (0, s)
      else case split_last (take (VFS_MAX_PATH - 1) path) of
             None \<Rightarrow> (0, s)
           | Some (dir, nm) \<Rightarrow>
               if dir = [] then add_file (root s) nm s
               else let (d, s) = vfs_ensure_path (root s) (tl dir) s
                    in if d = 0 then (0, s) else add_file d nm s)"

subsection \<open>Procfs nodes\<close>

abbreviation PF_MEMINFO :: u32 where "PF_MEMINFO \<equiv> 1"
abbreviation PF_UPTIME :: u32 where "PF_UPTIME \<equiv> 2"
abbreviation PF_STAT :: u32 where "PF_STAT \<equiv> 3"
abbreviation PF_STATUS :: u32 where "PF_STATUS \<equiv> 4"
abbreviation PF_CMDLINE :: u32 where "PF_CMDLINE \<equiv> 5"
abbreviation PROCFS_POOL :: nat where "PROCFS_POOL \<equiv> 32"

text \<open>The address of a slot of the static pool; a node has 120 bytes.\<close>

definition pool_slot :: "vfs \<Rightarrow> nat \<Rightarrow> u64" where
  "pool_slot s i = pool_base s + of_nat (120 * i)"

definition make_node :: "u64 \<Rightarrow> string \<Rightarrow> u32 \<Rightarrow> vfs \<Rightarrow> u64 \<times> vfs" where
  "make_node d nm pl s =
     (if pool_used s \<ge> PROCFS_POOL then (0, s)
      else let n = pool_slot s (pool_used s);
               s = s\<lparr>pool_used := pool_used s + 1\<rparr>;
               s = put_node n (zero_vnode\<lparr>vname := take (VFS_MAX_NAME - 1) nm, vtype := VFS_PROCFS, payload := pl\<rparr>) s
           in (n, link_child d n s))"

definition procfs_mount :: "u64 \<Rightarrow> vfs \<Rightarrow> vfs" where
  "procfs_mount d s =
     (let s = snd (make_node d ''meminfo'' PF_MEMINFO s);
          s = snd (make_node d ''uptime'' PF_UPTIME s)
      in snd (make_node d ''stat'' PF_STAT s))"

text \<open>The decimal number a component stands for, in 32 bits.\<close>

fun parse_pid :: "u32 \<Rightarrow> string \<Rightarrow> u32 option" where
  "parse_pid v [] = Some v"
| "parse_pid v (c # cs) =
     (if of_char c < (48 :: nat) \<or> of_char c > (57 :: nat) then None
      else parse_pid (v * 10 + of_nat (of_char c - 48)) cs)"

definition procfs_resolve :: "(int \<Rightarrow> bool) \<Rightarrow> u64 \<Rightarrow> string \<Rightarrow> vfs \<Rightarrow> u64 \<times> vfs" where
  "procfs_resolve alive d cname s =
     (let base = payload (node_at s d); kind = base AND 0xFF; dpid = drop_bit 8 base
      in if kind = PF_STATUS \<or> kind = PF_CMDLINE
         then if cname = ''cmdline''
              then (d, put_node d ((node_at s d)\<lparr>vname := ''cmdline'', payload := push_bit 8 dpid OR PF_CMDLINE\<rparr>) s)
              else if cname = ''status'' then (d, s) else (0, s)
         else if cname = ''meminfo'' \<or> cname = ''uptime'' \<or> cname = ''stat''
         then (case find_child s d cname of Some c \<Rightarrow> (c, s) | None \<Rightarrow> (0, s))
         else case parse_pid 0 cname of
                None \<Rightarrow> (0, s)
              | Some pid \<Rightarrow> if pid = 0 \<or> \<not> alive (sint pid) then (0, s)
                            else make_node d ''status'' (push_bit 8 pid OR PF_STATUS) s)"

subsection \<open>Looking up and mounting\<close>

text \<open>The next component, at most 63 characters; a slash after it is skipped.\<close>

definition next_component :: "string \<Rightarrow> string \<times> string" where
  "next_component p =
     (let cname = take (VFS_MAX_NAME - 1) (takeWhile (\<lambda>c. c \<noteq> slash) p); r = drop (length cname) p
      in (cname, if r \<noteq> [] \<and> hd r = slash then tl r else r))"

lemma next_component_less: "(c, r) = next_component p \<Longrightarrow> p \<noteq> [] \<Longrightarrow> length r < length p"
  by (cases p) (auto simp: next_component_def Let_def)

function vfs_walk :: "(int \<Rightarrow> bool) \<Rightarrow> u64 \<Rightarrow> string \<Rightarrow> vfs \<Rightarrow> u64 \<times> vfs" where
  "vfs_walk alive cur p s =
     (if p = [] then (cur, s)
      else let (cname, r) = next_component p
           in if cname = [] then vfs_walk alive cur r s
              else if vtype (node_at s cur) = VFS_PROCFS
              then let (out, s) = procfs_resolve alive cur cname s
                   in if out = 0 then (0, s) else vfs_walk alive out r s
              else case find_child s cur cname of
                     None \<Rightarrow> (0, s)
                   | Some c \<Rightarrow> vfs_walk alive c r s)"
  by pat_completeness auto
termination
  by (relation "measure (\<lambda>(_, _, p, _). length p)") (auto intro: next_component_less)

declare vfs_walk.simps [simp del]

definition vfs_resolve :: "(int \<Rightarrow> bool) \<Rightarrow> string \<Rightarrow> vfs \<Rightarrow> u64 \<times> vfs" where
  "vfs_resolve alive path s =
     (if root s = 0 then (0, s)
      else if path = [] \<or> hd path \<noteq> slash then (0, s)
      else if tl path = [] then (root s, s)
      else vfs_walk alive (root s) (tl path) s)"

definition vfs_init :: "vfs \<Rightarrow> vfs" where
  "vfs_init s = (let (r, s) = vfs_create_node ''/'' VFS_DIRECTORY s in s\<lparr>root := r\<rparr>)"

definition vfs_mount_dev :: "(int \<Rightarrow> bool) \<Rightarrow> string \<Rightarrow> chardev \<Rightarrow> vfs \<Rightarrow> vfs" where
  "vfs_mount_dev alive nm dev s =
     (let (devdir, s) = vfs_resolve alive ''/dev'' s;
          (devdir, s) =
            (if devdir \<noteq> 0 then (devdir, s)
             else let (r, s) = vfs_resolve alive ''/'' s
                  in if r = 0 then (0, s)
                     else let (d, s) = vfs_create_node ''dev'' VFS_DIRECTORY s
                          in if d = 0 then (0, s) else (d, link_child r d s))
      in if devdir = 0 then s
         else let (n, s) = vfs_create_node nm VFS_CHARDEV s
              in if n = 0 then s
                 else link_child devdir n (put_node n ((node_at s n)\<lparr>vdev := Some dev\<rparr>) s))"

definition vfs_mount_procfs :: "(int \<Rightarrow> bool) \<Rightarrow> vfs \<Rightarrow> vfs" where
  "vfs_mount_procfs alive s =
     (let (r, s) = vfs_resolve alive ''/'' s
      in if r = 0 then s
         else let (n, s) = vfs_create_node ''proc'' VFS_PROCFS s
              in if n = 0 then s else procfs_mount n (link_child r n s))"

definition devfs_init :: "(int \<Rightarrow> bool) \<Rightarrow> vfs \<Rightarrow> vfs" where
  "devfs_init alive s =
     vfs_mount_dev alive ''random'' Dev_random (vfs_mount_dev alive ''zero'' Dev_zero
       (vfs_mount_dev alive ''null'' Dev_null (vfs_mount_dev alive ''console'' Dev_console s)))"

subsection \<open>Reading and writing\<close>

text \<open>The C conversion of a length to \<open>int\<close>.\<close>

definition c_int :: "nat \<Rightarrow> int" where
  "c_int n = sint (of_nat n :: u32)"

lemma c_int_id: "n < 2 ^ 31 \<Longrightarrow> c_int n = int n"
  by (simp add: c_int_def signed_of_nat) (simp add: signed_take_bit_int_eq_self_iff)

text \<open>What reading a procfs node gives is an argument.\<close>

definition vfs_read :: "(vnode \<Rightarrow> nat \<Rightarrow> nat \<Rightarrow> int \<times> u8 list) \<Rightarrow> u64 \<Rightarrow> nat \<Rightarrow> nat \<Rightarrow> vfs \<Rightarrow> int \<times> u8 list" where
  "vfs_read proc p sz off s =
     (if p = 0 then (-1, [])
      else let n = node_at s p
           in if vtype n = VFS_PROCFS then proc n sz off
              else if vtype n \<noteq> VFS_FILE then (-1, [])
              else if off \<ge> length (vdata n) then (0, [])
              else let available = length (vdata n) - off; to_read = (if sz < available then sz else available)
                   in (c_int to_read, take to_read (drop off (vdata n))))"

text \<open>
  Growing a file moves its data to a new block: the old bytes, then zeros up to the offset, then whatever the
  block holds, which the copy that follows overwrites.
\<close>

definition grown :: "u8 list \<Rightarrow> nat \<Rightarrow> nat \<Rightarrow> u8 list" where
  "grown d off end' = take end' (d @ replicate (off - length d) 0 @ replicate (end' - length d - (off - length d)) 0)"

definition overwrite :: "u8 list \<Rightarrow> nat \<Rightarrow> u8 list \<Rightarrow> u8 list" where
  "overwrite d off buf = take off d @ buf @ drop (off + length buf) d"

definition vfs_write :: "u64 \<Rightarrow> u8 list \<Rightarrow> nat \<Rightarrow> vfs \<Rightarrow> int \<times> vfs" where
  "vfs_write p buf off s =
     (if p = 0 \<or> vtype (node_at s p) \<noteq> VFS_FILE then (-1, s)
      else let n = node_at s p; end' = off + length buf
           in if end' > length (vdata n)
              then let (g, s) = next_alloc s
                   in if g = 0 then (-1, s)
                      else (c_int (length buf), put_node p (n\<lparr>vdata := overwrite (grown (vdata n) off end') off buf\<rparr>) s)
              else (c_int (length buf), put_node p (n\<lparr>vdata := overwrite (vdata n) off buf\<rparr>) s))"

subsection \<open>The initial archive\<close>

abbreviation TAR_BLOCK :: nat where "TAR_BLOCK \<equiv> 512"

definition tar_parse_octal :: "u8 list \<Rightarrow> nat" where
  "tar_parse_octal str = foldl (\<lambda>v c. v * 8 + (unat c - 48)) 0 (takeWhile (\<lambda>c. 48 \<le> c \<and> c \<le> 55) str)"

definition mem_bytes :: "(nat \<Rightarrow> u8) \<Rightarrow> nat \<Rightarrow> nat \<Rightarrow> u8 list" where
  "mem_bytes m p n = map (\<lambda>i. m (p + i)) [0 ..< n]"

text \<open>
  A header: the name, from its first byte up to a NUL, which is taken to lie inside the header; the size field at
  offset 124 and the type flag at 156.
\<close>

definition tar_name :: "(nat \<Rightarrow> u8) \<Rightarrow> nat \<Rightarrow> string" where
  "tar_name m p = map (\<lambda>b. char_of (unat b)) (takeWhile (\<lambda>b. b \<noteq> 0) (mem_bytes m p TAR_BLOCK))"

definition tar_size :: "(nat \<Rightarrow> u8) \<Rightarrow> nat \<Rightarrow> nat" where
  "tar_size m p = tar_parse_octal (mem_bytes m (p + 124) 12)"

definition tar_advance :: "nat \<Rightarrow> nat" where
  "tar_advance sz = TAR_BLOCK + (sz + TAR_BLOCK - 1) div TAR_BLOCK * TAR_BLOCK"

definition tar_strip :: "string \<Rightarrow> string" where
  "tar_strip nm = (if take 2 nm = ''./'' then drop 2 nm else nm)"

definition tar_dir :: "string \<Rightarrow> vfs \<Rightarrow> bool \<times> vfs" where
  "tar_dir nm s =
     (let path = take (VFS_MAX_PATH - 1) nm;
          path = (if path \<noteq> [] \<and> last path = slash then butlast path else path);
          (d, s) = vfs_ensure_path (root s) path s
      in (d \<noteq> 0, s))"

definition tar_file :: "(nat \<Rightarrow> u8) \<Rightarrow> nat \<Rightarrow> nat \<Rightarrow> string \<Rightarrow> vfs \<Rightarrow> bool \<times> vfs" where
  "tar_file m p sz nm s =
     (let path = take (VFS_MAX_PATH - 1) nm;
          (d, filename, s) =
            (case split_last path of
               None \<Rightarrow> (root s, path, s)
             | Some (dir, f) \<Rightarrow> (let (d, s) = vfs_ensure_path (root s) dir s in (d, f, s)))
      in if d = 0 then (False, s)
         else let (f, s) = vfs_create_node filename VFS_FILE s
              in if f = 0 then (True, s)
                 else let (g, s) = next_alloc s
                      in if g = 0 then (True, s)
                         else (True, link_child d f (put_node f ((node_at s f)\<lparr>vdata := mem_bytes m (p + TAR_BLOCK) sz\<rparr>) s)))"

definition tar_entry :: "(nat \<Rightarrow> u8) \<Rightarrow> nat \<Rightarrow> vfs \<Rightarrow> bool \<times> vfs" where
  "tar_entry m p s =
     (let nm = tar_strip (tar_name m p); sz = tar_size m p; flag = m (p + 156)
      in if nm = [] then (True, s)
         else if flag = 53 \<or> last nm = slash then tar_dir nm s
         else if flag = 48 \<or> flag = 0 then tar_file m p sz nm s
         else (True, s))"

function tar_loop :: "(nat \<Rightarrow> u8) \<Rightarrow> nat \<Rightarrow> nat \<Rightarrow> vfs \<Rightarrow> bool \<times> vfs" where
  "tar_loop m p end' s =
     (if p + TAR_BLOCK > end' then (True, s)
      else if m p = 0 then (True, s)
      else let (ok, s) = tar_entry m p s
           in if \<not> ok then (False, s) else tar_loop m (p + tar_advance (tar_size m p)) end' s)"
  by pat_completeness auto
termination
  by (relation "measure (\<lambda>(m, p, e, s). e - p)") (auto simp: tar_advance_def)

declare tar_loop.simps [simp del]

definition vfs_load_initrd :: "(nat \<Rightarrow> u8) \<Rightarrow> nat \<Rightarrow> nat \<Rightarrow> vfs \<Rightarrow> bool \<times> vfs" where
  "vfs_load_initrd m addr sz s =
     (let (ok, s) =
        (if root s = 0
         then let (r, s) = vfs_create_node ''/'' VFS_DIRECTORY s in (r \<noteq> 0, s\<lparr>root := r\<rparr>)
         else (True, s))
      in if \<not> ok then (False, s) else tar_loop m addr (addr + sz) s)"

subsection \<open>The tree\<close>

definition tree_ok :: "vfs \<Rightarrow> bool" where
  "tree_ok s \<longleftrightarrow> nodes s 0 = None \<and> nodes s (root s) \<noteq> None \<and> parent (node_at s (root s)) = 0 \<and>
     (\<forall>d c. c \<in> set (children (node_at s d)) \<longrightarrow> nodes s c \<noteq> None \<and> parent (node_at s c) = d)"

definition alloc_ok :: "vfs \<Rightarrow> bool" where
  "alloc_ok s \<longleftrightarrow> (\<forall>p \<in> set (allocs s). p \<noteq> 0 \<longrightarrow> nodes s p = None) \<and> distinct (filter (\<lambda>p. p \<noteq> 0) (allocs s))"

lemma node_at_simps [simp]:
  "node_at (put_node p n s) x = (if x = p then n else node_at s x)"
  "nodes (put_node p n s) = (nodes s)(p \<mapsto> n)" "root (put_node p n s) = root s" "allocs (put_node p n s) = allocs s"
  "pool_used (put_node p n s) = pool_used s" "pool_base (put_node p n s) = pool_base s"
  "node_at (s\<lparr>allocs := a\<rparr>) = node_at s" "node_at (s\<lparr>root := r\<rparr>) = node_at s" "node_at (s\<lparr>pool_used := u\<rparr>) = node_at s"
  by (simp_all add: node_at_def put_node_def fun_eq_iff)

lemma node_at_None: "nodes s p = None \<Longrightarrow> node_at s p = zero_vnode"
  by (simp add: node_at_def)

lemma find_child_upd [simp]:
  "find_child (s\<lparr>allocs := a\<rparr>) = find_child s" "find_child (s\<lparr>pool_used := u\<rparr>) = find_child s"
  by (simp_all add: find_child_def fun_eq_iff)

lemma tree_ok_child: "tree_ok s \<Longrightarrow> c \<in> set (children (node_at s d)) \<Longrightarrow> nodes s c \<noteq> None \<and> parent (node_at s c) = d"
  unfolding tree_ok_def by blast

lemma find_child_in: "find_child s d nm = Some c \<Longrightarrow> c \<in> set (children (node_at s d)) \<and> vname (node_at s c) = nm"
  by (auto simp: find_child_def find_Some_iff)

text \<open>Attaching a new node to a directory.\<close>

definition attach :: "u64 \<Rightarrow> u64 \<Rightarrow> vnode \<Rightarrow> vfs \<Rightarrow> vfs" where
  "attach d p n s = link_child d p (put_node p n s)"

lemma attach_sel [simp]:
  "root (attach d p n s) = root s" "allocs (attach d p n s) = allocs s" "pool_used (attach d p n s) = pool_used s"
  "pool_base (attach d p n s) = pool_base s"
  by (simp_all add: attach_def link_child_def Let_def)

lemma attach_nodes: "nodes (attach d p n s) x = None \<longleftrightarrow> nodes s x = None \<and> x \<noteq> p \<and> x \<noteq> d"
  by (auto simp: attach_def link_child_def Let_def)

lemma attach_node_at: "p \<noteq> d \<Longrightarrow> node_at (attach d p n s) x =
    (if x = d then (node_at s d)\<lparr>children := p # children (node_at s d)\<rparr> else if x = p then n\<lparr>parent := d\<rparr> else node_at s x)"
  by (simp add: attach_def link_child_def Let_def)

lemma attach_tree:
  assumes "tree_ok s" "nodes s p = None" "p \<noteq> 0" "nodes s d \<noteq> None" "children n = []"
  shows "tree_ok (attach d p n s)"
proof -
  have pd: "p \<noteq> d" using assms(2,4) by auto
  have old: "p \<notin> set (children (node_at s x))" for x using tree_ok_child [OF assms(1), of p x] assms(2) by auto
  have "nodes (attach d p n s) c \<noteq> None \<and> parent (node_at (attach d p n s) c) = x"
    if "c \<in> set (children (node_at (attach d p n s) x))" for c x
  proof -
    have x: "c \<in> set (children (node_at s x)) \<or> (c = p \<and> x = d)" using that pd assms(5) by (auto simp: attach_node_at split: if_splits)
    then show ?thesis
      using tree_ok_child [OF assms(1), of c x] old [of x] pd by (auto simp: attach_nodes attach_node_at)
  qed
  moreover have "root s \<noteq> p" "0 \<noteq> d" using assms unfolding tree_ok_def by auto
  moreover have "nodes (attach d p n s) 0 = None" "nodes (attach d p n s) (root s) \<noteq> None" "parent (node_at (attach d p n s) (root s)) = 0"
    using assms(1,3) pd \<open>root s \<noteq> p\<close> \<open>0 \<noteq> d\<close> unfolding tree_ok_def by (auto simp: attach_nodes attach_node_at)
  ultimately show ?thesis unfolding tree_ok_def by simp
qed

lemma attach_find:
  assumes "tree_ok s" "nodes s p = None" "nodes s d \<noteq> None" "x \<noteq> p"
  shows "find_child (attach d p n s) x nm = (if x = d \<and> vname n = nm then Some p else find_child s x nm)"
proof -
  have pd: "p \<noteq> d" using assms(2,3) by auto
  have old: "c \<noteq> p" if "c \<in> set (children (node_at s x))" for c x using tree_ok_child [OF assms(1) that] assms(2) by auto
  have vn: "vname (node_at (attach d p n s) c) = vname (node_at s c)" if "c \<noteq> p" for c
    using that pd by (simp add: attach_node_at)
  have "find (\<lambda>c. vname (node_at (attach d p n s) c) = nm) (children (node_at s x)) = find (\<lambda>c. vname (node_at s c) = nm) (children (node_at s x))"
    by (rule find_cong) (use old vn in auto)
  moreover have "children (node_at (attach d p n s) x) = (if x = d then p # children (node_at s x) else children (node_at s x))"
    using assms(4) pd by (simp add: attach_node_at)
  moreover have "vname (node_at (attach d p n s) p) = vname n" using pd by (simp add: attach_node_at)
  ultimately show ?thesis by (cases "x = d") (simp_all add: find_child_def)
qed

text \<open>A file system extends another one: old nodes keep what they are, and whatever was found is found again.\<close>

definition extends :: "vfs \<Rightarrow> vfs \<Rightarrow> bool" where
  "extends s s' \<longleftrightarrow> root s' = root s \<and>
     (\<forall>x. nodes s x \<noteq> None \<longrightarrow> nodes s' x \<noteq> None \<and> vtype (node_at s' x) = vtype (node_at s x) \<and>
        vdata (node_at s' x) = vdata (node_at s x) \<and> vname (node_at s' x) = vname (node_at s x)) \<and>
     (\<forall>x nm c. find_child s x nm = Some c \<longrightarrow> find_child s' x nm = Some c)"

lemma extends_refl: "extends s s"
  by (simp add: extends_def)

lemma extends_trans: "extends s t \<Longrightarrow> extends t u \<Longrightarrow> extends s u"
  unfolding extends_def by metis

lemma extends_allocs: "extends s (s\<lparr>allocs := a\<rparr>)"
  by (simp add: extends_def)

lemma attach_extends:
  assumes "tree_ok s" "nodes s p = None" "nodes s d \<noteq> None" "find_child s d (vname n) = None"
  shows "extends s (attach d p n s)"
proof -
  have pd: "p \<noteq> d" using assms(2,3) by auto
  have "find_child (attach d p n s) x nm = Some c" if "find_child s x nm = Some c" for x nm c
  proof -
    have "x \<noteq> p" using find_child_in [OF that] assms(2) node_at_None [of s p] by (auto simp: zero_vnode_def)
    then show ?thesis using attach_find [OF assms(1-3)] that assms(4) by auto
  qed
  then show ?thesis using assms(2) pd by (auto simp: extends_def attach_nodes attach_node_at)
qed

fun walk :: "vfs \<Rightarrow> u64 \<Rightarrow> string list \<Rightarrow> u64 option" where
  "walk s cur [] = Some cur"
| "walk s cur (c # cs) = (case find_child s cur c of None \<Rightarrow> None | Some x \<Rightarrow> walk s x cs)"

lemma walk_extends: "extends s s' \<Longrightarrow> walk s cur cs = Some d \<Longrightarrow> walk s' cur cs = Some d"
  by (induction cs arbitrary: cur) (auto simp: extends_def split: option.splits)

lemma walk_append: "walk s cur (cs @ ds) = (case walk s cur cs of None \<Rightarrow> None | Some d \<Rightarrow> walk s d ds)"
  by (induction cs arbitrary: cur) (auto split: option.split)

subsection \<open>Creating a file makes its path resolve to it\<close>

definition good_name :: "string \<Rightarrow> bool" where
  "good_name c \<longleftrightarrow> c \<noteq> [] \<and> slash \<notin> set c \<and> length c < VFS_MAX_NAME"

definition path_of :: "string list \<Rightarrow> string" where
  "path_of cs = concat (map (\<lambda>c. slash # c) cs)"

lemma path_of_simps [simp]: "path_of [] = []" "path_of (c # cs) = slash # c @ path_of cs" "path_of (cs @ ds) = path_of cs @ path_of ds"
  by (simp_all add: path_of_def)

lemma span_slash:
  "slash \<notin> set c \<Longrightarrow> takeWhile (\<lambda>x. x \<noteq> slash) (c @ path_of cs) = c" "slash \<notin> set c \<Longrightarrow> dropWhile (\<lambda>x. x \<noteq> slash) (c @ path_of cs) = path_of cs"
proof -
  assume "slash \<notin> set c"
  then have p: "\<And>x. x \<in> set c \<Longrightarrow> x \<noteq> slash" by auto
  have "takeWhile (\<lambda>x. x \<noteq> slash) (path_of cs) = []" "dropWhile (\<lambda>x. x \<noteq> slash) (path_of cs) = path_of cs"
    by (cases cs; simp)+
  then show "takeWhile (\<lambda>x. x \<noteq> slash) (c @ path_of cs) = c" "dropWhile (\<lambda>x. x \<noteq> slash) (c @ path_of cs) = path_of cs"
    using p by (simp_all add: takeWhile_append2 dropWhile_append2)
qed

text \<open>The state both creations leave: sound, larger, and with the child in place.\<close>

definition grows :: "vfs \<Rightarrow> u64 \<Rightarrow> string \<Rightarrow> u64 \<Rightarrow> vfs \<Rightarrow> bool" where
  "grows s d nm p s' \<longleftrightarrow> tree_ok s' \<and> alloc_ok s' \<and> extends s s' \<and> find_child s' d nm = Some p \<and> nodes s' p \<noteq> None"

lemma next_alloc_ok:
  assumes "alloc_ok s" "next_alloc s = (p, s1)" "p \<noteq> 0"
  shows "nodes s p = None" "p \<notin> set (allocs s1)" "\<exists>a. s1 = s\<lparr>allocs := a\<rparr>" "alloc_ok s1"
  using assms by (auto simp: next_alloc_def alloc_ok_def split: list.splits)

lemma create_child:
  assumes s: "tree_ok s" "alloc_ok s" and d: "nodes s d \<noteq> None" and nm: "length nm < VFS_MAX_NAME"
    and new: "find_child s d nm = None" "vfs_create_node nm ty s = (p, s1)" "p \<noteq> 0"
  shows "grows s d nm p (link_child d p s1)" "vtype (node_at (link_child d p s1) p) = ty"
proof -
  obtain s0 where a: "next_alloc s = (p, s0)"
    "s1 = put_node p (zero_vnode\<lparr>vname := take (VFS_MAX_NAME - 1) nm, vtype := ty, vdev := None\<rparr>) s0"
    using new(2,3) by (auto simp: vfs_create_node_def split: prod.splits if_splits)
  note al = next_alloc_ok [OF s(2) a(1) new(3)]
  define n where "n = zero_vnode\<lparr>vname := nm, vtype := ty, vdev := None\<rparr>"
  have "take (VFS_MAX_NAME - 1) nm = nm" using nm by simp
  then have eq: "link_child d p s1 = attach d p n s0" using a(2) by (simp add: attach_def n_def)
  obtain al' where s0: "s0 = s\<lparr>allocs := al'\<rparr>" using al(3) by blast
  have t0: "tree_ok s0" "nodes s0 p = None" "nodes s0 d \<noteq> None" "find_child s0 d (vname n) = None"
    using s(1) d al(1) new(1) unfolding s0 by (simp_all add: tree_ok_def n_def)
  have pd: "p \<noteq> d" using t0 by auto
  have "extends s (attach d p n s0)"
    using attach_extends [OF t0] extends_trans [OF extends_allocs [of s al']] s0 by blast
  moreover have "tree_ok (attach d p n s0)" using attach_tree [OF t0(1,2) new(3) t0(3)] by (simp add: n_def zero_vnode_def)
  moreover have "alloc_ok (attach d p n s0)" using al(2,4) t0(3) unfolding alloc_ok_def by (auto simp: attach_nodes)
  moreover have "find_child (attach d p n s0) d nm = Some p" using attach_find [OF t0(1-3), of d] pd by (simp add: n_def)
  ultimately show "grows s d nm p (link_child d p s1)" unfolding eq grows_def by (simp add: attach_nodes)
  show "vtype (node_at (link_child d p s1) p) = ty" unfolding eq using pd by (simp add: attach_node_at n_def)
qed

lemma get_or_create_grows:
  assumes "tree_ok s" "alloc_ok s" "nodes s d \<noteq> None" "length nm < VFS_MAX_NAME"
    "vfs_get_or_create_dir d nm s = (p, s')" "p \<noteq> 0"
  shows "grows s d nm p s'"
proof (cases "find_child s d nm")
  case (Some c)
  then have "p = c" "s' = s" using assms(5) by (auto simp: vfs_get_or_create_dir_def)
  then show ?thesis using Some assms find_child_in [OF Some] tree_ok_child [OF assms(1)] by (auto simp: grows_def extends_refl)
next
  case None
  then show ?thesis using assms create_child(1) [OF assms(1-4) None]
    by (auto simp: vfs_get_or_create_dir_def split: prod.splits if_splits)
qed

lemma add_file_grows:
  assumes "tree_ok s" "alloc_ok s" "nodes s d \<noteq> None" "length nm < VFS_MAX_NAME" "add_file d nm s = (p, s')" "p \<noteq> 0"
  shows "grows s d nm p s'"
proof (cases "find_child s d nm")
  case (Some c)
  then have "p = c" "s' = s" using assms(5) by (auto simp: add_file_def)
  then show ?thesis using Some assms find_child_in [OF Some] tree_ok_child [OF assms(1)] by (auto simp: grows_def extends_refl)
next
  case None
  then show ?thesis using assms create_child(1) [OF assms(1-4) None]
    by (auto simp: add_file_def split: prod.splits if_splits)
qed

lemma ensure_path_step:
  assumes "good_name c"
  shows "vfs_ensure_path cur (c @ path_of cs) s =
    (case cs of
       [] \<Rightarrow> vfs_get_or_create_dir cur c s
     | c1 # ds \<Rightarrow> let (x, s) = vfs_get_or_create_dir cur c s in if x = 0 then (0, s) else vfs_ensure_path x (c1 @ path_of ds) s)"
proof -
  have c: "c \<noteq> []" "slash \<notin> set c" using assms by (auto simp: good_name_def)
  show ?thesis
    unfolding vfs_ensure_path.simps [of cur "c @ path_of cs"] span_slash [OF c(2)] using c(1) by (cases cs) simp_all
qed

lemma ensure_path_walk:
  assumes "\<forall>c \<in> set (c0 # cs). good_name c" "tree_ok s" "alloc_ok s" "nodes s cur \<noteq> None"
    "vfs_ensure_path cur (c0 @ path_of cs) s = (d, s')" "d \<noteq> 0"
  shows "tree_ok s' \<and> alloc_ok s' \<and> extends s s' \<and> walk s' cur (c0 # cs) = Some d \<and> nodes s' d \<noteq> None"
  using assms
proof (induction cs arbitrary: c0 cur s)
  case Nil
  then have "vfs_get_or_create_dir cur c0 s = (d, s')"
    using ensure_path_step [of c0 cur "[]" s] by simp
  then have "grows s cur c0 d s'" using get_or_create_grows Nil by (simp add: good_name_def)
  then show ?case by (simp add: grows_def)
next
  case (Cons c1 cs)
  obtain x s1 where g: "vfs_get_or_create_dir cur c0 s = (x, s1)" by (cases "vfs_get_or_create_dir cur c0 s")
  have c0: "good_name c0" using Cons.prems(1) by simp
  have step: "vfs_ensure_path cur (c0 @ path_of (c1 # cs)) s = (if x = 0 then (0, s1) else vfs_ensure_path x (c1 @ path_of cs) s1)"
    using ensure_path_step [OF c0, of cur "c1 # cs" s] g by simp
  then have x: "x \<noteq> 0" "vfs_ensure_path x (c1 @ path_of cs) s1 = (d, s')" using Cons.prems(5,6) by (auto split: if_splits)
  have gr: "grows s cur c0 x s1" using get_or_create_grows [OF Cons.prems(2-4) _ g x(1)] c0 by (simp add: good_name_def)
  have IH: "tree_ok s' \<and> alloc_ok s' \<and> extends s1 s' \<and> walk s' x (c1 # cs) = Some d \<and> nodes s' d \<noteq> None"
    using Cons.IH [OF _ _ _ _ x(2) Cons.prems(6)] gr Cons.prems(1) by (simp add: grows_def)
  moreover have "find_child s' cur c0 = Some x" using gr IH by (auto simp: grows_def extends_def)
  moreover have "extends s s'" using gr IH extends_trans by (auto simp: grows_def)
  ultimately show ?case by simp
qed

lemma split_last_path: "slash \<notin> set c \<Longrightarrow> split_last (p @ slash # c) = Some (p, c)"
proof -
  assume c: "slash \<notin> set c"
  then have "takeWhile (\<lambda>x. x \<noteq> slash) (rev c @ slash # rev p) = rev c @ takeWhile (\<lambda>x. x \<noteq> slash) (slash # rev p)"
    "dropWhile (\<lambda>x. x \<noteq> slash) (rev c @ slash # rev p) = dropWhile (\<lambda>x. x \<noteq> slash) (slash # rev p)"
    by (intro takeWhile_append2 dropWhile_append2; auto)+
  then show ?thesis by (simp add: split_last_def)
qed

text \<open>No directory on the way belongs to procfs.\<close>

fun proc_free :: "vfs \<Rightarrow> u64 \<Rightarrow> string list \<Rightarrow> bool" where
  "proc_free s cur [] = True"
| "proc_free s cur (c # cs) = (vtype (node_at s cur) \<noteq> VFS_PROCFS \<and> (case find_child s cur c of None \<Rightarrow> True | Some x \<Rightarrow> proc_free s x cs))"

lemma next_component_path:
  assumes "good_name c"
  shows "next_component (c @ path_of cs) = (c, case cs of [] \<Rightarrow> [] | d # ds \<Rightarrow> d @ path_of ds)"
proof -
  have c: "slash \<notin> set c" "take (VFS_MAX_NAME - 1) c = c" using assms by (auto simp: good_name_def)
  show ?thesis unfolding next_component_def span_slash(1) [OF c(1)] c(2) by (cases cs) simp_all
qed

lemma vfs_walk_walk:
  assumes "\<forall>c \<in> set (c0 # cs). good_name c" "proc_free s cur (c0 # cs)"
  shows "vfs_walk alive cur (c0 @ path_of cs) s = (case walk s cur (c0 # cs) of None \<Rightarrow> (0, s) | Some d \<Rightarrow> (d, s))"
  using assms
proof (induction cs arbitrary: c0 cur)
  case Nil
  then have "c0 \<noteq> []" "next_component c0 = (c0, [])" using next_component_path [of c0 "[]"] by (auto simp: good_name_def)
  then show ?case using Nil by (simp add: vfs_walk.simps [of _ _ c0] vfs_walk.simps [of _ _ "[]"] split: option.split)
next
  case (Cons c1 cs)
  have g: "good_name c0" "c0 \<noteq> []" using Cons.prems by (auto simp: good_name_def)
  have "vfs_walk alive cur (c0 @ path_of (c1 # cs)) s = (case find_child s cur c0 of None \<Rightarrow> (0, s) | Some x \<Rightarrow> vfs_walk alive x (c1 @ path_of cs) s)"
    using next_component_path [OF g(1), of "c1 # cs"] g(2) Cons.prems(2) by (subst vfs_walk.simps) simp
  then show ?case using Cons by (auto split: option.split)
qed

lemma create_file_walk:
  assumes "\<forall>c \<in> set cs. good_name c" "cs \<noteq> []" "length (path_of cs) < VFS_MAX_PATH" "tree_ok s" "alloc_ok s"
    "vfs_create_file (path_of cs) s = (p, s')" "p \<noteq> 0"
  shows "tree_ok s' \<and> alloc_ok s' \<and> extends s s' \<and> walk s' (root s) cs = Some p \<and> nodes s' p \<noteq> None"
proof -
  obtain ds c where cs: "cs = ds @ [c]" using assms(2) by (metis append_butlast_last_id)
  have c: "good_name c" and ds: "\<forall>c \<in> set ds. good_name c" using assms(1) cs by auto
  have rt: "nodes s (root s) \<noteq> None" "root s \<noteq> 0" using assms(4) unfolding tree_ok_def by auto
  have sp: "split_last (take (VFS_MAX_PATH - 1) (path_of cs)) = Some (path_of ds, c)"
    using assms(3) split_last_path [of c "path_of ds"] c cs by (simp add: good_name_def)
  have hd: "path_of cs \<noteq> []" "hd (path_of cs) = slash" using cs by (cases ds; simp)+
  show ?thesis
  proof (cases ds)
    case Nil
    then have "add_file (root s) c s = (p, s')"
      using assms(6) sp hd rt(2) by (simp add: vfs_create_file_def del: path_of_simps(3))
    then have "grows s (root s) c p s'" using add_file_grows [OF assms(4,5) rt(1) _ _ assms(7)] c by (simp add: good_name_def)
    then show ?thesis using cs Nil by (simp add: grows_def)
  next
    case (Cons d0 es)
    obtain d s1 where e: "vfs_ensure_path (root s) (d0 @ path_of es) s = (d, s1)" by (cases "vfs_ensure_path (root s) (d0 @ path_of es) s")
    have d: "d \<noteq> 0" "add_file d c s1 = (p, s')"
      using assms(6,7) sp hd rt(2) Cons e by (auto simp: vfs_create_file_def simp del: path_of_simps(3) split: if_splits)
    have w: "tree_ok s1 \<and> alloc_ok s1 \<and> extends s s1 \<and> walk s1 (root s) ds = Some d \<and> nodes s1 d \<noteq> None"
      using ensure_path_walk [OF _ assms(4,5) rt(1) e d(1)] ds Cons by simp
    have g: "grows s1 d c p s'" using add_file_grows [OF _ _ _ _ d(2) assms(7)] w c by (simp add: good_name_def)
    have "walk s' (root s) ds = Some d" using walk_extends w g by (auto simp: grows_def)
    then show ?thesis using g w extends_trans by (auto simp: cs walk_append grows_def)
  qed
qed

lemma resolve_path_of:
  assumes "\<forall>c \<in> set cs. good_name c" "cs \<noteq> []" "root s \<noteq> 0" "proc_free s (root s) cs"
  shows "vfs_resolve alive (path_of cs) s = (case walk s (root s) cs of None \<Rightarrow> (0, s) | Some d \<Rightarrow> (d, s))"
proof -
  obtain c0 ds where "cs = c0 # ds" using assms(2) by (cases cs) auto
  then show ?thesis using assms vfs_walk_walk [of c0 ds s "root s" alive] by (auto simp: vfs_resolve_def good_name_def)
qed

subsection \<open>Contents\<close>

lemma grown_length: "length d \<le> e \<Longrightarrow> off \<le> e \<Longrightarrow> length (grown d off e) = e"
  by (simp add: grown_def)

lemma grown_nth: "length d \<le> e \<Longrightarrow> off \<le> e \<Longrightarrow> i < e \<Longrightarrow> grown d off e ! i = (if i < length d then d ! i else 0)"
  by (auto simp: grown_def nth_append)

text \<open>The file after a write: the bytes written at their place, the old bytes elsewhere, zeros in a gap.\<close>

lemma vfs_write_file:
  assumes "vfs_write p buf off s = (r, s')" "r \<noteq> -1" "length buf < 2 ^ 31"
  shows "r = int (length buf) \<and> (\<exists>d. node_at s' p = (node_at s p)\<lparr>vdata := d\<rparr> \<and> (\<forall>q. q \<noteq> p \<longrightarrow> node_at s' q = node_at s q) \<and>
    length d = max (length (vdata (node_at s p))) (off + length buf) \<and>
    (\<forall>i < length d. d ! i = (if off \<le> i \<and> i < off + length buf then buf ! (i - off)
       else if i < length (vdata (node_at s p)) then vdata (node_at s p) ! i else 0)))"
proof -
  let ?n = "node_at s p" and ?e = "off + length buf"
  let ?old = "vdata ?n" and ?base = "if ?e > length (vdata ?n) then grown (vdata ?n) off ?e else vdata ?n"
  have p: "\<not> (p = 0 \<or> vtype ?n \<noteq> VFS_FILE)"
  proof
    assume "p = 0 \<or> vtype ?n \<noteq> VFS_FILE"
    then show False using assms(1,2) unfolding vfs_write_def by simp
  qed
  obtain g t where t: "next_alloc s = (g, t)" by (cases "next_alloc s")
  have "node_at t = node_at s" using t by (auto simp: next_alloc_def split: list.splits)
  note t = t this
  have res: "r = c_int (length buf)" "node_at s' q = (if q = p then ?n\<lparr>vdata := overwrite ?base off buf\<rparr> else node_at s q)" for q
    using assms(1,2) p t by (auto simp: vfs_write_def Let_def split: if_splits)
  have base: "length ?base = max (length ?old) ?e" "i < length ?base \<Longrightarrow> ?base ! i = (if i < length ?old then ?old ! i else 0)" for i
    using grown_length [of ?old ?e off] grown_nth [of ?old ?e off i] by auto
  let ?d = "overwrite ?base off buf"
  have len: "length ?d = max (length ?old) ?e" using base(1) by (simp add: overwrite_def)
  have "?d ! i = (if off \<le> i \<and> i < ?e then buf ! (i - off) else if i < length ?old then ?old ! i else 0)" if "i < length ?d" for i
    using that base len by (auto simp: overwrite_def nth_append)
  then show ?thesis using res len c_int_id [OF assms(3)] by auto
qed

subsection \<open>The procfs pool\<close>

text \<open>
  Every lookup of a process directory takes a slot of the pool and none is given back, so once the 32 slots are
  used, three of them by the mount, \<open>/proc/<pid>\<close> no longer resolves for any living process.
\<close>

lemma procfs_pool_leak:
  assumes "payload (node_at s d) AND 0xFF \<noteq> PF_STATUS" "payload (node_at s d) AND 0xFF \<noteq> PF_CMDLINE"
    "nm \<noteq> ''meminfo''" "nm \<noteq> ''uptime''" "nm \<noteq> ''stat''" "parse_pid 0 nm = Some pid" "pid \<noteq> 0" "alive (sint pid)"
  shows "if pool_used s < PROCFS_POOL then pool_used (snd (procfs_resolve alive d nm s)) = pool_used s + 1
    else procfs_resolve alive d nm s = (0, s)"
  using assms by (simp add: procfs_resolve_def Let_def make_node_def link_child_def)

subsection \<open>Properties\<close>

text \<open>A file system with only a root, and memory for the next allocations.\<close>

definition root_vfs :: vfs where
  "root_vfs = \<lparr>nodes = [4096 \<mapsto> zero_vnode\<lparr>vname := ''/'', vtype := VFS_DIRECTORY\<rparr>], root = 4096,
     allocs = [4224, 4352, 4480, 4608], pool_base = 65536, pool_used = 0\<rparr>"

lemma root_vfs_ok: "tree_ok root_vfs" "alloc_ok root_vfs"
  by (auto simp: tree_ok_def alloc_ok_def root_vfs_def node_at_def zero_vnode_def split: option.splits if_splits)

text \<open>
  (C24) Creating a file makes its path name it: when \<open>vfs_create_file\<close> returns a node for an absolute path of
  proper components that does not lead into procfs, resolving the same path returns that node, missing
  directories included; the tree stays well formed, and every name that resolved before still resolves to the
  same node, with its type and contents.
\<close>

theorem create_then_resolve:
  assumes "\<forall>c \<in> set cs. good_name c" "cs \<noteq> []" "length (path_of cs) < VFS_MAX_PATH" "tree_ok s" "alloc_ok s"
    "vfs_create_file (path_of cs) s = (p, s')" "p \<noteq> 0" "proc_free s' (root s) cs"
  shows "vfs_resolve alive (path_of cs) s' = (p, s') \<and> tree_ok s' \<and> alloc_ok s' \<and> extends s s'"
proof -
  note w = create_file_walk [OF assms(1-7)]
  have "root s' = root s" "root s \<noteq> 0" using w assms(4) unfolding extends_def tree_ok_def by auto
  then show ?thesis using resolve_path_of [OF assms(1,2), of s' alive] w assms(8) by simp
qed

theorem create_then_resolve_witness:
  "\<exists>s'. vfs_create_file ''/etc/motd'' root_vfs = (4352, s') \<and> vfs_resolve (\<lambda>_. False) ''/etc/motd'' s' = (4352, s')"
proof -
  let ?cs = "[''etc'', ''motd'']"
  have p: "path_of ?cs = ''/etc/motd''" by simp
  obtain s' where c: "vfs_create_file ''/etc/motd'' root_vfs = (4352, s')" and f: "proc_free s' 4096 ?cs"
    by (simp add: vfs_create_file_def split_last_def root_vfs_def vfs_ensure_path.simps vfs_get_or_create_dir_def find_child_def
        node_at_def vfs_create_node_def next_alloc_def put_node_def link_child_def add_file_def zero_vnode_def Let_def)
  have "vfs_resolve (\<lambda>_. False) (path_of ?cs) s' = (4352, s') \<and> tree_ok s' \<and> alloc_ok s' \<and> extends root_vfs s'"
  proof (rule create_then_resolve)
    show "vfs_create_file (path_of ?cs) root_vfs = (4352, s')" using c by simp
    show "proc_free s' (root root_vfs) ?cs" using f by (simp add: root_vfs_def)
  qed (simp_all add: good_name_def root_vfs_ok)
  then show ?thesis using c p by auto
qed



end
