(* ===== verification/Base64.thy ===== *)
theory Base64
  imports Prelude
begin

text \<open>
  The program \<open>userspace/base64.c\<close>: bytes from standard input to base64 in lines of 76 columns, and back.
  Both loops read one byte at a time; the model consumes the list of the bytes read and returns the bytes
  written.
\<close>

subsection \<open>Encoding\<close>

definition bytes :: "string \<Rightarrow> u8 list" where
  "bytes s = map of_char s"

definition b64_table :: "u8 list" where
  "b64_table = bytes ''ABCDEFGHIJKLMNOPQRSTUVWXYZabcdefghijklmnopqrstuvwxyz0123456789+/''"

definition enc :: "u8 \<Rightarrow> u8" where
  "enc w = b64_table ! unat w"

definition hi2 :: "u8 \<Rightarrow> u8" where
  "hi2 x = push_bit 4 (x AND 0x03)"

definition hi4 :: "u8 \<Rightarrow> u8" where
  "hi4 y = push_bit 2 (y AND 0x0F)"

definition lo6 :: "u8 \<Rightarrow> u8" where
  "lo6 z = z AND 0x3F"

definition encode3 :: "u8 \<Rightarrow> u8 \<Rightarrow> u8 \<Rightarrow> u8 list" where
  "encode3 x y z =
     [enc (drop_bit 2 x), enc (hi2 x OR drop_bit 4 y), enc (hi4 y OR drop_bit 6 z), enc (lo6 z)]"

fun encode_loop :: "u8 list \<Rightarrow> nat \<Rightarrow> u8 list \<Rightarrow> u8 list \<times> u8 list \<times> nat" where
  "encode_loop ins col [] = ([], ins, col)"
| "encode_loop ins col (c # cs) =
     (let ins = ins @ [c]
      in if length ins \<noteq> 3 then encode_loop ins col cs
         else let out = encode3 (ins ! 0) (ins ! 1) (ins ! 2); col = col + 4;
                  (nl, col) = (if col \<ge> 76 then ([10], 0) else ([], col));
                  (out', r) = encode_loop [] col cs
              in (out @ nl @ out', r))"

definition encode_tail :: "u8 list \<Rightarrow> nat \<Rightarrow> u8 list" where
  "encode_tail ins col =
     (if length ins = 1
      then [enc (drop_bit 2 (ins ! 0)), enc (hi2 (ins ! 0)), of_char (CHR ''=''), of_char (CHR ''='')] @ [10]
      else if length ins = 2
      then [enc (drop_bit 2 (ins ! 0)), enc (hi2 (ins ! 0) OR drop_bit 4 (ins ! 1)),
            enc (hi4 (ins ! 1)), of_char (CHR ''='')] @ [10]
      else if col \<noteq> 0 then [10] else [])"

definition encode_stream :: "u8 list \<Rightarrow> u8 list" where
  "encode_stream xs = (let (out, ins, col) = encode_loop [] 0 xs in out @ encode_tail ins col)"

subsection \<open>Decoding\<close>

definition b64_val :: "u8 \<Rightarrow> int" where
  "b64_val c =
     (if 65 \<le> c \<and> c \<le> 90 then uint c - 65
      else if 97 \<le> c \<and> c \<le> 122 then uint c - 97 + 26
      else if 48 \<le> c \<and> c \<le> 57 then uint c - 48 + 52
      else if c = 43 then 62
      else if c = 47 then 63 else -1)"

definition acc :: "int \<Rightarrow> int \<Rightarrow> int \<Rightarrow> int \<Rightarrow> u32" where
  "acc v0 v1 v2 v3 = push_bit 18 (of_int v0) OR push_bit 12 (of_int v1) OR push_bit 6 (of_int v2) OR of_int v3"

fun decode_loop :: "int list \<Rightarrow> u8 list \<Rightarrow> u8 list \<times> int list" where
  "decode_loop vals [] = ([], vals)"
| "decode_loop vals (c # cs) =
     (let v = b64_val c
      in if v < 0 then decode_loop vals cs
         else let vals = vals @ [v]
              in if length vals \<noteq> 4 then decode_loop vals cs
                 else let a = acc (vals ! 0) (vals ! 1) (vals ! 2) (vals ! 3);
                          (out, r) = decode_loop [] cs
                      in ([ucast (drop_bit 16 a), ucast (drop_bit 8 a), ucast a] @ out, r))"

definition decode_tail :: "int list \<Rightarrow> u8 list" where
  "decode_tail vals =
     (if length vals = 2 then let a = acc (vals ! 0) (vals ! 1) 0 0 in [ucast (drop_bit 16 a)]
      else if length vals = 3
      then let a = acc (vals ! 0) (vals ! 1) (vals ! 2) 0 in [ucast (drop_bit 16 a), ucast (drop_bit 8 a)]
      else [])"

definition decode_stream :: "u8 list \<Rightarrow> u8 list" where
  "decode_stream cs = (let (out, vals) = decode_loop [] cs in out @ decode_tail vals)"

definition base64_main :: "bool \<Rightarrow> u8 list \<Rightarrow> u8 list" where
  "base64_main d inp = (if d then decode_stream inp else encode_stream inp)"

subsection \<open>Round trip\<close>

lemma b64_table_code: "b64_table = map of_nat ([65 ..< 91] @ [97 ..< 123] @ [48 ..< 58] @ [43, 47])"
  by (simp add: b64_table_def bytes_def upt_rec)

lemma b64_val_enc: "w < 64 \<Longrightarrow> b64_val (enc w) = uint w"
proof -
  assume w: "w < 64"
  have all: "\<forall>n \<in> set [0 ..< 64]. b64_val (map of_nat ([65 ..< 91] @ [97 ..< 123] @ [48 ..< 58] @ [43, 47]) ! n) = int n"
    by code_simp
  have "unat w \<in> set [0 ..< 64]" using w by (simp add: word_less_nat_alt)
  then have "b64_val (enc w) = int (unat w)" using all unfolding enc_def b64_table_code by blast
  then show ?thesis by simp
qed

lemma b64_val_newline: "b64_val 10 = -1" "b64_val 61 = -1"
  by (simp_all add: b64_val_def)

lemma sextet_bits:
  "hi2 x = push_bit 4 (take_bit 2 x)" "hi4 x = push_bit 2 (take_bit 4 x)" "lo6 x = take_bit 6 x"
  by (simp_all add: hi2_def hi4_def lo6_def take_bit_eq_mask mask_eq_exp_minus_1)

lemma bit_u8: "bit (x :: u8) n \<Longrightarrow> n < 8"
  using bit_imp_le_length [of x n] by simp

lemma bit_u8_high: "8 \<le> n \<Longrightarrow> \<not> bit (x :: u8) n"
  using bit_u8 [of x n] by linarith

lemma u8_eqI:
  assumes "bit a 0 = bit b 0" "bit a 1 = bit b 1" "bit a 2 = bit b 2" "bit a 3 = bit b 3"
    "bit a 4 = bit b 4" "bit a 5 = bit b 5" "bit a 6 = bit b 6" "bit a 7 = bit b 7"
  shows "a = (b :: u8)"
proof (rule bit_word_eqI)
  fix n assume "n < LENGTH(8)"
  then have "n = 0 \<or> n = 1 \<or> n = 2 \<or> n = 3 \<or> n = 4 \<or> n = 5 \<or> n = 6 \<or> n = 7" by auto
  then show "bit a n = bit b n" using assms by (elim disjE) simp_all
qed

lemma less_64:
  fixes w :: u8 assumes "\<And>n. 6 \<le> n \<Longrightarrow> n < 8 \<Longrightarrow> \<not> bit w n" shows "w < 64"
proof -
  have "bit (take_bit 6 w) n = bit w n" if "n < 8" for n
    using assms [of n] that by (cases "n < 6") (simp_all add: bit_take_bit_iff)
  then have "take_bit 6 w = w" by (intro bit_word_eqI) simp
  then have "unat (w mod 64) = unat w" by (simp add: take_bit_eq_mod)
  then have "unat w = unat w mod 64" by (simp add: unat_mod)
  then show ?thesis by (simp add: word_less_nat_alt)
qed

lemma sextets:
  fixes x y z :: u8
  shows "drop_bit 2 x < 64" "hi2 x OR drop_bit 4 y < 64" "hi4 y OR drop_bit 6 z < 64" "lo6 z < 64"
    "hi2 x < 64" "hi4 y < 64"
  by (rule less_64; auto simp: sextet_bits bit_simps dest: bit_u8)+

lemma decode_block:
  fixes x y z :: u8
  defines "a \<equiv> acc (uint (drop_bit 2 x)) (uint (hi2 x OR drop_bit 4 y)) (uint (hi4 y OR drop_bit 6 z)) (uint (lo6 z))"
  shows "ucast (drop_bit 16 a) = x" "ucast (drop_bit 8 a) = y" "ucast a = z"
  unfolding a_def acc_def
  by (rule u8_eqI; simp add: bit_simps bit_uint_iff sextet_bits bit_u8_high)+

lemma decode_one:
  fixes x y :: u8
  shows "ucast (drop_bit 16 (acc (uint (drop_bit 2 x)) (uint (hi2 x)) 0 0)) = x"
    "ucast (drop_bit 16 (acc (uint (drop_bit 2 x)) (uint (hi2 x OR drop_bit 4 y)) (uint (hi4 y)) 0)) = x"
    "ucast (drop_bit 8 (acc (uint (drop_bit 2 x)) (uint (hi2 x OR drop_bit 4 y)) (uint (hi4 y)) 0)) = y"
  unfolding acc_def by (rule u8_eqI; simp add: bit_simps bit_uint_iff sextet_bits bit_u8_high)+

lemma decode_encode3:
  "decode_loop [] (encode3 x y z @ cs) = (let (out, r) = decode_loop [] cs in ([x, y, z] @ out, r))"
  by (simp add: encode3_def b64_val_enc sextets Let_def) (simp add: decode_block)

lemma decode_encode_from:
  "(case encode_loop [] col xs of (out, ins, c) \<Rightarrow> decode_stream (out @ encode_tail ins c)) = xs"
proof (induction "length xs" arbitrary: xs col rule: less_induct)
  case less
  consider "xs = []" | x where "xs = [x]" | x y where "xs = [x, y]" | x y z r where "xs = x # y # z # r"
    by (metis list.exhaust)
  then show ?case
  proof cases
    case 1
    then show ?thesis by (simp add: encode_tail_def decode_stream_def decode_tail_def b64_val_newline)
  next
    case 2
    then show ?thesis
      by (simp add: encode_tail_def decode_stream_def b64_val_enc sextets b64_val_newline) (simp add: decode_tail_def decode_one)
  next
    case 3
    then show ?thesis
      by (simp add: encode_tail_def decode_stream_def b64_val_enc sextets b64_val_newline) (simp add: decode_tail_def decode_one)
  next
    case 4
    let ?col = "if col + 4 \<ge> 76 then 0 else col + 4"
    obtain out ins c where e: "encode_loop [] ?col r = (out, ins, c)" by (metis prod_cases3)
    have IH: "decode_stream (out @ encode_tail ins c) = r" using less [of r ?col] e 4 by simp
    have nl: "decode_loop [] ((if col + 4 \<ge> 76 then [10] else []) @ cs) = decode_loop [] cs" for cs
      by (simp add: b64_val_newline)
    let ?nl = "if col + 4 \<ge> 76 then [10] else [] :: u8 list"
    have enc: "encode_loop [] col xs = (encode3 x y z @ ?nl @ out, ins, c)"
      using e 4 by (simp split: if_splits)
    have "decode_stream (encode3 x y z @ ?nl @ out @ encode_tail ins c) = [x, y, z] @ decode_stream (out @ encode_tail ins c)"
      unfolding decode_stream_def decode_encode3 nl by (simp split: prod.split)
    then show ?thesis unfolding enc using IH 4 by simp
  qed
qed

subsection \<open>Properties\<close>

text \<open>
  (C21) Decoding inverts encoding: for every input, of any length, running \<open>base64 -d\<close> on the output of
  \<open>base64\<close>, line breaks and padding included, gives the input back.
\<close>

theorem base64_roundtrip: "base64_main True (base64_main False xs) = xs"
  using decode_encode_from [of 0 xs] by (simp add: base64_main_def encode_stream_def split: prod.splits)

end
