(* ===== verification/Sha256.thy ===== *)
theory Sha256
  imports Prelude
begin

text \<open>
  The program \<open>userspace/sha256.c\<close>.  The data of a file arrives in the chunks that \<open>read\<close> returns; \<open>feed\<close>
  collects them in a buffer of two blocks.  The theorem compares the program with the standard (FIPS 180-4):
  pad the whole message, cut it into blocks, and run the compression function over them.
\<close>

subsection \<open>The program\<close>

definition ROTR :: "u32 \<Rightarrow> nat \<Rightarrow> u32" where
  "ROTR x n = drop_bit n x OR push_bit (32 - n) x"

definition K :: "u32 list" where
  "K = concat [
    [0x428a2f98, 0x71374491, 0xb5c0fbcf, 0xe9b5dba5],
    [0x3956c25b, 0x59f111f1, 0x923f82a4, 0xab1c5ed5],
    [0xd807aa98, 0x12835b01, 0x243185be, 0x550c7dc3],
    [0x72be5d74, 0x80deb1fe, 0x9bdc06a7, 0xc19bf174],
    [0xe49b69c1, 0xefbe4786, 0x0fc19dc6, 0x240ca1cc],
    [0x2de92c6f, 0x4a7484aa, 0x5cb0a9dc, 0x76f988da],
    [0x983e5152, 0xa831c66d, 0xb00327c8, 0xbf597fc7],
    [0xc6e00bf3, 0xd5a79147, 0x06ca6351, 0x14292967],
    [0x27b70a85, 0x2e1b2138, 0x4d2c6dfc, 0x53380d13],
    [0x650a7354, 0x766a0abb, 0x81c2c92e, 0x92722c85],
    [0xa2bfe8a1, 0xa81a664b, 0xc24b8b70, 0xc76c51a3],
    [0xd192e819, 0xd6990624, 0xf40e3585, 0x106aa070],
    [0x19a4c116, 0x1e376c08, 0x2748774c, 0x34b0bcb5],
    [0x391c0cb3, 0x4ed8aa4a, 0x5b9cca4f, 0x682e6ff3],
    [0x748f82ee, 0x78a5636f, 0x84c87814, 0x8cc70208],
    [0x90befffa, 0xa4506ceb, 0xbef9a3f7, 0xc67178f2]]"

definition H0 :: "u32 list" where
  "H0 = [0x6a09e667, 0xbb67ae85, 0x3c6ef372, 0xa54ff53a, 0x510e527f, 0x9b05688c, 0x1f83d9ab, 0x5be0cd19]"

definition be32 :: "u8 list \<Rightarrow> nat \<Rightarrow> u32" where
  "be32 data i = push_bit 24 (ucast (data ! (i * 4))) OR push_bit 16 (ucast (data ! (i * 4 + 1))) OR
     push_bit 8 (ucast (data ! (i * 4 + 2))) OR ucast (data ! (i * 4 + 3))"

definition extend_w :: "nat \<Rightarrow> u32 list \<Rightarrow> u32 list" where
  "extend_w i w =
     (let s0 = ROTR (w ! (i - 15)) 7 XOR ROTR (w ! (i - 15)) 18 XOR drop_bit 3 (w ! (i - 15));
          s1 = ROTR (w ! (i - 2)) 17 XOR ROTR (w ! (i - 2)) 19 XOR drop_bit 10 (w ! (i - 2))
      in w @ [w ! (i - 16) + s0 + w ! (i - 7) + s1])"

definition schedule :: "u8 list \<Rightarrow> u32 list" where
  "schedule data = fold extend_w [16 ..< 64] (map (be32 data) [0 ..< 16])"

type_synonym regs = "u32 \<times> u32 \<times> u32 \<times> u32 \<times> u32 \<times> u32 \<times> u32 \<times> u32"

definition sha_round :: "u32 list \<Rightarrow> nat \<Rightarrow> regs \<Rightarrow> regs" where
  "sha_round w i = (\<lambda>(a, b, c, d, e, f, g, h).
     let S1 = ROTR e 6 XOR ROTR e 11 XOR ROTR e 25;
         ch = (e AND f) XOR (NOT e AND g);
         t1 = h + S1 + ch + K ! i + w ! i;
         S0 = ROTR a 2 XOR ROTR a 13 XOR ROTR a 22;
         maj = (a AND b) XOR (a AND c) XOR (b AND c);
         t2 = S0 + maj
     in (t1 + t2, a, b, c, d + t1, e, f, g))"

definition sha_block :: "u8 list \<Rightarrow> u32 list \<Rightarrow> u32 list" where
  "sha_block data H =
     (let w = schedule data;
          (a, b, c, d, e, f, g, h) = fold (sha_round w) [0 ..< 64] (H ! 0, H ! 1, H ! 2, H ! 3, H ! 4, H ! 5, H ! 6, H ! 7)
      in [H ! 0 + a, H ! 1 + b, H ! 2 + c, H ! 3 + d, H ! 4 + e, H ! 5 + f, H ! 6 + g, H ! 7 + h])"

text \<open>
  The buffer is the first \<open>pend\<close> bytes of \<open>pending\<close>: a list of that length.  The loops stop at a length above
  128, which would lie outside the array and which no call reaches.
\<close>

definition flush :: "u8 list \<times> u32 list \<Rightarrow> u8 list \<times> u32 list" where
  "flush = (\<lambda>(pending, H).
     if length pending = 128 then ([], sha_block (drop 64 pending) (sha_block (take 64 pending) H)) else (pending, H))"

function feed :: "u8 list \<Rightarrow> u8 list \<times> u32 list \<Rightarrow> u8 list \<times> u32 list" where
  "feed data (pending, H) =
     (if data = [] \<or> length pending > 128 then (pending, H)
      else let n = (if length data < 128 - length pending then length data else 128 - length pending)
           in feed (drop n data) (flush (pending @ take n data, H)))"
  by pat_completeness auto
termination
proof (relation "measures [\<lambda>(d, _). length d, \<lambda>(_, p, _). length p]", goal_cases)
  case (2 data pending H n)
  then show ?case by (cases "n = 0") (auto simp: flush_def split: if_splits)
qed simp

declare feed.simps [simp del]

text \<open>The padding loop of \<open>main\<close>: at most 128 more bytes.\<close>

function pad_zero :: "u8 list \<times> u32 list \<Rightarrow> u8 list \<times> u32 list" where
  "pad_zero (pending, H) =
     (if length pending mod 64 = 56 \<or> length pending > 128 then (pending, H)
      else if length pending = 128 then pad_zero (flush (pending, H))
      else pad_zero (pending @ [0], H))"
  by pat_completeness auto
termination
proof (relation "measure (\<lambda>(p, _). if length p \<le> 56 then 56 - length p else 300 - length p)", goal_cases)
  case (2 p H)
  then show ?case by (auto simp: flush_def)
qed auto

declare pad_zero.simps [simp del]

definition length_bytes :: "u64 \<Rightarrow> u8 list" where
  "length_bytes bits = map (\<lambda>i. ucast (drop_bit (i * 8) bits)) (rev [0 ..< 8])"

fun finish :: "u8 list \<Rightarrow> u32 list \<Rightarrow> u32 list" where
  "finish pending H =
     (if pending = [] then H else finish (drop 64 pending) (sha_block (take 64 pending) H))"

declare finish.simps [simp del]

definition hex_digit :: "u32 \<Rightarrow> char" where
  "hex_digit d = (if d < 10 then char_of (48 + unat d) else char_of (97 + unat d - 10))"

definition print_hex32 :: "u32 \<Rightarrow> string" where
  "print_hex32 v = map (\<lambda>i. hex_digit (drop_bit i v AND 0xF)) [28, 24, 20, 16, 12, 8, 4, 0]"

definition sha256_digest :: "u8 list list \<Rightarrow> u32 list" where
  "sha256_digest chunks =
     (let total = foldl (\<lambda>t c. t + of_nat (length c)) (0 :: u64) chunks;
          (pending, H) = fold feed chunks ([], H0);
          bits = total * 8;
          (pending, H) = pad_zero (pending @ [0x80], H)
      in finish (pending @ length_bytes bits) H)"

text \<open>The result of \<open>open\<close> and the chunks \<open>read\<close> returns are arguments; no file name means standard input.\<close>

definition sha256_main :: "string option \<Rightarrow> bool \<Rightarrow> u8 list list \<Rightarrow> string \<times> int" where
  "sha256_main arg opened chunks =
     (case arg of
        Some f \<Rightarrow> if \<not> opened then (''sha256: '' @ f @ '': no such file'' @ [CHR 0x0A], 1)
          else (concat (map print_hex32 (sha256_digest chunks)) @ [CHR 0x0A], 0)
      | None \<Rightarrow> (concat (map print_hex32 (sha256_digest chunks)) @ [CHR 0x0A], 0))"

subsection \<open>The standard\<close>

text \<open>FIPS 180-4, sections 5 and 6.2, on a message of whole bytes.\<close>

definition Sigma0 :: "u32 \<Rightarrow> u32" where "Sigma0 x = word_rotr 2 x XOR word_rotr 13 x XOR word_rotr 22 x"
definition Sigma1 :: "u32 \<Rightarrow> u32" where "Sigma1 x = word_rotr 6 x XOR word_rotr 11 x XOR word_rotr 25 x"
definition sigma0 :: "u32 \<Rightarrow> u32" where "sigma0 x = word_rotr 7 x XOR word_rotr 18 x XOR drop_bit 3 x"
definition sigma1 :: "u32 \<Rightarrow> u32" where "sigma1 x = word_rotr 17 x XOR word_rotr 19 x XOR drop_bit 10 x"

fun fips_W :: "u8 list \<Rightarrow> nat \<Rightarrow> u32" where
  "fips_W M t = (if t < 16 then be32 M t
     else sigma1 (fips_W M (t - 2)) + fips_W M (t - 7) + sigma0 (fips_W M (t - 15)) + fips_W M (t - 16))"

declare fips_W.simps [simp del]

fun fips_rounds :: "u8 list \<Rightarrow> nat \<Rightarrow> regs \<Rightarrow> regs" where
  "fips_rounds M 0 r = r"
| "fips_rounds M (Suc t) r =
     (let (a, b, c, d, e, f, g, h) = fips_rounds M t r;
          T1 = h + Sigma1 e + ((e AND f) XOR (NOT e AND g)) + K ! t + fips_W M t;
          T2 = Sigma0 a + ((a AND b) XOR (a AND c) XOR (b AND c))
      in (T1 + T2, a, b, c, d + T1, e, f, g))"

definition fips_block :: "u8 list \<Rightarrow> u32 list \<Rightarrow> u32 list" where
  "fips_block M H =
     (let (a, b, c, d, e, f, g, h) = fips_rounds M 64 (H ! 0, H ! 1, H ! 2, H ! 3, H ! 4, H ! 5, H ! 6, H ! 7)
      in map2 (+) H [a, b, c, d, e, f, g, h])"

fun blocks :: "u8 list \<Rightarrow> u8 list list" where
  "blocks M = (if M = [] then [] else take 64 M # blocks (drop 64 M))"

declare blocks.simps [simp del]

definition pad :: "u8 list \<Rightarrow> u8 list" where
  "pad M = M @ [0x80] @ replicate ((119 - length M mod 64) mod 64) 0 @ length_bytes (of_nat (8 * length M))"

definition sha256_fips :: "u8 list \<Rightarrow> u32 list" where
  "sha256_fips M = fold fips_block (blocks (pad M)) H0"

subsection \<open>The block function\<close>

lemma ROTR_rotr: "0 < n \<Longrightarrow> n < 32 \<Longrightarrow> ROTR x n = word_rotr n x"
proof (rule bit_word_eqI)
  fix i assume n: "0 < n" "n < 32" and i: "i < LENGTH(32)"
  show "bit (ROTR x n) i = bit (word_rotr n x) i"
  proof (cases "i + n < 32")
    case True
    then have "\<not> 32 - n \<le> i" by linarith
    then show ?thesis using True n by (simp add: ROTR_def bit_simps bit_word_rotr_iff add.commute)
  next
    case False
    then have "\<not> bit x (i + n)" "(i + n) mod 32 = i + n - 32"
      using bit_imp_le_length [of x "i + n"] i n by (auto simp: mod_if)
    then show ?thesis using False n i by (auto simp: ROTR_def bit_simps bit_word_rotr_iff add.commute)
  qed
qed

lemma extend_w_fips:
  assumes "16 \<le> i" "w = map (fips_W M) [0 ..< i]"
  shows "extend_w i w = map (fips_W M) [0 ..< Suc i]"
  using assms by (simp add: extend_w_def Let_def ROTR_rotr fips_W.simps [of M i] sigma0_def sigma1_def ac_simps)

lemma schedule_fips: "schedule M = map (fips_W M) [0 ..< 64]"
proof -
  have "fold extend_w [16 ..< 16 + n] (map (be32 M) [0 ..< 16]) = map (fips_W M) [0 ..< 16 + n]" for n
  proof (induction n)
    case 0
    show ?case by (simp add: fips_W.simps upt_rec)
  next
    case (Suc n)
    then have "fold extend_w ([16 ..< 16 + n] @ [16 + n]) (map (be32 M) [0 ..< 16]) = map (fips_W M) [0 ..< Suc (16 + n)]"
      using extend_w_fips [of "16 + n" _ M] by (simp del: upt_Suc)
    then show ?case by (metis add_Suc_right le_add1 upt_Suc)
  qed
  from this [of 48] show ?thesis by (simp add: schedule_def)
qed

lemma rounds_fips: "n \<le> 64 \<Longrightarrow> fold (sha_round (schedule M)) [0 ..< n] r = fips_rounds M n r"
proof (induction n)
  case (Suc n)
  then have w: "schedule M ! n = fips_W M n" by (simp add: schedule_fips)
  show ?case using Suc
    by (simp add: sha_round_def w ROTR_rotr Sigma0_def Sigma1_def Let_def split: prod.split)
qed simp

lemma list8: "length H = 8 \<Longrightarrow> H = [H ! 0, H ! 1, H ! 2, H ! 3, H ! 4, H ! 5, H ! 6, H ! 7]"
  by (rule nth_equalityI) (auto simp: less_Suc_eq numeral_eq_Suc)

lemma sha_block_fips:
  assumes "length H = 8" shows "sha_block M H = fips_block M H"
proof -
  have "map2 (+) H [a, b, c, d, e, f, g, h] = [H ! 0 + a, H ! 1 + b, H ! 2 + c, H ! 3 + d, H ! 4 + e, H ! 5 + f, H ! 6 + g, H ! 7 + h]"
    for a b c d e f g h by (subst list8 [OF assms]) simp
  then show ?thesis
    unfolding sha_block_def fips_block_def Let_def rounds_fips [OF order_refl] by simp
qed

lemma sha_block_length [simp]: "length (sha_block M H) = 8"
  by (simp add: sha_block_def Let_def split: prod.split)

subsection \<open>Collecting the message\<close>

definition run :: "u8 list \<Rightarrow> u32 list \<Rightarrow> u32 list" where
  "run M H = fold sha_block (blocks M) H"

lemma run_Nil [simp]: "run [] H = H"
  by (simp add: run_def blocks.simps)

lemma run_step: "M \<noteq> [] \<Longrightarrow> run M H = run (drop 64 M) (sha_block (take 64 M) H)"
  by (simp add: run_def blocks.simps [of M])

lemma run_append: "length M mod 64 = 0 \<Longrightarrow> run (M @ N) H = run N (run M H)"
proof (induction "length M" arbitrary: M H rule: less_induct)
  case less
  show ?case
  proof (cases "M = []")
    case False
    then have "64 \<le> length M" using less.prems by (metis length_0_conv mod_less not_le_imp_less)
    moreover have "(length M - 64) mod 64 = 0" using less.prems calculation by (metis le_mod_geq)
    ultimately show ?thesis using less.hyps [of "drop 64 M"] False by (simp add: run_step)
  qed simp
qed

lemma run_fips: "length H = 8 \<Longrightarrow> run M H = fold fips_block (blocks M) H"
proof -
  have "length H = 8 \<Longrightarrow> fold sha_block Bs H = fold fips_block Bs H" for Bs
    by (induction Bs arbitrary: H) (simp_all add: sha_block_fips [symmetric])
  then show "length H = 8 \<Longrightarrow> run M H = fold fips_block (blocks M) H" by (simp add: run_def)
qed

lemma finish_run: "finish p H = run p H"
  by (induction p H rule: finish.induct) (simp add: finish.simps run_step)

text \<open>The buffer and the hash state after the message \<open>m\<close>: whole blocks are hashed, the rest is pending.\<close>

definition rep :: "u8 list \<Rightarrow> u8 list \<times> u32 list \<Rightarrow> bool" where
  "rep m s \<longleftrightarrow> (\<exists>a. m = a @ fst s \<and> length a mod 64 = 0 \<and> snd s = run a H0) \<and> length (fst s) \<le> 128"

lemma rep_flush: "rep m (p, H) \<Longrightarrow> rep m (flush (p, H)) \<and> length (fst (flush (p, H))) < 128"
proof (cases "length p = 128")
  case True
  assume "rep m (p, H)"
  then obtain a where a: "m = a @ p" "length a mod 64 = 0" "H = run a H0" by (auto simp: rep_def)
  have "p \<noteq> []" "drop 64 p \<noteq> []" "take 64 (drop 64 p) = drop 64 p" "drop 64 (drop 64 p) = []"
    using True by auto
  then have "run (a @ p) H0 = sha_block (drop 64 p) (sha_block (take 64 p) H)"
    using a run_append [OF a(2)] run_step [of p] run_step [of "drop 64 p"] by simp
  then show ?thesis using True a by (auto simp: flush_def rep_def mod_add_eq [symmetric] intro!: exI [of _ m])
qed (auto simp: flush_def rep_def)

lemma rep_append: "rep m (p, H) \<Longrightarrow> length (p @ x) \<le> 128 \<Longrightarrow> rep (m @ x) (p @ x, H)"
  by (auto simp: rep_def)

lemma rep_feed: "rep m s \<Longrightarrow> rep (m @ data) (feed data s) \<and> (length (fst s) < 128 \<longrightarrow> length (fst (feed data s)) < 128)"
proof (induction data s arbitrary: m rule: feed.induct)
  case (1 data p H)
  show ?case
  proof (cases "data = [] \<or> length p > 128")
    case True
    then show ?thesis using 1(2) by (auto simp: feed.simps rep_def)
  next
    case False
    let ?n = "if length data < 128 - length p then length data else 128 - length p"
    have "length (p @ take ?n data) \<le> 128" using False by auto
    then have f: "rep (m @ take ?n data) (flush (p @ take ?n data, H)) \<and> length (fst (flush (p @ take ?n data, H))) < 128"
      by (intro rep_flush rep_append 1(2))
    then have "rep ((m @ take ?n data) @ drop ?n data) (feed (drop ?n data) (flush (p @ take ?n data, H))) \<and>
        length (fst (feed (drop ?n data) (flush (p @ take ?n data, H)))) < 128"
      using 1(1) [OF False refl, of "m @ take ?n data"] by blast
    moreover have "feed data (p, H) = feed (drop ?n data) (flush (p @ take ?n data, H))"
      using False by (simp add: feed.simps [of data p] Let_def)
    ultimately show ?thesis by (metis append.assoc append_take_drop_id)
  qed
qed

lemma rep_fold_feed:
  "rep m s \<Longrightarrow> length (fst s) < 128 \<Longrightarrow> rep (m @ concat chunks) (fold feed chunks s) \<and> length (fst (fold feed chunks s)) < 128"
proof (induction chunks arbitrary: m s)
  case (Cons c chunks)
  then show ?case using rep_feed [OF Cons.prems(1), of c] Cons.IH [of "m @ c" "feed c s"] by simp
qed simp

lemma pad_zero_step:
  "length p mod 64 \<noteq> 56 \<Longrightarrow> length p < 128 \<Longrightarrow> pad_zero (p, H) = pad_zero (p @ [0], H)"
  by (simp add: pad_zero.simps [of p])

lemma pad_zero_flush: "length p \<le> 128 \<Longrightarrow> pad_zero (p, H) = pad_zero (flush (p, H))"
  by (simp add: pad_zero.simps [of p] flush_def)

lemma rep_mod: "rep m (p, H) \<Longrightarrow> length m mod 64 = length p mod 64"
  unfolding rep_def by (metis add_0 fst_conv length_append mod_add_left_eq)

lemma mod_56: "n mod 64 = 56 \<Longrightarrow> n < 128 \<Longrightarrow> n \<le> (120 :: nat)"
  by presburger

lemma rep_pad:
  assumes "rep m (p, H)" "length p < 128" "\<forall>j < z. (length m + j) mod 64 \<noteq> 56" "(length m + z) mod 64 = 56"
  shows "\<exists>q G. pad_zero (p, H) = (q, G) \<and> rep (m @ replicate z 0) (q, G) \<and> length q \<le> 120"
  using assms
proof (induction z arbitrary: m p H)
  case 0
  then have "length p mod 64 = 56" using rep_mod by fastforce
  moreover from this have "length p \<le> 120" using mod_56 0(2) by blast
  ultimately show ?case using 0(1) by (simp add: pad_zero.simps)
next
  case (Suc z)
  have ne: "length p mod 64 \<noteq> 56" using rep_mod [OF Suc.prems(1)] Suc.prems(3) [rule_format, of 0] by simp
  have r: "rep (m @ [0]) (p @ [0], H)" using Suc.prems(1,2) by (intro rep_append) auto
  obtain p' H' where f: "flush (p @ [0], H) = (p', H')" by (cases "flush (p @ [0], H)")
  have f': "rep (m @ [0]) (p', H')" "length p' < 128" using rep_flush [OF r] f by auto
  have "pad_zero (p, H) = pad_zero (p', H')"
    using pad_zero_step [OF ne Suc.prems(2)] pad_zero_flush [of "p @ [0]" H] Suc.prems(2) f by simp
  moreover have "(length (m @ [0]) + j) mod 64 \<noteq> 56" if "j < z" for j
    using Suc.prems(3) [rule_format, of "Suc j"] that by simp
  ultimately show ?case using Suc.IH [OF f'] Suc.prems(4) by simp
qed

lemma pad_count:
  fixes n :: nat
  shows "(Suc n + (119 - n mod 64) mod 64) mod 64 = 56" "j < (119 - n mod 64) mod 64 \<Longrightarrow> (Suc n + j) mod 64 \<noteq> 56"
proof -
  define q r where "q = n div 64" and "r = n mod 64"
  have n: "n = 64 * q + r" "r < 64" by (simp_all add: q_def r_def)
  have z: "(119 - r) mod 64 = (if r \<le> 55 then 55 - r else 119 - r)" using n(2) by (auto simp: mod_if)
  have m: "(64 * q + x) mod 64 = (if x < 64 then x else x - 64)" if "x < 128" for x
    using that by (cases "x < 64") (simp_all add: le_mod_geq)
  have "(64 * q + (Suc r + (119 - r) mod 64)) mod 64 = 56" unfolding z by (subst m) (use n(2) in auto)
  then show "(Suc n + (119 - n mod 64) mod 64) mod 64 = 56" using n by (simp add: add.assoc r_def [symmetric])
  assume "j < (119 - n mod 64) mod 64"
  then have j: "j < (if r \<le> 55 then 55 - r else 119 - r)" using z by (simp add: r_def)
  have "(64 * q + (Suc r + j)) mod 64 \<noteq> 56" by (subst m) (use n(2) j in \<open>auto split: if_splits\<close>)
  then show "(Suc n + j) mod 64 \<noteq> 56" using n(1) by (simp add: add.assoc)
qed

text \<open>
  (C22) The program computes SHA-256: whatever the sizes of the chunks in which the input arrives, the digest is
  the one the standard defines for the whole message.
\<close>

theorem sha256_correct: "sha256_digest chunks = sha256_fips (concat chunks)"
proof -
  let ?m = "concat chunks" and ?z = "(119 - length (concat chunks) mod 64) mod 64"
  have total: "foldl (\<lambda>t c. t + of_nat (length c)) t chunks = t + of_nat (length ?m)" for t :: u64
    by (induction chunks arbitrary: t) simp_all
  obtain p H where f: "fold feed chunks ([], H0) = (p, H)" by (cases "fold feed chunks ([], H0)")
  have "rep [] ([], H0)" by (simp add: rep_def)
  then have r: "rep ?m (p, H)" "length p < 128" using rep_fold_feed [of "[]" "([], H0)" chunks] f by auto
  obtain p' H' where g: "flush (p @ [0x80], H) = (p', H')" by (cases "flush (p @ [0x80], H)")
  have "rep (?m @ [0x80]) (p @ [0x80], H)" using r by (intro rep_append) auto
  then have r': "rep (?m @ [0x80]) (p', H')" "length p' < 128" using rep_flush g by force+
  have z: "(length (?m @ [0x80]) + ?z) mod 64 = 56" using pad_count(1) [of "length ?m"] by simp
  have z': "(length (?m @ [0x80]) + j) mod 64 \<noteq> 56" if "j < ?z" for j using pad_count(2) [of j "length ?m"] that by simp
  obtain q G where q: "pad_zero (p', H') = (q, G)" "rep ((?m @ [0x80]) @ replicate ?z 0) (q, G)"
    using rep_pad [OF r', of ?z] z z' by blast
  obtain a where a: "(?m @ [0x80]) @ replicate ?z 0 = a @ q" "length a mod 64 = 0" "G = run a H0"
    using q(2) by (auto simp: rep_def)
  have len: "of_nat (length ?m) * 8 = (of_nat (8 * length ?m) :: u64)" by simp
  have "sha256_digest chunks = run (q @ length_bytes (of_nat (8 * length ?m))) (run a H0)"
    using f g q(1) r(2) a(3) total [of 0] pad_zero_flush [of "p @ [0x80]" H]
    by (simp add: sha256_digest_def finish_run len [symmetric] del: of_nat_mult)
  also have "\<dots> = run (pad ?m) H0"
  proof -
    have "pad ?m = a @ q @ length_bytes (of_nat (8 * length ?m))"
      unfolding pad_def append.assoc [symmetric] a(1) [unfolded append.assoc, symmetric] by simp
    then show ?thesis using run_append [OF a(2)] by simp
  qed
  finally show ?thesis by (simp add: sha256_fips_def run_fips H0_def)
qed

end
