(* ===== verification/Decimal.thy ===== *)
theory Decimal
  imports Prelude "HOL-Library.Signed_Division"
begin

text \<open>
  Numbers as text, shared by the formatters of the kernel and of the user library: the division of C, the digit
  loop they all have, and the numeral of a number in a base, which is what they should print.
\<close>

subsection \<open>C arithmetic\<close>

text \<open>What a 64-bit register keeps of a result.\<close>

definition wrap64 :: "int \<Rightarrow> int" where
  "wrap64 x = signed_take_bit 63 x"

definition digit_char :: "int \<Rightarrow> char" where
  "digit_char d = char_of (nat ((48 + d) mod 256))"

lemma wrap64_range: "- (2 ^ 63) \<le> wrap64 x" "wrap64 x < 2 ^ 63"
  using signed_take_bit_int_greater_eq_minus_exp [of 63 x] signed_take_bit_int_less_exp [of 63 x] by (simp_all add: wrap64_def)

lemma wrap64_id: "- (2 ^ 63) \<le> x \<Longrightarrow> x < 2 ^ 63 \<Longrightarrow> wrap64 x = x"
  by (simp add: wrap64_def signed_take_bit_int_eq_self_iff)

lemma sdiv_10: "0 \<le> m \<Longrightarrow> m sdiv 10 = m div (10 :: int)" "0 \<le> m \<Longrightarrow> m smod 10 = m mod (10 :: int)"
  by (cases "m = 0"; simp add: signed_divide_int_def signed_modulo_int_def minus_div_mult_eq_mod [symmetric])+

definition is_digit :: "char \<Rightarrow> bool" where
  "is_digit c \<longleftrightarrow> of_char c \<ge> (48 :: nat) \<and> of_char c \<le> (57 :: nat)"

definition dec_value :: "string \<Rightarrow> int" where
  "dec_value s = foldl (\<lambda>v c. v * 10 + (int (of_char c) - 48)) 0 s"

lemma digit_char_facts:
  assumes "0 \<le> d" "d < 10" shows "of_char (digit_char d) = 48 + nat d" "is_digit (digit_char d)"
proof -
  have "nat ((48 + d) mod 256) = 48 + nat d" using assms by (simp add: nat_add_distrib)
  then show "of_char (digit_char d) = 48 + nat d" using assms by (simp add: digit_char_def of_char_of)
  then show "is_digit (digit_char d)" using assms by (simp add: is_digit_def)
qed

subsection \<open>Numerals\<close>

text \<open>The numeral of a number in a base, most significant digit first.\<close>

definition xdigit :: "nat \<Rightarrow> char" where
  "xdigit d = ''0123456789abcdef'' ! d"

function inbase :: "nat \<Rightarrow> nat \<Rightarrow> string" where
  "inbase b n = (if b < 2 \<or> n < b then [xdigit n] else inbase b (n div b) @ [xdigit (n mod b)])"
  by pat_completeness auto
termination by (relation "measure snd") auto

declare inbase.simps [simp del]

definition decimal :: "int \<Rightarrow> string" where
  "decimal n = (if n < 0 then CHR ''-'' # inbase 10 (nat (- n)) else inbase 10 (nat n))"

lemma xdigit_10: assumes "d < 10" shows "xdigit d = digit_char (int d)"
proof -
  have "d \<in> {0, 1, 2, 3, 4, 5, 6, 7, 8, 9}" using assms by auto
  then show ?thesis by (elim insertE emptyE) (simp_all add: xdigit_def digit_char_def char_of_def bit_0 bit_simps)
qed

lemma inbase_nonempty [simp]: "inbase b n \<noteq> []"
  by (subst inbase.simps) simp

lemma inbase_digits: "c \<in> set (inbase 10 n) \<Longrightarrow> is_digit c"
proof (induction n rule: less_induct)
  case (less n)
  have d: "is_digit (xdigit m)" if "m < 10" for m using that digit_char_facts(2) [of "int m"] by (simp add: xdigit_10)
  show ?case
  proof (cases "n < 10")
    case True
    then show ?thesis using less.prems d by (subst (asm) inbase.simps) simp
  next
    case False
    then have "c \<in> set (inbase 10 (n div 10)) \<or> c = xdigit (n mod 10)" using less.prems by (subst (asm) inbase.simps) auto
    then show ?thesis using less.IH [of "n div 10"] False d by auto
  qed
qed

text \<open>Reading a decimal numeral gives the number back.\<close>

lemma dec_value_inbase: "dec_value (inbase 10 n) = int n"
proof (induction n rule: less_induct)
  case (less n)
  have d: "int (of_char (xdigit m)) - 48 = int m" if "m < 10" for m
    using that digit_char_facts(1) [of "int m"] by (simp add: xdigit_10)
  show ?case
  proof (cases "n < 10")
    case True
    then show ?thesis using d [of n] by (subst inbase.simps) (simp add: dec_value_def)
  next
    case False
    then have "dec_value (inbase 10 n) = int (n div 10) * 10 + int (n mod 10)"
      using less.IH [of "n div 10"] d [of "n mod 10"] by (subst inbase.simps) (simp add: dec_value_def)
    then show ?thesis by (simp add: zdiv_int zmod_int)
  qed
qed

lemma inbase_length: "b \<ge> 2 \<Longrightarrow> n < b ^ k \<Longrightarrow> k > 0 \<Longrightarrow> length (inbase b n) \<le> k"
proof (induction k arbitrary: n)
  case (Suc k)
  show ?case
  proof (cases "n < b")
    case False
    then have "n div b < b ^ k" using Suc.prems by (intro less_mult_imp_div_less) (simp add: mult.commute)
    moreover have "k > 0" using Suc.prems False by (cases k) auto
    ultimately show ?thesis using Suc.IH [of "n div b"] Suc.prems False by (subst inbase.simps) simp
  qed (subst inbase.simps, simp)
qed simp

subsection \<open>The digit loops\<close>

text \<open>
  \<open>do { num[i++] = '0' + v % 10; v /= 10; } while (v \<and> i < 24)\<close> on a signed number: what is stored, the first
  digit stored being the least significant, with \<open>n + 1\<close> entries of the buffer left.
\<close>

primrec digit_loop :: "nat \<Rightarrow> int \<Rightarrow> string" where
  "digit_loop 0 v = [digit_char (v smod 10)]"
| "digit_loop (Suc n) v = digit_char (v smod 10) # (if v sdiv 10 \<noteq> 0 then digit_loop n (v sdiv 10) else [])"

text \<open>The same loop on an unsigned number in a base.\<close>

primrec udigit_loop :: "nat \<Rightarrow> nat \<Rightarrow> nat \<Rightarrow> string" where
  "udigit_loop b 0 v = [xdigit (v mod b)]"
| "udigit_loop b (Suc n) v = xdigit (v mod b) # (if v div b \<noteq> 0 then udigit_loop b n (v div b) else [])"

lemma udigit_loop_inbase: "b \<ge> 2 \<Longrightarrow> v < b ^ Suc n \<Longrightarrow> rev (udigit_loop b n v) = inbase b v"
proof (induction n arbitrary: v)
  case 0
  then show ?case by (subst inbase.simps) simp
next
  case (Suc n)
  show ?case
  proof (cases "v < b")
    case True
    then show ?thesis by (subst inbase.simps) simp
  next
    case False
    then have "v div b \<noteq> 0" using Suc.prems by (simp add: div_eq_0_iff)
    moreover have "v div b < b ^ Suc n" using Suc.prems by (intro less_mult_imp_div_less) (simp add: mult.commute)
    ultimately show ?thesis using Suc.IH [of "v div b"] Suc.prems False by (subst inbase.simps) simp
  qed
qed

lemma digit_loop_eq: "0 \<le> v \<Longrightarrow> digit_loop n v = udigit_loop 10 n (nat v)"
proof (induction n arbitrary: v)
  case 0
  then show ?case by (simp add: sdiv_10 xdigit_10 zmod_int)
next
  case (Suc n)
  have "nat v div 10 = nat (v div 10)" "(nat v div 10 = 0) = (v div 10 = 0)" using Suc.prems by (simp_all add: nat_div_distrib, linarith)
  then show ?case using Suc by (simp add: sdiv_10 xdigit_10 zmod_int pos_imp_zdiv_nonneg_iff)
qed

lemma digit_loop_inbase: "0 \<le> v \<Longrightarrow> v < 10 ^ Suc n \<Longrightarrow> rev (digit_loop n v) = inbase 10 (nat v)"
  using udigit_loop_inbase [of 10 "nat v" n] nat_less_iff [of v "10 ^ Suc n"] by (simp add: digit_loop_eq)

end
