(* ===== verification/Ulibc.thy ===== *)
theory Ulibc
  imports Decimal
begin

text \<open>
  The part of the user library \<open>userspace/libc.c\<close> that computes: strings, decimal output and the bump
  allocator.  Strings are lists of characters up to the NUL.  A C \<open>long\<close> is an integer of 64 bits; \<open>wrap64\<close>
  is what a register keeps of a result.
\<close>

subsection \<open>Strings\<close>

primrec u_strlen :: "string \<Rightarrow> nat" where
  "u_strlen [] = 0"
| "u_strlen (c # s) = Suc (u_strlen s)"

definition c_byte :: "string \<Rightarrow> int" where
  "c_byte s = (case s of [] \<Rightarrow> 0 | c # _ \<Rightarrow> int (of_char c))"

fun u_strcmp :: "string \<Rightarrow> string \<Rightarrow> int" where
  "u_strcmp (a # as) (b # bs) = (if a = b then u_strcmp as bs else c_byte (a # as) - c_byte (b # bs))"
| "u_strcmp as bs = c_byte as - c_byte bs"

fun u_strncmp :: "string \<Rightarrow> string \<Rightarrow> nat \<Rightarrow> int" where
  "u_strncmp as bs 0 = 0"
| "u_strncmp (a # as) (b # bs) (Suc n) = (if a \<noteq> b then c_byte (a # as) - c_byte (b # bs) else u_strncmp as bs n)"
| "u_strncmp as bs (Suc n) = c_byte as - c_byte bs"

text \<open>The inner loop of \<open>strstr\<close> runs both pointers while the characters agree; it ends at the end of the needle on a match.\<close>

fun match_here :: "string \<Rightarrow> string \<Rightarrow> bool" where
  "match_here hs [] = True"
| "match_here [] (n # ns) = False"
| "match_here (h # hs) (n # ns) = (if h = n then match_here hs ns else False)"

fun strstr_from :: "string \<Rightarrow> string \<Rightarrow> string option" where
  "strstr_from [] ns = None"
| "strstr_from (h # hs) ns = (if match_here (h # hs) ns then Some (h # hs) else strstr_from hs ns)"

definition strstr :: "string \<Rightarrow> string \<Rightarrow> string option" where
  "strstr hay needle = (if needle = [] then Some hay else strstr_from hay needle)"

subsection \<open>Decimal output\<close>

function print_num :: "int \<Rightarrow> string" where
  "print_num n =
     (let (sign, m) = (if n < 0 then (''-'', wrap64 (- n)) else ('''', n))
      in sign @ (if m \<ge> 10 then print_num (m sdiv 10) else '''') @ [digit_char (m smod 10)])"
  by pat_completeness auto

termination print_num
proof (relation "measure (\<lambda>n. if n < 0 then 2 ^ 63 else nat n)", goal_cases)
  case (2 n x sign m)
  have "m < 2 ^ 63" if "n < 0" using 2 that wrap64_range(2) by auto
  moreover have "m = n" if "\<not> n < 0" using 2 that by auto
  moreover have "0 \<le> m" "m sdiv 10 = m div 10" using 2 sdiv_10(1) by auto
  ultimately show ?case using 2 by (cases "n < 0") auto
qed simp

declare print_num.simps [simp del]

subsection \<open>The allocator\<close>

text \<open>
  \<open>malloc\<close> takes memory from the kernel in whole pages and hands it out in steps of 16 bytes; \<open>free\<close> does
  nothing.  What the \<open>mmap\<close> system call returns for the arguments it gets is a parameter.
\<close>

record mpool =
  mp_base :: u64
  mp_ptr :: u64
  mp_end :: u64

definition u_malloc :: "(u64 \<Rightarrow> u64 \<Rightarrow> u64 \<Rightarrow> int) \<Rightarrow> u64 \<Rightarrow> mpool \<Rightarrow> u64 \<times> mpool" where
  "u_malloc mmap n s =
     (let n = (n + 15) AND NOT 15; n = (if n = 0 then 16 else n);
          r = (if mp_ptr s + n > mp_end s
               then let need = (n + 4095) AND NOT 4095; p = mmap need 0 0
                    in if p < 0 then None
                       else Some (s\<lparr>mp_base := of_int p, mp_ptr := of_int p, mp_end := of_int p + need\<rparr>)
               else Some s)
      in case r of None \<Rightarrow> (0, s) | Some s \<Rightarrow> (mp_ptr s, s\<lparr>mp_ptr := mp_ptr s + n\<rparr>))"

subsection \<open>Strings are compared as lists\<close>

lemma match_here_prefix: "match_here hs ns \<longleftrightarrow> take (length ns) hs = ns"
  by (induction hs ns rule: match_here.induct) auto

lemma strstr_from_None: "strstr_from hs ns = None \<Longrightarrow> ns \<noteq> [] \<Longrightarrow> hs \<noteq> as @ ns @ bs"
proof (induction hs arbitrary: as)
  case (Cons h hs)
  then have n: "take (length ns) (h # hs) \<noteq> ns" "strstr_from hs ns = None"
    by (auto simp: match_here_prefix split: if_splits)
  show ?case
  proof (cases as)
    case Nil
    then show ?thesis using n(1) by (metis append_Nil append_eq_conv_conj)
  next
    case (Cons x xs)
    then show ?thesis using Cons.IH [OF n(2) Cons.prems(2), of xs] by simp
  qed
qed simp

lemma strstr_from_Some: "strstr_from hs ns = Some r \<Longrightarrow> \<exists>as bs. hs = as @ ns @ bs \<and> r = ns @ bs"
proof (induction hs)
  case (Cons h hs)
  show ?case
  proof (cases "match_here (h # hs) ns")
    case True
    then have "h # hs = [] @ ns @ drop (length ns) (h # hs)" "r = ns @ drop (length ns) (h # hs)"
      using Cons.prems by (metis append_Nil append_take_drop_id match_here_prefix option.inject strstr_from.simps(2))+
    then show ?thesis by blast
  next
    case False
    then obtain as bs where "hs = as @ ns @ bs" "r = ns @ bs" using Cons by auto
    then have "h # hs = (h # as) @ ns @ bs" by simp
    then show ?thesis using \<open>r = ns @ bs\<close> by blast
  qed
qed simp

lemma strstr_found: "strstr hay needle \<noteq> None \<longleftrightarrow> (\<exists>as bs. hay = as @ needle @ bs)"
  unfolding strstr_def
  by (metis append_Nil not_Some_eq strstr_from_None strstr_from_Some)

subsection \<open>Decimal numbers\<close>

lemma print_num_nonneg:
  assumes "0 \<le> n" shows "print_num n = (if n \<ge> 10 then print_num (n div 10) else []) @ [digit_char (n mod 10)]"
  using assms by (subst print_num.simps) (simp add: sdiv_10)

lemma print_num_dec:
  assumes "0 \<le> n" shows "dec_value (print_num n) = n \<and> (\<forall>c \<in> set (print_num n). is_digit c) \<and> print_num n \<noteq> []"
  using assms
proof (induction "nat n" arbitrary: n rule: less_induct)
  case less
  have d: "of_char (digit_char (n mod 10)) = 48 + nat (n mod 10)" "is_digit (digit_char (n mod 10))"
    using digit_char_facts [of "n mod 10"] by auto
  show ?case
  proof (cases "n \<ge> 10")
    case True
    have "nat (n div 10) < nat n" using True by linarith
    then have IH: "dec_value (print_num (n div 10)) = n div 10" "\<forall>c \<in> set (print_num (n div 10)). is_digit c"
      using less.hyps [of "n div 10"] True by auto
    have "print_num n = print_num (n div 10) @ [digit_char (n mod 10)]" using True print_num_nonneg [of n] by simp
    then show ?thesis using IH d by (simp add: dec_value_def)
  next
    case False
    then have "print_num n = [digit_char n]" using print_num_nonneg [of n] less.prems by simp
    then show ?thesis using digit_char_facts [of n] False less.prems by (simp add: dec_value_def)
  qed
qed

lemma print_num_neg:
  assumes "- (2 ^ 63) < n" "n < 0" shows "print_num n = CHR ''-'' # print_num (- n)"
proof -
  have "wrap64 (- n) = - n" using assms by (intro wrap64_id) auto
  then have "print_num n = CHR ''-'' # (if - n \<ge> 10 then print_num (- n sdiv 10) else []) @ [digit_char (- n smod 10)]"
    using assms(2) by (subst print_num.simps) simp
  then show ?thesis using assms(2) print_num_nonneg [of "- n"] sdiv_10 [of "- n"] by simp
qed

text \<open>
  The most negative number: negating it gives it back, the test for a second digit fails, and the remainder is
  negative, so a minus sign and the character eight before \<open>0\<close> are printed.
\<close>

lemma print_num_min: "print_num (- (2 ^ 63)) = ''-(''"
proof -
  have "wrap64 (2 ^ 63) = - (2 ^ 63)" by (simp add: wrap64_def signed_take_bit_eq_if_negative bit_exp_iff)
  then show ?thesis
    by (subst print_num.simps) (simp add: signed_modulo_int_def signed_divide_int_def digit_char_def char_of_def bit_simps)
qed

end
