(* ===== verification/Calc.thy ===== *)
theory Calc
  imports Ulibc
begin

text \<open>
  The calculator \<open>userspace/calc.c\<close>: a recursive descent parser that evaluates as it goes.  The parse position
  \<open>p\<close> is the rest of the line, each function returns the value and the new rest, and \<open>calcfail\<close> is an error
  value.  Numbers are 64-bit words: the machine's arithmetic wraps, and a shift uses the count modulo 64.
  The division of the least number by -1, which traps, is an error of its own.  The functions of the cascade
  take \<open>unary\<close> as an argument; \<open>unary\<close> is defined by recursion on a bound for the nesting depth.
\<close>

subsection \<open>Values and operators\<close>

type_synonym s64 = "64 word"

datatype calc_error = Div_By_Zero | Mod_By_Zero | Trap | Too_Deep

type_synonym 'v parse = "calc_error + 'v \<times> string"

datatype binop = Mul | Div | Mod | Add | Sub | Shl | Shr | And | Xor | Or

definition int_min :: s64 where "int_min = push_bit 63 1"

definition apply_op :: "binop \<Rightarrow> s64 \<Rightarrow> s64 \<Rightarrow> calc_error + s64" where
  "apply_op f v d =
     (case f of
        Mul \<Rightarrow> Inr (v * d)
      | Div \<Rightarrow> if d = 0 then Inl Div_By_Zero else if v = int_min \<and> d = -1 then Inl Trap
               else Inr (word_of_int (sint v sdiv sint d))
      | Mod \<Rightarrow> if d = 0 then Inl Mod_By_Zero else if v = int_min \<and> d = -1 then Inl Trap
               else Inr (word_of_int (sint v smod sint d))
      | Add \<Rightarrow> Inr (v + d) | Sub \<Rightarrow> Inr (v - d)
      | Shl \<Rightarrow> Inr (push_bit (unat (d AND 63)) v) | Shr \<Rightarrow> Inr (signed_drop_bit (unat (d AND 63)) v)
      | And \<Rightarrow> Inr (v AND d) | Xor \<Rightarrow> Inr (v XOR d) | Or \<Rightarrow> Inr (v OR d))"

subsection \<open>Numbers\<close>

fun skip :: "string \<Rightarrow> string" where
  "skip (c # s) = (if c = CHR '' '' \<or> c = CHR 0x09 then skip s else c # s)"
| "skip [] = []"

definition char_between :: "char \<Rightarrow> char \<Rightarrow> char \<Rightarrow> bool" where
  "char_between a b c \<longleftrightarrow> of_char a \<le> (of_char c :: nat) \<and> of_char c \<le> (of_char b :: nat)"

definition dist :: "char \<Rightarrow> char \<Rightarrow> s64" where
  "dist c a = of_nat (of_char c) - of_nat (of_char a)"

fun digits :: "s64 \<Rightarrow> (char \<Rightarrow> s64 option) \<Rightarrow> s64 \<Rightarrow> string \<Rightarrow> s64 \<times> string" where
  "digits b d v (c # s) = (case d c of None \<Rightarrow> (v, c # s) | Some x \<Rightarrow> digits b d (v * b + x) s)"
| "digits b d v [] = (v, [])"

definition hex_digit_val :: "char \<Rightarrow> s64 option" where
  "hex_digit_val c =
     (if char_between (CHR ''0'') (CHR ''9'') c then Some (dist c (CHR ''0''))
      else if char_between (CHR ''a'') (CHR ''f'') c then Some (dist c (CHR ''a'') + 10)
      else if char_between (CHR ''A'') (CHR ''F'') c then Some (dist c (CHR ''A'') + 10) else None)"

definition digit_upto :: "char \<Rightarrow> char \<Rightarrow> s64 option" where
  "digit_upto m c = (if char_between (CHR ''0'') m c then Some (dist c (CHR ''0'')) else None)"

definition radix :: "string \<Rightarrow> s64 \<times> (char \<Rightarrow> s64 option) \<times> string" where
  "radix s =
     (case s of
        c # x # r \<Rightarrow>
          if c = CHR ''0'' \<and> (x = CHR ''x'' \<or> x = CHR ''X'') then (16, hex_digit_val, r)
          else if c = CHR ''0'' \<and> (x = CHR ''b'' \<or> x = CHR ''B'') then (2, digit_upto (CHR ''1''), r)
          else if c = CHR ''0'' \<and> (x = CHR ''o'' \<or> x = CHR ''O'') then (8, digit_upto (CHR ''7''), r)
          else (10, digit_upto (CHR ''9''), s)
      | _ \<Rightarrow> (10, digit_upto (CHR ''9''), s))"

definition parse_num :: "string \<Rightarrow> s64 \<times> string" where
  "parse_num s = (let (b, d, r) = radix (skip s) in digits b d 0 r)"

subsection \<open>The cascade\<close>

text \<open>
  The five loops have one shape: after an operand, as long as an operator of the level follows, take it and the
  next operand.  A turn of the loop consumes the operator, so the length of the rest bounds their number.
\<close>

fun level_loop :: "(string \<Rightarrow> (binop \<times> string) option) \<Rightarrow> (string \<Rightarrow> s64 parse) \<Rightarrow> nat \<Rightarrow> s64 \<Rightarrow> string \<Rightarrow> s64 parse" where
  "level_loop ops sub n v s =
     (let s = skip s
      in case ops s of
           None \<Rightarrow> Inr (v, s)
         | Some (f, r) \<Rightarrow>
             (case n of 0 \<Rightarrow> Inl Too_Deep
              | Suc m \<Rightarrow>
                 (case sub r of
                    Inl e \<Rightarrow> Inl e
                  | Inr (d, r) \<Rightarrow> (case apply_op f v d of Inl e \<Rightarrow> Inl e | Inr v \<Rightarrow> level_loop ops sub m v r))))"

declare level_loop.simps [simp del]

definition level :: "(string \<Rightarrow> (binop \<times> string) option) \<Rightarrow> (string \<Rightarrow> s64 parse) \<Rightarrow> string \<Rightarrow> s64 parse" where
  "level ops sub s = (case sub s of Inl e \<Rightarrow> Inl e | Inr (v, r) \<Rightarrow> level_loop ops sub (length r) v r)"

fun mul_op :: "string \<Rightarrow> (binop \<times> string) option" where
  "mul_op (c # r) = (if c = CHR ''*'' then Some (Mul, r) else if c = CHR ''/'' then Some (Div, r)
     else if c = CHR ''%'' then Some (Mod, r) else None)"
| "mul_op [] = None"

fun add_op :: "string \<Rightarrow> (binop \<times> string) option" where
  "add_op (c # r) = (if c = CHR ''+'' then Some (Add, r) else if c = CHR ''-'' then Some (Sub, r) else None)"
| "add_op [] = None"

fun shift_op :: "string \<Rightarrow> (binop \<times> string) option" where
  "shift_op (c # d # r) = (if c = CHR ''<'' \<and> d = CHR ''<'' then Some (Shl, r)
     else if c = CHR ''>'' \<and> d = CHR ''>'' then Some (Shr, r) else None)"
| "shift_op s = None"

fun and_op :: "string \<Rightarrow> (binop \<times> string) option" where
  "and_op (c # r) = (if c = CHR ''&'' then Some (And, r) else None)"
| "and_op [] = None"

fun xor_op :: "string \<Rightarrow> (binop \<times> string) option" where
  "xor_op (c # r) = (if c = CHR 0x5E then Some (Xor, r) else None)"
| "xor_op [] = None"

fun or_op :: "string \<Rightarrow> (binop \<times> string) option" where
  "or_op (c # r) = (if c = CHR ''|'' then Some (Or, r) else None)"
| "or_op [] = None"

definition mul :: "(string \<Rightarrow> s64 parse) \<Rightarrow> string \<Rightarrow> s64 parse" where "mul U = level mul_op U"
definition add :: "(string \<Rightarrow> s64 parse) \<Rightarrow> string \<Rightarrow> s64 parse" where "add U = level add_op (mul U)"
definition shift :: "(string \<Rightarrow> s64 parse) \<Rightarrow> string \<Rightarrow> s64 parse" where "shift U = level shift_op (add U)"
definition bit_and :: "(string \<Rightarrow> s64 parse) \<Rightarrow> string \<Rightarrow> s64 parse" where "bit_and U = level and_op (shift U)"
definition bit_xor :: "(string \<Rightarrow> s64 parse) \<Rightarrow> string \<Rightarrow> s64 parse" where "bit_xor U = level xor_op (bit_and U)"
definition expr :: "(string \<Rightarrow> s64 parse) \<Rightarrow> string \<Rightarrow> s64 parse" where "expr U = level or_op (bit_xor U)"

definition primary :: "(string \<Rightarrow> s64 parse) \<Rightarrow> string \<Rightarrow> s64 parse" where
  "primary U s =
     (case skip s of
        c # r \<Rightarrow>
          if c = CHR ''(''
          then (case expr U r of
                  Inl e \<Rightarrow> Inl e
                | Inr (v, r) \<Rightarrow> (case skip r of c # q \<Rightarrow> if c = CHR '')'' then Inr (v, q) else Inr (v, c # q) | [] \<Rightarrow> Inr (v, [])))
          else Inr (parse_num (c # r))
      | [] \<Rightarrow> Inr (parse_num []))"

definition map_val :: "(s64 \<Rightarrow> s64) \<Rightarrow> s64 parse \<Rightarrow> s64 parse" where
  "map_val f = map_sum id (map_prod f id)"

primrec unary :: "nat \<Rightarrow> string \<Rightarrow> s64 parse" where
  "unary 0 s = Inl Too_Deep"
| "unary (Suc n) s =
     (case skip s of
        c # r \<Rightarrow>
          if c = CHR ''-'' then map_val uminus (unary n r)
          else if c = CHR ''~'' then map_val (NOT) (unary n r)
          else if c = CHR ''+'' then unary n r
          else primary (unary n) (c # r)
      | [] \<Rightarrow> primary (unary n) [])"

definition calc :: "string \<Rightarrow> s64 parse" where
  "calc line = expr (unary (length line + 1)) line"

subsection \<open>The program\<close>

abbreviation LINE_SIZE :: nat where "LINE_SIZE \<equiv> 264"

fun join_args :: "string list \<Rightarrow> string" where
  "join_args [] = []"
| "join_args [a] = a"
| "join_args (a # as) = a @ CHR '' '' # join_args as"

definition read_line :: "string \<Rightarrow> string" where
  "read_line inp = take (LINE_SIZE - 1) (takeWhile (\<lambda>c. c \<noteq> CHR 0x0A) inp)"

text \<open>A trap ends the process without output: no result.\<close>

definition calcfail :: "calc_error \<Rightarrow> (string \<times> int) option" where
  "calcfail e =
     (if e = Div_By_Zero then Some (''calc: division by zero'' @ [CHR 0x0A], 1)
      else if e = Mod_By_Zero then Some (''calc: modulo by zero'' @ [CHR 0x0A], 1) else None)"

definition calc_main :: "string list \<Rightarrow> string \<Rightarrow> (string \<times> int) option" where
  "calc_main args inp =
     (let line = (if args \<noteq> [] then take (LINE_SIZE - 1) (join_args args) else read_line inp)
      in if args \<noteq> [] \<and> line = [] then Some ([], 0)
         else case calc line of
                Inl e \<Rightarrow> calcfail e
              | Inr (v, _) \<Rightarrow> Some (print_num (sint v) @ [CHR 0x0A], 0))"

subsection \<open>The parser stops\<close>

definition shrinks :: "(string \<Rightarrow> s64 parse) \<Rightarrow> bool" where
  "shrinks U \<longleftrightarrow> (\<forall>s v r. U s = Inr (v, r) \<longrightarrow> length r \<le> length s)"

definition ops_ok :: "(string \<Rightarrow> (binop \<times> string) option) \<Rightarrow> bool" where
  "ops_ok ops \<longleftrightarrow> (\<forall>s f r. ops s = Some (f, r) \<longrightarrow> length r < length s)"

lemma skip_length: "length (skip s) \<le> length s"
  by (induction s) auto

lemma ops_ok_levels: "ops_ok mul_op" "ops_ok add_op" "ops_ok shift_op" "ops_ok and_op" "ops_ok xor_op" "ops_ok or_op"
  unfolding ops_ok_def
  by (auto elim!: mul_op.elims add_op.elims shift_op.elims and_op.elims xor_op.elims or_op.elims split: if_splits)

lemma shrinksD: "shrinks U \<Longrightarrow> U s = Inr (v, r) \<Longrightarrow> length r \<le> length s"
  unfolding shrinks_def by blast

lemma ops_okD: "ops_ok ops \<Longrightarrow> ops (skip s) = Some (f, r) \<Longrightarrow> length r < length s"
  unfolding ops_ok_def using skip_length [of s] by (meson less_le_trans)

lemma loop_shrinks:
  assumes "shrinks sub" "ops_ok ops" shows "level_loop ops sub n v s = Inr (w, r) \<Longrightarrow> length r \<le> length s"
proof (induction n arbitrary: v s)
  case 0
  then show ?case using skip_length [of s] by (auto simp: level_loop.simps [of ops sub 0] Let_def split: option.splits)
next
  case (Suc n)
  show ?case
  proof (cases "ops (skip s)")
    case None
    then show ?thesis using Suc.prems skip_length [of s] by (auto simp: level_loop.simps [of ops sub "Suc n"])
  next
    case (Some x)
    obtain f q where x: "x = (f, q)" by (cases x)
    obtain d q' v' where "sub q = Inr (d, q')" "level_loop ops sub n v' q' = Inr (w, r)"
      using Suc.prems Some x by (auto simp: level_loop.simps [of ops sub "Suc n"] split: sum.splits)
    then show ?thesis using Suc.IH shrinksD [OF assms(1)] ops_okD [OF assms(2) Some [unfolded x]] by fastforce
  qed
qed

lemma level_shrinks: "shrinks sub \<Longrightarrow> ops_ok ops \<Longrightarrow> shrinks (level ops sub)"
  unfolding shrinks_def [of "level ops sub"] level_def
  by (auto split: sum.splits) (meson loop_shrinks order_trans shrinksD)

text \<open>With enough turns the loop does not depend on the bound.\<close>

lemma loop_fuel:
  assumes "shrinks sub" "ops_ok ops"
  shows "length s \<le> n \<Longrightarrow> length s \<le> m \<Longrightarrow> level_loop ops sub n v s = level_loop ops sub m v s"
proof (induction n arbitrary: m v s)
  case 0
  then show ?case using ops_okD [OF assms(2), of s]
    by (auto simp: level_loop.simps [of ops sub] Let_def split: option.split)
next
  case (Suc n)
  show ?case
  proof (cases "ops (skip s)")
    case None
    then show ?thesis by (simp add: level_loop.simps [of ops sub])
  next
    case (Some x)
    obtain f q where x: "x = (f, q)" by (cases x)
    have q: "length q < length s" using ops_okD [OF assms(2) Some [unfolded x]] .
    then obtain k where m: "m = Suc k" using Suc.prems by (cases m) auto
    have "level_loop ops sub n v' q' = level_loop ops sub k v' q'" if "sub q = Inr (d, q')" for d q' v'
      using Suc.IH [of q' k v'] shrinksD [OF assms(1) that] q Suc.prems m by simp
    then show ?thesis
      using Some x m by (auto simp: level_loop.simps [of ops sub] split: sum.split)
  qed
qed

lemma loop_total:
  assumes "shrinks sub" "ops_ok ops" "\<And>s. length s < d \<Longrightarrow> sub s \<noteq> Inl Too_Deep"
  shows "length s \<le> n \<Longrightarrow> length s < d \<Longrightarrow> level_loop ops sub n v s \<noteq> Inl Too_Deep"
proof (induction n arbitrary: v s)
  case 0
  then show ?case using ops_okD [OF assms(2), of s]
    by (auto simp: level_loop.simps [of ops sub 0] Let_def split: option.split)
next
  case (Suc n)
  show ?case
  proof (cases "ops (skip s)")
    case None
    then show ?thesis by (simp add: level_loop.simps [of ops sub])
  next
    case (Some x)
    obtain f q where x: "x = (f, q)" by (cases x)
    have q: "length q < length s" using ops_okD [OF assms(2) Some [unfolded x]] .
    have "level_loop ops sub n v' q' \<noteq> Inl Too_Deep" if "sub q = Inr (d, q')" for d q' v'
      using Suc.IH [of q' v'] shrinksD [OF assms(1) that] q Suc.prems by simp
    moreover have "sub q \<noteq> Inl Too_Deep" using assms(3) q Suc.prems by simp
    moreover have "apply_op f v d \<noteq> Inl Too_Deep" for d by (simp add: apply_op_def split: binop.split)
    ultimately show ?thesis
      using Some x by (auto simp: level_loop.simps [of ops sub "Suc n"] split: sum.split)
  qed
qed

lemma level_total:
  assumes "shrinks sub" "ops_ok ops" "\<And>s. length s < d \<Longrightarrow> sub s \<noteq> Inl Too_Deep" "length s < d"
  shows "level ops sub s \<noteq> Inl Too_Deep"
  using assms(3) [OF assms(4)] shrinksD [OF assms(1), of s] loop_total [OF assms(1,2,3) order_refl] assms(4)
  unfolding level_def by (auto split: sum.split)

lemma cascade_shrinks:
  assumes "shrinks U" shows "shrinks (mul U)" "shrinks (add U)" "shrinks (shift U)" "shrinks (bit_and U)" "shrinks (bit_xor U)" "shrinks (expr U)"
  unfolding mul_def add_def shift_def bit_and_def bit_xor_def expr_def
  by (intro level_shrinks ops_ok_levels assms)+

lemma expr_total:
  assumes "shrinks U" "\<And>s. length s < d \<Longrightarrow> U s \<noteq> Inl Too_Deep" "length s < d" shows "expr U s \<noteq> Inl Too_Deep"
proof -
  note sh = cascade_shrinks [OF assms(1), unfolded mul_def add_def shift_def bit_and_def bit_xor_def expr_def]
  show ?thesis unfolding mul_def add_def shift_def bit_and_def bit_xor_def expr_def
    using assms(3) by (intro level_total [where d = d] sh assms(1,2) ops_ok_levels) assumption+
qed

lemma digits_length: "digits b d v s = (w, r) \<Longrightarrow> length r \<le> length s"
  by (induction b d v s rule: digits.induct) (fastforce split: option.splits)+

lemma radix_length: "radix s = (b, d, r) \<Longrightarrow> length r \<le> length s"
  by (auto simp: radix_def split: list.splits if_splits)

lemma parse_num_length: "parse_num s = (v, r) \<Longrightarrow> length r \<le> length s"
  using skip_length [of s] by (auto simp: parse_num_def split: prod.splits) (meson digits_length le_trans radix_length)

lemma primary_shrinks:
  assumes "shrinks U" shows "shrinks (primary U)"
  unfolding shrinks_def
proof (intro allI impI)
  fix s v r assume p: "primary U s = Inr (v, r)"
  show "length r \<le> length s"
  proof (cases "skip s")
    case Nil
    then have "parse_num [] = (v, r)" using p by (simp add: primary_def)
    then show ?thesis using parse_num_length by fastforce
  next
    case (Cons c q)
    have s: "Suc (length q) \<le> length s" using skip_length [of s] Cons by simp
    show ?thesis
    proof (cases "c = CHR ''(''")
      case True
      then obtain w t where e: "expr U q = Inr (w, t)" using p Cons by (auto simp: primary_def split: sum.splits)
      have "length (skip t) \<le> length q" using shrinksD [OF cascade_shrinks(6) [OF assms] e] skip_length [of t] by simp
      moreover have "length r \<le> length (skip t)" using p Cons True e
        by (cases "skip t"; cases "hd (skip t) = CHR '')''") (auto simp: primary_def)
      ultimately show ?thesis using s by linarith
    next
      case False
      then have "parse_num (c # q) = (v, r)" using p Cons by (simp add: primary_def)
      then show ?thesis using parse_num_length s by fastforce
    qed
  qed
qed

lemma map_val_Inr: "map_val f x = Inr (v, r) \<Longrightarrow> \<exists>w. x = Inr (w, r)"
  by (cases x) (auto simp: map_val_def)

lemma unary_shrinks: "shrinks (unary n)"
proof (induction n)
  case 0
  show ?case by (simp add: shrinks_def)
next
  case (Suc n)
  show ?case
    unfolding shrinks_def
  proof (intro allI impI)
    fix s v r assume u: "unary (Suc n) s = Inr (v, r)"
    show "length r \<le> length s"
    proof (cases "skip s")
      case Nil
      then show ?thesis using u shrinksD [OF primary_shrinks [OF Suc.IH]] by fastforce
    next
      case (Cons c q)
      have s: "Suc (length q) \<le> length s" using skip_length [of s] Cons by simp
      consider w where "unary n q = Inr (w, r)" | "primary (unary n) (c # q) = Inr (v, r)"
        using u Cons map_val_Inr by (auto split: if_splits) blast+
      then show ?thesis using s shrinksD [OF Suc.IH] shrinksD [OF primary_shrinks [OF Suc.IH]] by cases fastforce+
    qed
  qed
qed

lemma primary_total:
  assumes "shrinks U" "\<And>s. length s < d \<Longrightarrow> U s \<noteq> Inl Too_Deep" "length s \<le> d" shows "primary U s \<noteq> Inl Too_Deep"
proof (cases "skip s")
  case (Cons c q)
  then have "length q < d" using skip_length [of s] assms(3) by simp
  then have "expr U q \<noteq> Inl Too_Deep" using expr_total [OF assms(1), of d q] assms(2) by blast
  then show ?thesis using Cons by (auto simp: primary_def split: sum.splits list.splits)
qed (simp add: primary_def)

lemma unary_total: "length s < n \<Longrightarrow> unary n s \<noteq> Inl Too_Deep"
proof (induction n arbitrary: s)
  case (Suc n)
  have p: "primary (unary n) t \<noteq> Inl Too_Deep" if "length t \<le> n" for t
    using primary_total [OF unary_shrinks, of n n t] Suc.IH that by blast
  show ?case
  proof (cases "skip s")
    case Nil
    then show ?thesis using p by simp
  next
    case (Cons c q)
    then have l: "length q < n \<or> length (c # q) \<le> n" "length q < n" using skip_length [of s] Suc.prems by auto
    have "map_val f (unary n q) \<noteq> Inl Too_Deep" for f
      using Suc.IH [of q] l(2) by (cases "unary n q") (auto simp: map_val_def)
    then show ?thesis using Cons l(2) p [of "c # q"] Suc.IH [of q] by simp
  qed
qed simp

lemma calc_total: "calc line \<noteq> Inl Too_Deep"
  unfolding calc_def using expr_total [OF unary_shrinks, of "length line + 1" "length line + 1" line] unary_total by (metis less_add_one)

subsection \<open>Expressions\<close>

datatype aexp = Num nat | Neg aexp | Cpl aexp | Pos aexp | Bin binop aexp aexp

fun val :: "aexp \<Rightarrow> calc_error + s64" where
  "val (Num n) = Inr (of_nat n)"
| "val (Neg e) = map_sum id uminus (val e)"
| "val (Cpl e) = map_sum id (NOT) (val e)"
| "val (Pos e) = val e"
| "val (Bin f a b) = (case val a of Inl x \<Rightarrow> Inl x | Inr v \<Rightarrow> (case val b of Inl x \<Rightarrow> Inl x | Inr w \<Rightarrow> apply_op f v w))"

fun prec :: "binop \<Rightarrow> nat" where
  "prec Or = 0" | "prec Xor = 1" | "prec And = 2" | "prec Shl = 3" | "prec Shr = 3" | "prec Add = 4" | "prec Sub = 4"
| "prec Mul = 5" | "prec Div = 5" | "prec Mod = 5"

fun symbol :: "binop \<Rightarrow> string" where
  "symbol Or = ''|''" | "symbol Xor = [CHR 0x5E]" | "symbol And = ''&''" | "symbol Shl = ''<<''" | "symbol Shr = ''>>''"
| "symbol Add = ''+''" | "symbol Sub = ''-''" | "symbol Mul = ''*''" | "symbol Div = ''/''" | "symbol Mod = ''%''"

text \<open>The text of an expression at a level, with parentheses only where the table of operators needs them.\<close>

fun text_at :: "nat \<Rightarrow> aexp \<Rightarrow> string" where
  "text_at l (Num n) = print_num (int n)"
| "text_at l (Neg e) = CHR ''-'' # text_at 6 e"
| "text_at l (Cpl e) = CHR ''~'' # text_at 6 e"
| "text_at l (Pos e) = CHR ''+'' # text_at 6 e"
| "text_at l (Bin f a b) =
     (let s = text_at (prec f) a @ symbol f @ text_at (Suc (prec f)) b in if prec f < l then ''('' @ s @ '')'' else s)"

fun ops :: "nat \<Rightarrow> string \<Rightarrow> (binop \<times> string) option" where
  "ops l = [or_op, xor_op, and_op, shift_op, add_op, mul_op] ! l"

fun parser :: "nat \<Rightarrow> (string \<Rightarrow> s64 parse) \<Rightarrow> string \<Rightarrow> s64 parse" where
  "parser l U = [expr U, bit_xor U, bit_and U, shift U, add U, mul U, U] ! l"

declare ops.simps [simp del] parser.simps [simp del]

lemma less_6: "l < 6 \<Longrightarrow> l = 0 \<or> l = 1 \<or> l = 2 \<or> l = 3 \<or> l = 4 \<or> l = (5 :: nat)"
  by auto

lemma parser_level: "l < 6 \<Longrightarrow> parser l U = level (ops l) (parser (Suc l) U)"
  by (drule less_6) (auto simp: parser.simps ops.simps mul_def add_def shift_def bit_and_def bit_xor_def expr_def)

lemma parser_6: "parser 6 U = U" and parser_0: "parser 0 U = expr U"
  by (simp_all add: parser.simps)

lemma ops_ok: "l < 6 \<Longrightarrow> ops_ok (ops l)"
  by (drule less_6) (auto simp: ops.simps ops_ok_levels)

lemma parser_shrinks: "shrinks U \<Longrightarrow> l \<le> 6 \<Longrightarrow> shrinks (parser l U)"
  using cascade_shrinks [of U] less_6 [of l] by (cases "l = 6") (auto simp: parser.simps)

lemma ops_symbol: "ops (prec f) (symbol f @ r) = Some (f, r)"
  by (cases f) (auto simp: ops.simps)

lemma ops_other: "l < 6 \<Longrightarrow> l \<noteq> prec f \<Longrightarrow> ops l (symbol f @ r) = None"
  by (drule less_6, cases f; cases r) (auto simp: ops.simps)

subsection \<open>Parsing the text of an expression evaluates it\<close>

text \<open>What may follow the text of an expression at a level: no operator that binds tighter, no blank, no part of a number.\<close>

definition head_ok :: "string \<Rightarrow> bool" where
  "head_ok r \<longleftrightarrow> (case r of [] \<Rightarrow> True | c # _ \<Rightarrow> c \<in> set '')|&<>+-*/%'' \<or> c = CHR 0x5E)"

definition follow :: "nat \<Rightarrow> string \<Rightarrow> bool" where
  "follow l r \<longleftrightarrow> head_ok r \<and> (\<forall>m < 6. l < m \<longrightarrow> ops m r = None)"

lemma skip_head_ok: "head_ok r \<Longrightarrow> skip r = r"
  by (cases r) (auto simp: head_ok_def)

lemma digit_head_ok: "head_ok (c # r) \<Longrightarrow> digit_upto (CHR ''9'') c = None \<and> c \<notin> set ''xXbBoO''"
  by (auto simp: head_ok_def digit_upto_def char_between_def)

lemma follow_Suc: "follow l r \<Longrightarrow> follow (Suc l) r"
  by (auto simp: follow_def)

lemma head_ok_symbol: "head_ok (symbol f @ r)"
  by (cases f) (auto simp: head_ok_def)

lemma follow_symbol: "follow (prec f) (symbol f @ r)"
  using ops_other [of _ f r] by (auto simp: follow_def head_ok_symbol)

lemma follow_paren: "follow l (CHR '')'' # r)"
proof -
  have "ops m (CHR '')'' # r) = None" if "m < 6" for m
    using less_6 [OF that] by (cases r) (auto simp: ops.simps)
  then show ?thesis by (simp add: follow_def head_ok_def)
qed

lemma follow_Nil: "follow l []"
proof -
  have "ops m [] = None" if "m < 6" for m using less_6 [OF that] by (auto simp: ops.simps)
  then show ?thesis by (simp add: follow_def head_ok_def)
qed

definition cont :: "nat \<Rightarrow> (string \<Rightarrow> s64 parse) \<Rightarrow> s64 \<Rightarrow> string \<Rightarrow> s64 parse" where
  "cont l U v r = (if l = 6 then Inr (v, r) else level_loop (ops l) (parser (Suc l) U) (length r) v r)"

lemma cont_stop: "head_ok r \<Longrightarrow> l = 6 \<or> ops l r = None \<Longrightarrow> cont l U v r = Inr (v, r)"
  by (auto simp: cont_def level_loop.simps [of "ops l"] skip_head_ok)

lemma follow_stop: "follow l r \<Longrightarrow> l < 6 \<Longrightarrow> cont (Suc l) U v r = Inr (v, r)"
  by (cases "Suc l = 6") (auto simp: follow_def intro!: cont_stop)

lemma loop_cont: "l < 6 \<Longrightarrow> shrinks U \<Longrightarrow> length r \<le> n \<Longrightarrow> level_loop (ops l) (parser (Suc l) U) n v r = cont l U v r"
  unfolding cont_def by (simp add: loop_fuel [OF parser_shrinks ops_ok, of U "Suc l" l r n "length r" v])

text \<open>At a level the parser reads the text, evaluates it, and goes on with the operators of the level.\<close>

definition parses :: "nat \<Rightarrow> aexp \<Rightarrow> bool" where
  "parses l e \<longleftrightarrow> (\<forall>d r. length (text_at l e @ r) < d \<longrightarrow> follow l r \<longrightarrow>
     parser l (unary d) (text_at l e @ r) = (case val e of Inl x \<Rightarrow> Inl x | Inr v \<Rightarrow> cont l (unary d) v r))"

lemma parses_stop:
  assumes "parses l e" "length (text_at l e @ r) < d" "follow l r" "\<And>v. cont l (unary d) v r = Inr (v, r)"
  shows "parser l (unary d) (text_at l e @ r) = (case val e of Inl x \<Rightarrow> Inl x | Inr v \<Rightarrow> Inr (v, r))"
  using assms unfolding parses_def by (cases "val e") simp_all

lemma parses_down:
  assumes "parses (Suc l) e" "l < 6" "text_at l e = text_at (Suc l) e" shows "parses l e"
  unfolding parses_def
proof (intro allI impI)
  fix d r assume d: "length (text_at l e @ r) < d" and f: "follow l r"
  have stop: "cont (Suc l) (unary d) v r = Inr (v, r)" for v using f assms(2) by (rule follow_stop)
  have "parser (Suc l) (unary d) (text_at l e @ r) = (case val e of Inl x \<Rightarrow> Inl x | Inr v \<Rightarrow> Inr (v, r))"
    using parses_stop [OF assms(1) _ follow_Suc [OF f] stop] d assms(3) by simp
  then show "parser l (unary d) (text_at l e @ r) = (case val e of Inl x \<Rightarrow> Inl x | Inr v \<Rightarrow> cont l (unary d) v r)"
    using assms(2) by (simp add: parser_level level_def cont_def split: sum.split)
qed

lemma parses_downs:
  assumes "parses m e" "l \<le> m" "m \<le> 6" "\<And>j. l \<le> j \<Longrightarrow> j < m \<Longrightarrow> text_at j e = text_at (Suc j) e" shows "parses l e"
  using assms(2,1,3,4)
proof (induction rule: inc_induct)
  case (step n)
  then show ?case using parses_down [of n e] by auto
qed simp

lemma parses_bin:
  assumes "parses (prec f) a" "parses (Suc (prec f)) b" shows "parses (prec f) (Bin f a b)"
  unfolding parses_def
proof (intro allI impI)
  let ?l = "prec f"
  fix d r assume d: "length (text_at ?l (Bin f a b) @ r) < d" and f: "follow ?l r"
  let ?rb = "text_at (Suc ?l) b @ r"
  have l: "?l < 6" by (cases f) auto
  have rb: "length ?rb < d" using d by (simp add: Let_def)
  have stop: "cont (Suc ?l) (unary d) v r = Inr (v, r)" for v using f l by (rule follow_stop)
  have b: "parser (Suc ?l) (unary d) ?rb = (case val b of Inl x \<Rightarrow> Inl x | Inr v \<Rightarrow> Inr (v, r))"
    by (rule parses_stop [OF assms(2) rb follow_Suc [OF f] stop])
  have op: "cont ?l (unary d) v (symbol f @ ?rb) = (case val b of Inl x \<Rightarrow> Inl x | Inr w \<Rightarrow>
      (case apply_op f v w of Inl x \<Rightarrow> Inl x | Inr u \<Rightarrow> cont ?l (unary d) u r))" for v
  proof -
    obtain n where n: "length (symbol f @ ?rb) = Suc n" "length r \<le> n" by (cases f) auto
    show ?thesis
      unfolding cont_def [of ?l _ v] n(1) level_loop.simps [of "ops ?l" _ "Suc n"] skip_head_ok [OF head_ok_symbol] ops_symbol
      using l b loop_cont [OF l unary_shrinks n(2)] by (auto simp: Let_def ops_symbol split: sum.split)
  qed
  have "parser ?l (unary d) (text_at ?l a @ symbol f @ ?rb) = (case val a of Inl x \<Rightarrow> Inl x | Inr v \<Rightarrow> cont ?l (unary d) v (symbol f @ ?rb))"
    using assms(1) d follow_symbol [of f ?rb] unfolding parses_def by (simp add: Let_def)
  then show "parser ?l (unary d) (text_at ?l (Bin f a b) @ r) = (case val (Bin f a b) of Inl x \<Rightarrow> Inl x | Inr v \<Rightarrow> cont ?l (unary d) v r)"
    by (simp add: Let_def op split: sum.split)
qed

lemma parses_paren:
  assumes "parses 0 (Bin f a b)" shows "parses 6 (Bin f a b)"
  unfolding parses_def
proof (intro allI impI)
  fix d r assume d: "length (text_at 6 (Bin f a b) @ r) < d" and "follow 6 r"
  have t: "text_at 6 (Bin f a b) = ''('' @ text_at 0 (Bin f a b) @ '')''" by (cases f) (simp_all add: Let_def)
  obtain n where n: "d = Suc n" using d by (cases d) auto
  have c: "cont 0 (unary n) v (CHR '')'' # r) = Inr (v, CHR '')'' # r)" for v
    using follow_paren [of 0 r] by (intro cont_stop) (auto simp: follow_def ops.simps)
  have "expr (unary n) (text_at 0 (Bin f a b) @ CHR '')'' # r) = (case val (Bin f a b) of Inl x \<Rightarrow> Inl x | Inr v \<Rightarrow> Inr (v, CHR '')'' # r))"
  proof -
    have "length (text_at 0 (Bin f a b) @ CHR '')'' # r) < n" using d n unfolding t by simp
    then show ?thesis by (rule parses_stop [OF assms _ follow_paren c, unfolded parser_0])
  qed
  then show "parser 6 (unary d) (text_at 6 (Bin f a b) @ r) = (case val (Bin f a b) of Inl x \<Rightarrow> Inl x | Inr v \<Rightarrow> cont 6 (unary d) v r)"
    unfolding t n parser_6 by (simp add: primary_def cont_def split: sum.split)
qed

lemma digits_dec:
  assumes "\<forall>c \<in> set s. is_digit c" "head_ok r"
  shows "digits 10 (digit_upto (CHR ''9'')) (of_int v) (s @ r) = (of_int (foldl (\<lambda>v c. v * 10 + (int (of_char c) - 48)) v s), r)"
  using assms(1)
proof (induction s arbitrary: v)
  case Nil
  then show ?case using digit_head_ok [of _ "tl r"] assms(2) by (cases r) auto
next
  case (Cons c s)
  then have "digit_upto (CHR ''9'') c = Some (of_int (int (of_char c) - 48))"
    by (simp add: digit_upto_def char_between_def is_digit_def dist_def)
  then show ?case using Cons.IH [of "v * 10 + (int (of_char c) - 48)"] Cons.prems by simp
qed

lemma parse_num_print:
  assumes "head_ok r" shows "parse_num (print_num (int n) @ r) = (of_nat n, r)"
proof -
  let ?s = "print_num (int n)"
  note dec = print_num_dec [of "int n", simplified]
  obtain c t where ct: "?s = c # t" using dec by (cases ?s) auto
  have dig: "is_digit x" if "x \<in> set ?s" for x using dec that by blast
  have "is_digit c" using dig ct by simp
  then have sk: "skip (?s @ r) = ?s @ r" using ct by (auto simp: is_digit_def)
  have nox: "x \<notin> set ''xXbBoO''" if "t @ r = x # q" for x q
  proof (cases t)
    case Nil
    then show ?thesis using digit_head_ok [of x q] assms that by simp
  next
    case (Cons y t')
    then have "is_digit x" using dig ct that by simp
    then show ?thesis by (auto simp: is_digit_def)
  qed
  have "radix (?s @ r) = (10, digit_upto (CHR ''9''), ?s @ r)"
    using nox unfolding ct radix_def by (cases "t @ r") (auto split: list.split)
  then show ?thesis using digits_dec [of ?s r 0] dec assms sk by (simp add: parse_num_def dec_value_def)
qed

lemma unary_num:
  assumes "head_ok r" "0 < d" shows "unary d (print_num (int n) @ r) = Inr (of_nat n, r)"
proof -
  obtain m where m: "d = Suc m" using assms(2) by (cases d) auto
  note dec = print_num_dec [of "int n", simplified]
  obtain c t where ct: "print_num (int n) = c # t" using dec by (cases "print_num (int n)") auto
  then have "is_digit c" using dec by simp
  then have c: "c \<notin> set ''-~+( '' \<and> c \<noteq> CHR 0x09" by (auto simp: is_digit_def)
  have "unary d (print_num (int n) @ r) = Inr (parse_num (print_num (int n) @ r))"
    using c unfolding m ct by (simp add: primary_def)
  then show ?thesis using parse_num_print [OF assms(1)] by simp
qed

lemma parses_unary:
  assumes "parses 6 e" shows "parses 6 (Neg e)" "parses 6 (Cpl e)" "parses 6 (Pos e)"
proof -
  have e: "unary n (text_at 6 e @ r) = (case val e of Inl x \<Rightarrow> Inl x | Inr v \<Rightarrow> Inr (v, r))"
    if "Suc (length (text_at 6 e @ r)) < Suc n" "follow 6 r" for n r
    using parses_stop [OF assms, of r n, unfolded parser_6] that by (simp add: cont_def)

  have *: "unary d (text_at 6 e' @ r) = (case val e' of Inl x \<Rightarrow> Inl x | Inr v \<Rightarrow> cont 6 (unary d) v r)"
    if "length (text_at 6 e' @ r) < d" "follow 6 r" "e' \<in> {Neg e, Cpl e, Pos e}" for d e' r
  proof -
    have "Suc (length (text_at 6 e @ r)) < d" using that by auto
    then obtain n where n: "d = Suc n" "length (text_at 6 e @ r) < n" by (cases d) auto
    show ?thesis using that(3) e [of r n] n that(2) by (auto simp: map_val_def cont_def split: sum.split)
  qed
  then show "parses 6 (Neg e)" "parses 6 (Cpl e)" "parses 6 (Pos e)"
    unfolding parses_def parser_6 by blast+
qed

lemma parses_all: "l \<le> 6 \<Longrightarrow> parses l e"
proof (induction e arbitrary: l)
  case (Num n)
  have "parses 6 (Num n)"
    unfolding parses_def parser_6 cont_def by (auto simp: follow_def unary_num)
  then show ?case using Num by (rule parses_downs) auto
next
  case (Neg e)
  then show ?case using parses_unary(1) [of e] parses_downs [of 6 "Neg e" l] by simp
next
  case (Cpl e)
  then show ?case using parses_unary(2) [of e] parses_downs [of 6 "Cpl e" l] by simp
next
  case (Pos e)
  then show ?case using parses_unary(3) [of e] parses_downs [of 6 "Pos e" l] by simp
next
  case (Bin f a b)
  have p: "prec f < 6" by (cases f) auto
  then have exact: "parses (prec f) (Bin f a b)" using parses_bin Bin.IH by simp
  have low: "parses l (Bin f a b)" if "l \<le> prec f" for l
    by (rule parses_downs [OF exact that]) (use p in \<open>simp_all add: Let_def\<close>)
  show ?case
  proof (cases "l \<le> prec f")
    case False
    have "parses 6 (Bin f a b)" using parses_paren [OF low] by simp
    then show ?thesis using Bin.prems by (rule parses_downs) (use False in \<open>simp_all add: Let_def\<close>)
  qed (rule low)
qed

subsection \<open>Properties\<close>

text \<open>
  (C23) The calculator parses and evaluates: on every line the parser stops within its depth bound; and on the
  text of any expression, written with only the parentheses that the precedence table and left associativity
  require, it returns the value of the expression and consumes the whole text, or the error the expression has.
\<close>

theorem calc_correct:
  "calc line \<noteq> Inl Too_Deep \<and>
   calc (text_at 0 e) = (case val e of Inl x \<Rightarrow> Inl x | Inr v \<Rightarrow> Inr (v, []))"
proof -
  have "cont 0 U v [] = Inr (v, [])" for U v by (intro cont_stop) (simp_all add: head_ok_def ops.simps)
  then have "expr (unary (length (text_at 0 e) + 1)) (text_at 0 e @ []) = (case val e of Inl x \<Rightarrow> Inl x | Inr v \<Rightarrow> Inr (v, []))"
    using parses_stop [OF parses_all _ follow_Nil, of 0 e "length (text_at 0 e) + 1", unfolded parser_0] by (simp del: unary.simps)
  then show ?thesis using calc_total by (simp add: calc_def del: unary.simps)
qed

end
