(* ===== verification/Utools.thy ===== *)
theory Utools
  imports Ulibc
begin

text \<open>
  Small user programs: \<open>wc\<close>, \<open>grep\<close>, \<open>echo\<close>, \<open>cat\<close>, \<open>uptime\<close> and \<open>date\<close> of \<open>userspace/\<close>.  Each is the function from
  what it reads to what it writes; what \<open>open\<close> and \<open>read\<close> return are arguments.
\<close>

subsection \<open>wc\<close>

definition blank :: "char \<Rightarrow> bool" where
  "blank c \<longleftrightarrow> c = CHR '' '' \<or> c = CHR 0x0A \<or> c = CHR 0x09"

record wc_state =
  wc_lines :: int
  wc_words :: int
  wc_bytes :: int
  in_word :: bool

definition wc_step :: "char \<Rightarrow> wc_state \<Rightarrow> wc_state" where
  "wc_step c s =
     (let s = s\<lparr>wc_bytes := wc_bytes s + 1\<rparr>;
          s = (if c = CHR 0x0A then s\<lparr>wc_lines := wc_lines s + 1\<rparr> else s)
      in if blank c then s\<lparr>in_word := False\<rparr>
         else if \<not> in_word s then s\<lparr>in_word := True, wc_words := wc_words s + 1\<rparr> else s)"

definition wc_count :: "string \<Rightarrow> wc_state" where
  "wc_count inp = fold wc_step inp \<lparr>wc_lines = 0, wc_words = 0, wc_bytes = 0, in_word = False\<rparr>"

definition wc_main :: "string \<Rightarrow> string" where
  "wc_main inp = (let s = wc_count inp
     in print_num (wc_lines s) @ '' '' @ print_num (wc_words s) @ '' '' @ print_num (wc_bytes s) @ [CHR 0x0A])"

subsection \<open>grep\<close>

abbreviation LINE_MAX_LEN :: nat where "LINE_MAX_LEN \<equiv> 512"

definition grep_line :: "string \<Rightarrow> string \<Rightarrow> string" where
  "grep_line pat line = (if strstr line pat \<noteq> None then line @ [CHR 0x0A] else [])"

fun grep_loop :: "string \<Rightarrow> string \<Rightarrow> string \<Rightarrow> string" where
  "grep_loop pat line [] = (if length line > 0 then grep_line pat line else [])"
| "grep_loop pat line (c # cs) =
     (if c = CHR 0x0A \<or> length line + 1 \<ge> LINE_MAX_LEN then grep_line pat line @ grep_loop pat [] cs
      else grep_loop pat (line @ [c]) cs)"

definition grep_main :: "string option \<Rightarrow> string \<Rightarrow> string \<times> int" where
  "grep_main arg inp =
     (case arg of None \<Rightarrow> (''usage: grep <pattern>'' @ [CHR 0x0A], 1) | Some pat \<Rightarrow> (grep_loop pat [] inp, 0))"

subsection \<open>echo, cat, uptime, date\<close>

fun echo_args :: "string list \<Rightarrow> string" where
  "echo_args [] = []"
| "echo_args [a] = a"
| "echo_args (a # as) = a @ '' '' @ echo_args as"

definition echo_main :: "string list \<Rightarrow> string" where
  "echo_main args = echo_args args @ [CHR 0x0A]"

definition cat_main :: "string option \<Rightarrow> int \<Rightarrow> string list \<Rightarrow> string \<times> int" where
  "cat_main arg fd chunks =
     (case arg of
        None \<Rightarrow> (''usage: cat <file>'' @ [CHR 0x0A], 1)
      | Some f \<Rightarrow> if fd < 0 then (''cat: cannot open '' @ f @ [CHR 0x0A], 1) else (concat chunks, 0))"

definition uptime_main :: "int \<Rightarrow> int \<Rightarrow> string \<Rightarrow> string \<times> int" where
  "uptime_main fd n buf =
     (if fd < 0 then (''uptime: cannot open /proc/uptime'' @ [CHR 0x0A], 1)
      else let n = (if n < 0 then 0 else n) in (''up '' @ takeWhile (\<lambda>c. c \<noteq> CHR 0x00) (take (nat n) buf), 0))"

definition P2 :: "u32 \<Rightarrow> string" where
  "P2 v = [digit_char (uint (v div 10)), digit_char (uint (v mod 10))]"

record timeval =
  tv_sec :: u32
  tv_min :: u32
  tv_hour :: u32
  tv_day :: u32
  tv_mon :: u32
  tv_year :: u32
  uptime_s :: u32

definition date_main :: "timeval option \<Rightarrow> string \<times> int" where
  "date_main r =
     (case r of
        None \<Rightarrow> (''date: failed'' @ [CHR 0x0A], 1)
      | Some tv \<Rightarrow> (P2 (tv_day tv) @ ''.'' @ P2 (tv_mon tv) @ ''.20'' @ P2 (tv_year tv mod 100) @ '' '' @
          P2 (tv_hour tv) @ '':'' @ P2 (tv_min tv) @ '':'' @ P2 (tv_sec tv) @ [CHR 0x0A], 0))"

subsection \<open>Counting\<close>

text \<open>The words of a text: its longest runs without blanks.\<close>

function words :: "string \<Rightarrow> string list" where
  "words [] = []"
| "words (c # s) = (if blank c then words s
     else (c # takeWhile (\<lambda>c. \<not> blank c) s) # words (dropWhile (\<lambda>c. \<not> blank c) s))"
  by pat_completeness auto
termination
  by (relation "measure length") (simp_all add: less_Suc_eq_le length_dropWhile_le)

lemma wc_fold:
  "fold wc_step inp s =
     \<lparr>wc_lines = wc_lines s + int (length (filter (\<lambda>c. c = CHR 0x0A) inp)),
      wc_words = wc_words s + int (length (words (if in_word s then dropWhile (\<lambda>c. \<not> blank c) inp else inp))),
      wc_bytes = wc_bytes s + int (length inp),
      in_word = (if inp = [] then in_word s else \<not> blank (last inp))\<rparr>"
proof (induction inp arbitrary: s)
  case (Cons c inp)
  have "wc_step c s = \<lparr>wc_lines = wc_lines s + (if c = CHR 0x0A then 1 else 0),
      wc_words = wc_words s + (if \<not> blank c \<and> \<not> in_word s then 1 else 0), wc_bytes = wc_bytes s + 1, in_word = \<not> blank c\<rparr>"
    by (simp add: wc_step_def Let_def)
  then show ?case using Cons.IH [of "wc_step c s"] by (auto simp: dropWhile_eq_self_iff)
qed simp

lemma wc_correct:
  "wc_main inp = print_num (int (length (filter (\<lambda>c. c = CHR 0x0A) inp))) @ '' '' @
     print_num (int (length (words inp))) @ '' '' @ print_num (int (length inp)) @ [CHR 0x0A]"
  by (simp add: wc_main_def wc_count_def wc_fold)

subsection \<open>Searching\<close>

lemma grep_loop_line:
  "CHR 0x0A \<notin> set l \<Longrightarrow> length line + length l < LINE_MAX_LEN - 1 \<Longrightarrow>
   grep_loop pat line (l @ CHR 0x0A # cs) = grep_line pat (line @ l) @ grep_loop pat [] cs"
  by (induction l arbitrary: line) auto

text \<open>On lines of at most 510 characters \<open>grep\<close> prints exactly the lines that contain the pattern, in order.\<close>

lemma grep_correct:
  assumes "\<forall>l \<in> set ls. CHR 0x0A \<notin> set l \<and> length l < LINE_MAX_LEN - 1"
  shows "grep_loop pat [] (concat (map (\<lambda>l. l @ [CHR 0x0A]) ls)) =
    concat (map (\<lambda>l. l @ [CHR 0x0A]) (filter (\<lambda>l. \<exists>as bs. l = as @ pat @ bs) ls))"
proof -
  have "grep_line pat l = (if \<exists>as bs. l = as @ pat @ bs then l @ [CHR 0x0A] else [])" for l
    unfolding grep_line_def strstr_found ..
  then show ?thesis using assms by (induction ls) (simp_all add: grep_loop_line)
qed

text \<open>At the 512th character of a line the buffer is full: the line is cut there and that character is lost.\<close>

lemma grep_drops_char:
  assumes "length l = LINE_MAX_LEN - 1" "CHR 0x0A \<notin> set l"
  shows "grep_loop pat [] (l @ c # cs) = grep_line pat l @ grep_loop pat [] cs"
proof -
  have "grep_loop pat line (l @ c # cs) = grep_line pat (line @ l) @ grep_loop pat [] cs"
    if "length line + length l = LINE_MAX_LEN - 1" for line
    using that assms(2) by (induction l arbitrary: line) auto
  then show ?thesis using assms(1) by (metis append_Nil add_0 list.size(3))
qed

end
