(* ===== verification/Devices.thy ===== *)
theory Devices
  imports Prelude
begin

text \<open>
  Two small input devices: the CMOS clock, \<open>kernel/src/drivers/rtc.c\<close>, and the PS/2 mouse,
  \<open>kernel/src/drivers/mouse.c\<close>.  Port reads are arguments: for the clock a function from the number of reads
  done so far and the register to the byte read, for the mouse the bytes of each interrupt.
\<close>

subsection \<open>The clock\<close>

type_synonym cmos = "nat \<Rightarrow> u8 \<Rightarrow> u8"

abbreviation RTC_SEC :: u8 where "RTC_SEC \<equiv> 0x00"
abbreviation RTC_MIN :: u8 where "RTC_MIN \<equiv> 0x02"
abbreviation RTC_HOUR :: u8 where "RTC_HOUR \<equiv> 0x04"
abbreviation RTC_DAY :: u8 where "RTC_DAY \<equiv> 0x07"
abbreviation RTC_MON :: u8 where "RTC_MON \<equiv> 0x08"
abbreviation RTC_YEAR :: u8 where "RTC_YEAR \<equiv> 0x09"
abbreviation RTC_A :: u8 where "RTC_A \<equiv> 0x0A"
abbreviation RTC_B :: u8 where "RTC_B \<equiv> 0x0B"

record mmix_rtc =
  rt_sec :: u32
  rt_min :: u32
  rt_hour :: u32
  rt_day :: u32
  rt_mon :: u32
  rt_year :: u32

definition updating :: "cmos \<Rightarrow> nat \<Rightarrow> bool" where
  "updating cm t \<longleftrightarrow> cm t RTC_A AND 0x80 \<noteq> 0"

partial_function (option) wait_update :: "cmos \<Rightarrow> nat \<Rightarrow> nat option" where
  "wait_update cm t = (if updating cm t then wait_update cm (t + 1) else Some (t + 1))"

definition to_binary :: "u8 \<Rightarrow> u8 \<Rightarrow> u8" where
  "to_binary v regb = (if regb AND 0x04 \<noteq> 0 then v else (v AND 0x0F) + drop_bit 4 v * 10)"

definition rtc_read :: "cmos \<Rightarrow> mmix_rtc option" where
  "rtc_read cm =
     (case wait_update cm 0 of
        None \<Rightarrow> None
      | Some t \<Rightarrow>
          let sec = cm t RTC_SEC; min = cm (t + 1) RTC_MIN; hour = cm (t + 2) RTC_HOUR;
              day = cm (t + 3) RTC_DAY; mon = cm (t + 4) RTC_MON; year = cm (t + 5) RTC_YEAR;
              regb = cm (t + 6) RTC_B
          in case wait_update cm (t + 7) of
               None \<Rightarrow> None
             | Some t \<Rightarrow>
                 let (sec, min, hour, day, mon, year) =
                       (if sec \<noteq> cm t RTC_SEC
                        then (cm (t + 1) RTC_SEC, cm (t + 2) RTC_MIN, cm (t + 3) RTC_HOUR,
                              cm (t + 4) RTC_DAY, cm (t + 5) RTC_MON, cm (t + 6) RTC_YEAR)
                        else (sec, min, hour, day, mon, year))
                 in Some \<lparr>rt_sec = ucast (to_binary sec regb), rt_min = ucast (to_binary min regb),
                          rt_hour = ucast (to_binary hour regb), rt_day = ucast (to_binary day regb),
                          rt_mon = ucast (to_binary mon regb), rt_year = ucast (to_binary year regb) + 2000\<rparr>)"

text \<open>Binary coded decimal: the two digits of a number below 100.\<close>

definition bcd :: "nat \<Rightarrow> u8" where
  "bcd n = of_nat (16 * (n div 10) + n mod 10)"

lemma to_binary_bcd: "n < 100 \<Longrightarrow> to_binary (bcd n) 0 = of_nat n"
proof -
  have "\<forall>n \<in> set [0 ..< 100]. to_binary (bcd n) 0 = of_nat n" by code_simp
  then show "n < 100 \<Longrightarrow> to_binary (bcd n) 0 = of_nat n" by simp
qed

lemma wait_update_finite:
  assumes "\<not> updating cm (t + n)" "\<And>i. i < n \<Longrightarrow> updating cm (t + i)"
  shows "wait_update cm t = Some (t + n + 1)"
  using assms
proof (induction n arbitrary: t)
  case 0
  then show ?case by (subst wait_update.simps) simp
next
  case (Suc n)
  have "updating cm t" using Suc.prems(2) [of 0] by simp
  moreover have "wait_update cm (Suc t) = Some (Suc t + n + 1)"
  proof (rule Suc.IH)
    show "\<not> updating cm (Suc t + n)" using Suc.prems(1) by simp
    show "updating cm (Suc t + i)" if "i < n" for i using Suc.prems(2) [of "Suc i"] that by simp
  qed
  ultimately show ?case by (subst wait_update.simps) simp
qed

text \<open>
  A clock whose update flag goes down within some number of reads, twice, and whose registers keep their values:
  the time is returned.
\<close>

lemma rtc_read_stable:
  assumes "wait_update cm 0 = Some t" "wait_update cm (t + 7) = Some t'"
    "\<And>i r. r \<in> {RTC_SEC, RTC_MIN, RTC_HOUR, RTC_DAY, RTC_MON, RTC_YEAR} \<Longrightarrow> cm i r = bcd (v r)" "\<And>i. cm i RTC_B = 0"
    "\<And>r. v r < 100"
  shows "rtc_read cm = Some \<lparr>rt_sec = of_nat (v RTC_SEC), rt_min = of_nat (v RTC_MIN), rt_hour = of_nat (v RTC_HOUR),
    rt_day = of_nat (v RTC_DAY), rt_mon = of_nat (v RTC_MON), rt_year = of_nat (v RTC_YEAR) + 2000\<rparr>"
proof -
  have "ucast (of_nat (v r) :: u8) = (of_nat (v r) :: u32)" for r
    using assms(5) [of r] by (simp add: unsigned_of_nat take_bit_nat_eq_self)
  then show ?thesis using assms by (simp add: rtc_read_def Let_def to_binary_bcd)
qed

subsection \<open>The mouse\<close>

record mouse_state =
  m_x :: int
  m_y :: int
  m_dx :: int
  m_dy :: int
  m_buttons :: u8
  m_valid :: bool

record mouse_dev =
  packet_buf :: "u8 list"
  packet_idx :: nat
  mouse :: mouse_state
  mouse_min_x :: int
  mouse_min_y :: int
  mouse_max_x :: int
  mouse_max_y :: int

text \<open>The software part of \<open>mouse_init\<close>; the commands to the controller are port output.\<close>

definition mouse_reset :: "int \<Rightarrow> int \<Rightarrow> mouse_dev \<Rightarrow> mouse_dev" where
  "mouse_reset w h d = d\<lparr>mouse := \<lparr>m_x = w div 2, m_y = h div 2, m_dx = 0, m_dy = 0, m_buttons = 0, m_valid = False\<rparr>,
     mouse_max_x := w - 1, mouse_max_y := h - 1\<rparr>"

definition clamp :: "int \<Rightarrow> int \<Rightarrow> int \<Rightarrow> int" where
  "clamp lo hi x = (let x = (if x < lo then lo else x) in if x > hi then hi else x)"

definition mouse_packet :: "mouse_dev \<Rightarrow> mouse_dev" where
  "mouse_packet d =
     (let b0 = packet_buf d ! 0; dx = sint (packet_buf d ! 1); dy = sint (packet_buf d ! 2); m = mouse d
      in if b0 AND 0x40 = 0 \<and> b0 AND 0x80 = 0
         then d\<lparr>mouse := \<lparr>m_x = clamp (mouse_min_x d) (mouse_max_x d) (m_x m + dx),
                          m_y = clamp (mouse_min_y d) (mouse_max_y d) (m_y m + - dy),
                          m_dx = dx, m_dy = - dy, m_buttons = b0 AND 0x07, m_valid = True\<rparr>\<rparr>
         else d)"

definition mouse_interrupt :: "u8 \<Rightarrow> u8 \<Rightarrow> mouse_dev \<Rightarrow> mouse_dev" where
  "mouse_interrupt status data d =
     (if status AND 0x01 = 0 then d
      else let d = d\<lparr>packet_buf := (packet_buf d)[packet_idx d := data], packet_idx := packet_idx d + 1\<rparr>
           in if packet_idx d \<ge> 3 then mouse_packet (d\<lparr>packet_idx := 0\<rparr>) else d)"

definition mouse_get_state :: "mouse_dev \<Rightarrow> mouse_state" where
  "mouse_get_state d = mouse d"

definition mouse_inv :: "mouse_dev \<Rightarrow> bool" where
  "mouse_inv d \<longleftrightarrow> length (packet_buf d) = 3 \<and> packet_idx d < 3 \<and>
     mouse_min_x d \<le> m_x (mouse d) \<and> m_x (mouse d) \<le> mouse_max_x d \<and>
     mouse_min_y d \<le> m_y (mouse d) \<and> m_y (mouse d) \<le> mouse_max_y d"

lemma clamp_range: "lo \<le> hi \<Longrightarrow> lo \<le> clamp lo hi x \<and> clamp lo hi x \<le> hi"
  by (simp add: clamp_def Let_def)

lemma mouse_interrupt_inv: "mouse_inv d \<Longrightarrow> mouse_inv (mouse_interrupt st b d)"
  using clamp_range [of "mouse_min_x d" "mouse_max_x d"] clamp_range [of "mouse_min_y d" "mouse_max_y d"]
  by (simp add: mouse_inv_def mouse_interrupt_def mouse_packet_def Let_def)

text \<open>The pointer stays on the screen whatever bytes arrive, and the packet buffer is never overrun.\<close>

lemma mouse_on_screen:
  assumes "0 < w" "0 < h" "length (packet_buf d) = 3" "packet_idx d < 3" "mouse_min_x d = 0" "mouse_min_y d = 0"
  shows "mouse_inv (fold (\<lambda>(st, b). mouse_interrupt st b) bytes (mouse_reset w h d))"
proof -
  have "mouse_inv (mouse_reset w h d)" using assms by (auto simp: mouse_inv_def mouse_reset_def)
  then show ?thesis by (induction bytes arbitrary: d) (auto intro!: fold_invariant [where P = mouse_inv] mouse_interrupt_inv)
qed

end
