(* ===== verification/Tty.thy ===== *)
theory Tty
  imports Kstring Font
begin

text \<open>
  The framebuffer text console, \<open>kernel/src/drivers/tty.c\<close>: cells, cursor, scrolling and the parser of ANSI
  escape sequences.  The framebuffer is a range of memory; the serial mirror is the list of bytes sent to COM1.
  A C \<open>int\<close> keeps 32 bits of a result.
\<close>

subsection \<open>State\<close>

abbreviation CELL_W :: int where "CELL_W \<equiv> 8"
abbreviation CELL_H :: int where "CELL_H \<equiv> 16"
abbreviation GLYPH_H :: int where "GLYPH_H \<equiv> 8"
abbreviation ANSI_MAX_PARAMS :: int where "ANSI_MAX_PARAMS \<equiv> 8"

record tty =
  fb :: u64
  pitch :: nat
  bpp :: nat
  cols :: int
  rows :: int
  cur_x :: int
  cur_y :: int
  mode_w :: nat
  mode_h :: nat
  mode_bpp :: nat
  g_fg :: u32
  g_bg :: u32
  ansi_state :: nat
  csi_param :: "int list"
  csi_count :: int
  csi_cur :: int
  vmem :: mem
  com1 :: "u8 list"

definition ansi_palette :: "u32 list" where
  "ansi_palette = [0xFF000000, 0xFFAA0000, 0xFF00AA00, 0xFFAA5500, 0xFF0000AA, 0xFFAA00AA, 0xFF00AAAA, 0xFFAAAAAA,
     0xFF555555, 0xFFFF5555, 0xFF55FF55, 0xFFFFFF55, 0xFF5555FF, 0xFFFF55FF, 0xFF55FFFF, 0xFFFFFFFF]"

definition wrap32 :: "int \<Rightarrow> int" where
  "wrap32 x = signed_take_bit 31 x"

subsection \<open>Drawing\<close>

definition draw_pixel :: "int \<Rightarrow> int \<Rightarrow> u32 \<Rightarrow> tty \<Rightarrow> tty" where
  "draw_pixel px py color t =
     (if px < 0 \<or> py < 0 \<or> px \<ge> int (mode_w t) \<or> py \<ge> int (mode_h t) then t
      else t\<lparr>vmem := store (fb t + of_nat (nat py * pitch t + nat px * (bpp t div 8))) color (vmem t)\<rparr>)"

definition glyph_of :: "char \<Rightarrow> u8 list" where
  "glyph_of ch =
     (let c = (of_char ch :: nat); c = (if c < FONT_FIRST \<or> c > FONT_LAST then of_char (CHR ''.'') else c)
      in font8x8 ! (c - FONT_FIRST))"

definition draw_row :: "u8 list \<Rightarrow> int \<Rightarrow> int \<Rightarrow> int \<Rightarrow> tty \<Rightarrow> tty" where
  "draw_row glyph ox oy r t =
     (let bits = (if r < GLYPH_H then glyph ! nat r else 0)
      in fold (\<lambda>c t. draw_pixel (ox + c) (oy + r) (if bit bits (nat c) then g_fg t else g_bg t) t) [0 .. CELL_W - 1] t)"

definition draw_cell :: "int \<Rightarrow> int \<Rightarrow> char \<Rightarrow> bool \<Rightarrow> tty \<Rightarrow> tty" where
  "draw_cell cx cy ch cursor t =
     (let glyph = glyph_of ch; ox = cx * CELL_W; oy = cy * CELL_H;
          t = fold (draw_row glyph ox oy) [0 .. CELL_H - 1] t
      in if cursor
         then fold (\<lambda>c t. draw_pixel (ox + c) (oy + CELL_H - 3) (g_fg t) (draw_pixel (ox + c) (oy + CELL_H - 2) (g_fg t) t))
                [1 .. CELL_W - 2] t
         else t)"

definition erase_cursor :: "tty \<Rightarrow> tty" where
  "erase_cursor t = (if cur_x t \<ge> cols t \<or> cur_y t \<ge> rows t then t else draw_cell (cur_x t) (cur_y t) (CHR '' '') False t)"

definition show_cursor :: "tty \<Rightarrow> tty" where
  "show_cursor t = (if cur_x t \<ge> cols t \<or> cur_y t \<ge> rows t then t else draw_cell (cur_x t) (cur_y t) (CHR '' '') True t)"

definition fill32 :: "u64 \<Rightarrow> u32 \<Rightarrow> nat \<Rightarrow> mem \<Rightarrow> mem" where
  "fill32 a v n m = fold (\<lambda>i. store (a + of_nat (4 * i)) v) [0 ..< n] m"

definition scroll_up :: "tty \<Rightarrow> tty" where
  "scroll_up t =
     (let line = pitch t * nat CELL_H; n = line * nat (rows t - 1);
          m = memmove (fb t) (fb t + of_nat line) (of_nat n) (vmem t)
      in t\<lparr>vmem := fill32 (fb t + of_nat n) (g_bg t) (line div (bpp t div 8)) m\<rparr>)"

definition tty_clear :: "tty \<Rightarrow> tty" where
  "tty_clear t =
     (if fb t = 0 then t
      else t\<lparr>vmem := fill32 (fb t) (g_bg t) (pitch t * nat CELL_H * nat (rows t) div 4) (vmem t), cur_x := 0, cur_y := 0\<rparr>)"

record framebuffer =
  address :: u64
  f_width :: nat
  f_height :: nat
  f_pitch :: nat
  f_bpp :: nat

definition tty_init :: "framebuffer option \<Rightarrow> tty \<Rightarrow> tty" where
  "tty_init f t =
     (case f of
        None \<Rightarrow> t
      | Some f \<Rightarrow>
          if f_bpp f \<noteq> 32 then t
          else tty_clear (t\<lparr>fb := address f, pitch := f_pitch f, bpp := f_bpp f, mode_w := f_width f, mode_h := f_height f,
                 mode_bpp := f_bpp f, cols := int (f_width f div 8), rows := int (f_height f div 16)\<rparr>))"

definition tty_width :: "tty \<Rightarrow> u32" where "tty_width t = of_int (cols t) * 8"
definition tty_height :: "tty \<Rightarrow> u32" where "tty_height t = of_int (rows t) * 16"
definition tty_set_colors :: "u32 \<Rightarrow> u32 \<Rightarrow> tty \<Rightarrow> tty" where "tty_set_colors f b t = t\<lparr>g_fg := f, g_bg := b\<rparr>"
definition tty_get_mode :: "tty \<Rightarrow> nat \<times> nat \<times> nat" where "tty_get_mode t = (mode_w t, mode_h t, mode_bpp t)"

subsection \<open>Escape sequences\<close>

definition sgr :: "int \<Rightarrow> tty \<Rightarrow> tty" where
  "sgr i t =
     (let v = csi_param t ! nat i; v = (if v < 0 then 0 else v)
      in if v = 0 then t\<lparr>g_fg := ansi_palette ! 7, g_bg := ansi_palette ! 0\<rparr>
         else if v = 1 then (if g_fg t AND 0xFF < 0x80 then t\<lparr>g_fg := g_fg t OR 0x00555555\<rparr> else t)
         else if v \<ge> 30 \<and> v \<le> 37 then t\<lparr>g_fg := ansi_palette ! nat (v - 30)\<rparr>
         else if v \<ge> 90 \<and> v \<le> 97 then t\<lparr>g_fg := ansi_palette ! nat (v - 90 + 8)\<rparr>
         else if v \<ge> 40 \<and> v \<le> 47 then t\<lparr>g_bg := ansi_palette ! nat (v - 40)\<rparr>
         else if v \<ge> 100 \<and> v \<le> 107 then t\<lparr>g_bg := ansi_palette ! nat (v - 100 + 8)\<rparr>
         else if v = 39 then t\<lparr>g_fg := ansi_palette ! 7\<rparr>
         else if v = 49 then t\<lparr>g_bg := ansi_palette ! 0\<rparr>
         else t)"

definition csi_dispatch :: "char \<Rightarrow> tty \<Rightarrow> tty" where
  "csi_dispatch fin t =
     (let p0 = (if csi_count t \<ge> 0 \<and> csi_param t ! 0 \<ge> 0 then csi_param t ! 0 else 1);
          p1 = (if csi_count t \<ge> 1 \<and> csi_param t ! 1 \<ge> 0 then csi_param t ! 1 else 1)
      in if fin = CHR ''J'' then (if p0 = 2 then tty_clear t else t)
         else if fin = CHR ''H''
         then let t = erase_cursor t; y = (if p0 \<noteq> 0 then p0 - 1 else 0); x = (if p1 \<noteq> 0 then p1 - 1 else 0)
              in t\<lparr>cur_x := if x \<ge> cols t then cols t - 1 else x, cur_y := if y \<ge> rows t then rows t - 1 else y\<rparr>
         else if fin = CHR ''K''
         then fold (\<lambda>x t. draw_cell x (cur_y t) (CHR '' '') False t) [cur_x t .. cols t - 1] t
         else if fin = CHR ''A''
         then let t = erase_cursor t; y = wrap32 (cur_y t - p0) in t\<lparr>cur_y := if y < 0 then 0 else y\<rparr>
         else if fin = CHR ''B''
         then let t = erase_cursor t; y = wrap32 (cur_y t + p0) in t\<lparr>cur_y := if y \<ge> rows t then rows t - 1 else y\<rparr>
         else if fin = CHR ''C''
         then let t = erase_cursor t; x = wrap32 (cur_x t + p0) in t\<lparr>cur_x := if x \<ge> cols t then cols t - 1 else x\<rparr>
         else if fin = CHR ''D''
         then let t = erase_cursor t; x = wrap32 (cur_x t - p0) in t\<lparr>cur_x := if x < 0 then 0 else x\<rparr>
         else if fin = CHR ''m''
         then let n = (if csi_cur t \<ge> 0 then csi_cur t + 1 else csi_count t)
              in if n = 1 \<and> csi_param t ! 0 < 0 then t\<lparr>g_fg := ansi_palette ! 7, g_bg := ansi_palette ! 0\<rparr>
                 else fold sgr [0 .. n - 1] t
         else t)"

definition csi_open :: "tty \<Rightarrow> tty" where
  "csi_open t =
     (if csi_cur t < 0
      then let c = (if csi_count t < ANSI_MAX_PARAMS then csi_count t else ANSI_MAX_PARAMS - 1)
           in t\<lparr>csi_cur := c, csi_param := (csi_param t)[nat c := 0]\<rparr>
      else t)"

definition tty_ansi_feed :: "char \<Rightarrow> tty \<Rightarrow> tty" where
  "tty_ansi_feed c t =
     (let n = (of_char c :: nat)
      in if ansi_state t = 1
         then if c = CHR ''[''
              then t\<lparr>ansi_state := 2, csi_count := 0, csi_cur := -1, csi_param := replicate (nat ANSI_MAX_PARAMS) (-1)\<rparr>
              else t\<lparr>ansi_state := 0\<rparr>
         else if n \<ge> 48 \<and> n \<le> 57
         then let t = csi_open t; i = nat (csi_cur t)
              in t\<lparr>csi_param := (csi_param t)[i := wrap32 (csi_param t ! i * 10 + (int n - 48))]\<rparr>
         else if c = CHR '';''
         then let t = csi_open t; k = csi_cur t + 1
              in t\<lparr>csi_count := if k \<ge> ANSI_MAX_PARAMS then ANSI_MAX_PARAMS - 1 else k, csi_cur := -1\<rparr>
         else let t = (if n \<ge> 0x40 \<and> n \<le> 0x7E then csi_dispatch c t else t)
              in t\<lparr>ansi_state := 0\<rparr>)"

subsection \<open>Characters\<close>

definition scroll_step :: "tty \<Rightarrow> tty" where
  "scroll_step t = (let t = scroll_up t in t\<lparr>cur_y := cur_y t - 1\<rparr>)"

text \<open>The loop that scrolls until the cursor is on the last row.\<close>

definition scroll_while :: "tty \<Rightarrow> tty" where
  "scroll_while t = (scroll_step ^^ nat (cur_y t - rows t + 1)) t"

definition put_char :: "char \<Rightarrow> tty \<Rightarrow> tty" where
  "put_char c t =
     (if c = CHR 0x0A then t\<lparr>cur_x := 0, cur_y := cur_y t + 1\<rparr>
      else if c = CHR 0x0D then t\<lparr>cur_x := 0\<rparr>
      else if c = CHR 0x08
      then (if cur_x t > 0 then let t = t\<lparr>cur_x := cur_x t - 1\<rparr> in draw_cell (cur_x t) (cur_y t) (CHR '' '') False t else t)
      else if c = CHR 0x09 then t\<lparr>cur_x := (cur_x t + 8) AND NOT 7\<rparr>
      else let t = draw_cell (cur_x t) (cur_y t) c False t in t\<lparr>cur_x := cur_x t + 1\<rparr>)"

definition tty_screen_putc :: "char \<Rightarrow> tty \<Rightarrow> tty" where
  "tty_screen_putc c t =
     (if fb t = 0 then t
      else if c = CHR 0x1B then t\<lparr>ansi_state := 1\<rparr>
      else if ansi_state t \<noteq> 0 then tty_ansi_feed c t
      else let t = put_char c (erase_cursor t);
               t = (if cur_x t \<ge> cols t then t\<lparr>cur_x := 0, cur_y := cur_y t + 1\<rparr> else t)
           in show_cursor (scroll_while t))"

definition tty_putc :: "char \<Rightarrow> tty \<Rightarrow> tty" where
  "tty_putc c t =
     (let t = (if c = CHR 0x0A then t\<lparr>com1 := com1 t @ [13]\<rparr> else t);
          t = t\<lparr>com1 := com1 t @ [of_char c]\<rparr>
      in tty_screen_putc c t)"

definition tty_write :: "string \<Rightarrow> tty \<Rightarrow> tty" where
  "tty_write buf t = fold tty_putc buf t"

subsection \<open>Writes stay in the framebuffer\<close>

definition fb_size :: "tty \<Rightarrow> nat" where
  "fb_size t = pitch t * mode_h t"

definition geo_ok :: "tty \<Rightarrow> bool" where
  "geo_ok t \<longleftrightarrow> bpp t = 32 \<and> 4 * mode_w t \<le> pitch t \<and> 1 \<le> rows t \<and> 16 * nat (rows t) \<le> mode_h t \<and>
     unat (fb t) + fb_size t < 2 ^ 64"

text \<open>Only video memory changes, and only inside the framebuffer.\<close>

definition draws :: "tty \<Rightarrow> tty \<Rightarrow> bool" where
  "draws t t' \<longleftrightarrow> (\<exists>m. t' = t\<lparr>vmem := m\<rparr> \<and> (\<forall>a. fb_size t \<le> unat (a - fb t) \<longrightarrow> m a = vmem t a))"

lemma draws_refl: "draws t t"
  unfolding draws_def by (rule exI [of _ "vmem t"]) simp

lemma draws_trans: "draws t u \<Longrightarrow> draws u v \<Longrightarrow> draws t v"
  by (auto simp: draws_def fb_size_def)

lemma draws_geo: "draws t u \<Longrightarrow> geo_ok u = geo_ok t"
  by (auto simp: draws_def geo_ok_def fb_size_def)

lemma fold_draws:
  assumes "\<And>x t. x \<in> set xs \<Longrightarrow> geo_ok t \<Longrightarrow> draws t (f x t)" "geo_ok t" shows "draws t (fold f xs t)"
  using assms
proof (induction xs arbitrary: t)
  case (Cons x xs)
  have d: "draws t (f x t)" using Cons.prems by simp
  then have "draws (f x t) (fold f xs (f x t))" using Cons.IH Cons.prems draws_geo [OF d] by simp
  then show ?case using draws_trans [OF d] by simp
qed (simp add: draws_refl)

lemma store_outside:
  assumes "off + 4 \<le> n" "n \<le> unat (a - b)" "n < 2 ^ 64"
  shows "store (b + of_nat off) (v :: u32) m a = m a"
proof -
  have off: "unat (of_nat off :: u64) = off" using assms by (intro unat_of_nat_u64) simp
  have "unat (a - b - of_nat off) = unat (a - b) - off"
    using assms off unat_sub [of "of_nat off" "a - b"] by (simp add: word_le_nat_alt)
  then have "unat (a - (b + of_nat off)) = unat (a - b) - off" by (simp add: diff_diff_eq)
  then show ?thesis using assms by (intro store_other) simp
qed

lemma pixel_offset:
  assumes "geo_ok t" "px < mode_w t" "py < mode_h t" shows "py * pitch t + px * 4 + 4 \<le> fb_size t"
proof -
  have "px * 4 + 4 \<le> pitch t" using assms by (simp add: geo_ok_def)
  moreover have "(py + 1) * pitch t \<le> mode_h t * pitch t" using assms(3) by (intro mult_right_mono) auto
  ultimately show ?thesis by (simp add: fb_size_def mult.commute)
qed

lemma draw_pixel_draws: "geo_ok t \<Longrightarrow> draws t (draw_pixel px py color t)"
proof (cases "px < 0 \<or> py < 0 \<or> px \<ge> int (mode_w t) \<or> py \<ge> int (mode_h t)")
  case False
  assume g: "geo_ok t"
  let ?off = "nat py * pitch t + nat px * (bpp t div 8)"
  have "nat px < mode_w t" "nat py < mode_h t" using False by linarith+
  then have "?off + 4 \<le> fb_size t" using pixel_offset [OF g] g by (simp add: geo_ok_def)
  moreover have "fb_size t < 2 ^ 64" using g by (simp add: geo_ok_def)
  ultimately have "\<forall>a. fb_size t \<le> unat (a - fb t) \<longrightarrow> store (fb t + of_nat ?off) color (vmem t) a = vmem t a"
    by (blast intro: store_outside)
  moreover have "draw_pixel px py color t = t\<lparr>vmem := store (fb t + of_nat ?off) color (vmem t)\<rparr>" using False by (simp add: draw_pixel_def)
  ultimately show ?thesis unfolding draws_def by blast
qed (simp add: draw_pixel_def draws_refl)

lemma draw_row_draws: "geo_ok t \<Longrightarrow> draws t (draw_row glyph ox oy r t)"
  unfolding draw_row_def Let_def by (intro fold_draws draw_pixel_draws)

lemma two_pixels: "geo_ok t \<Longrightarrow> draws t (draw_pixel px py c (draw_pixel qx qy d t))"
  using draw_pixel_draws [of t qx qy d] draws_geo [of t "draw_pixel qx qy d t"] draw_pixel_draws draws_trans by blast

lemma draw_cell_draws: "geo_ok t \<Longrightarrow> draws t (draw_cell cx cy ch cur t)"
proof -
  assume g: "geo_ok t"
  let ?cells = "fold (draw_row (glyph_of ch) (cx * CELL_W) (cy * CELL_H)) [0 .. CELL_H - 1] t"
  have 1: "draws t ?cells"
    using g by (intro fold_draws draw_row_draws) simp_all
  have "draws ?cells (fold (\<lambda>c t. draw_pixel (cx * CELL_W + c) (cy * CELL_H + CELL_H - 3) (g_fg t)
      (draw_pixel (cx * CELL_W + c) (cy * CELL_H + CELL_H - 2) (g_fg t) t)) [1 .. CELL_W - 2] ?cells)"
    by (intro fold_draws two_pixels iffD2 [OF draws_geo [OF 1] g])
  from draws_trans [OF 1 this] 1 show ?thesis
    unfolding draw_cell_def Let_def by (cases cur) (simp_all only: if_True if_False)
qed

lemma cursor_draws: "geo_ok t \<Longrightarrow> draws t (erase_cursor t)" "geo_ok t \<Longrightarrow> draws t (show_cursor t)"
  by (simp_all add: erase_cursor_def show_cursor_def draw_cell_draws draws_refl)

lemma fill32_outside:
  assumes "off + 4 * n \<le> N" "N \<le> unat (a - b)" "N < 2 ^ 64"
  shows "fill32 (b + of_nat off) v n m a = m a"
proof -
  have "fold (\<lambda>i. store (b + of_nat off + of_nat (4 * i)) v) is m a = m a" if "\<forall>i \<in> set is. i < n" for "is"
    using that
  proof (induction "is" arbitrary: m)
    case (Cons i "is")
    have "store (b + of_nat (off + 4 * i)) v m a = m a" using Cons.prems assms by (intro store_outside [of _ N]) auto
    then show ?case using Cons by (simp add: add.assoc)
  qed simp
  then show ?thesis by (simp add: fill32_def)
qed

lemma scroll_up_draws:
  assumes "geo_ok t" shows "draws t (scroll_up t)"
proof -
  let ?line = "pitch t * 16" and ?r = "nat (rows t)"
  let ?n = "?line * nat (rows t - 1)"
  let ?m = "memmove (fb t) (fb t + of_nat ?line) (of_nat ?n) (vmem t)"
  have "1 \<le> rows t" using assms by (simp add: geo_ok_def)
  then have r: "nat (rows t - 1) + 1 = ?r" by linarith
  have "?line * ?r \<le> fb_size t"
    using mult_le_mono2 [of "16 * ?r" "mode_h t" "pitch t"] assms by (simp add: geo_ok_def fb_size_def mult.assoc)
  moreover have "?n + ?line = ?line * ?r" unfolding r [symmetric] by (simp add: algebra_simps)
  ultimately have sz: "?n + ?line \<le> fb_size t" "fb_size t < 2 ^ 64" using assms by (auto simp: geo_ok_def)
  have un: "unat (of_nat ?n :: u64) = ?n" using sz by (intro unat_of_nat_u64) linarith
  have "fill32 (fb t + of_nat ?n) (g_bg t) (?line div (bpp t div 8)) ?m a = vmem t a" if "fb_size t \<le> unat (a - fb t)" for a
  proof -
    have "4 * (?line div (bpp t div 8)) \<le> ?line" using assms by (simp add: geo_ok_def)
    then have "fill32 (fb t + of_nat ?n) (g_bg t) (?line div (bpp t div 8)) ?m a = ?m a"
      using sz that by (intro fill32_outside [of _ _ "fb_size t"]) linarith+
    also have "\<dots> = vmem t a"
    proof -
      have "unat (of_nat ?line :: u64) = ?line" using sz by (intro unat_of_nat_u64) linarith
      then have "unat (fb t + of_nat ?line) = unat (fb t) + ?line" using sz assms by (subst unat_add_u64) (auto simp: geo_ok_def)
      then have "?m = copy_mem (fb t) (fb t + of_nat ?line) ?n (vmem t)"
        using sz un assms memmove_eq [of "fb t" "of_nat ?n" "fb t + of_nat ?line" "vmem t"] by (simp add: geo_ok_def)
      then show ?thesis using that sz by (simp add: copy_mem_def)
    qed
    finally show ?thesis .
  qed
  then show ?thesis unfolding draws_def by (auto simp: scroll_up_def Let_def)
qed

definition confined :: "tty \<Rightarrow> tty \<Rightarrow> bool" where
  "confined t t' \<longleftrightarrow> fb t' = fb t \<and> pitch t' = pitch t \<and> bpp t' = bpp t \<and> cols t' = cols t \<and> rows t' = rows t \<and>
     mode_w t' = mode_w t \<and> mode_h t' = mode_h t \<and> com1 t' = com1 t \<and>
     (\<forall>a. fb_size t \<le> unat (a - fb t) \<longrightarrow> vmem t' a = vmem t a)"

text \<open>The parameter array and the indices into it.\<close>

definition csi_ok :: "tty \<Rightarrow> bool" where
  "csi_ok t \<longleftrightarrow> length (csi_param t) = 8 \<and> 0 \<le> csi_count t \<and> csi_count t < 8 \<and> -1 \<le> csi_cur t \<and> csi_cur t < 8"

lemma confined_trans: "confined t u \<Longrightarrow> confined u v \<Longrightarrow> confined t v"
  by (simp add: confined_def fb_size_def)

lemma confined_geo: "confined t u \<Longrightarrow> geo_ok u = geo_ok t"
  by (simp add: confined_def geo_ok_def fb_size_def)

lemma draws_confined: "draws t u \<Longrightarrow> confined t u" "draws t u \<Longrightarrow> csi_ok u = csi_ok t"
  by (auto simp: draws_def confined_def csi_ok_def)

lemma confined_upd:
  "confined t u \<Longrightarrow> confined t (u\<lparr>cur_x := x\<rparr>)" "confined t u \<Longrightarrow> confined t (u\<lparr>cur_y := y\<rparr>)"
  "confined t u \<Longrightarrow> confined t (u\<lparr>g_fg := c\<rparr>)" "confined t u \<Longrightarrow> confined t (u\<lparr>g_bg := c\<rparr>)"
  "confined t u \<Longrightarrow> confined t (u\<lparr>ansi_state := s\<rparr>)" "confined t u \<Longrightarrow> confined t (u\<lparr>csi_param := p\<rparr>)"
  "confined t u \<Longrightarrow> confined t (u\<lparr>csi_count := k\<rparr>)" "confined t u \<Longrightarrow> confined t (u\<lparr>csi_cur := k\<rparr>)"
  "confined t t"
  by (simp_all add: confined_def)

lemma csi_ok_upd [simp]:
  "csi_ok (u\<lparr>cur_x := x\<rparr>) = csi_ok u" "csi_ok (u\<lparr>cur_y := y\<rparr>) = csi_ok u" "csi_ok (u\<lparr>g_fg := c\<rparr>) = csi_ok u"
  "csi_ok (u\<lparr>g_bg := c\<rparr>) = csi_ok u" "csi_ok (u\<lparr>ansi_state := s\<rparr>) = csi_ok u" "csi_ok (u\<lparr>com1 := b\<rparr>) = csi_ok u"
  by (simp_all add: csi_ok_def)

text \<open>What an operation keeps: geometry, serial output and all memory outside the framebuffer; and the parser's indices.\<close>

definition safe :: "(tty \<Rightarrow> tty) \<Rightarrow> bool" where
  "safe f \<longleftrightarrow> (\<forall>t. geo_ok t \<longrightarrow> csi_ok t \<longrightarrow> confined t (f t) \<and> csi_ok (f t))"

lemma safe_draws: "(\<And>t. geo_ok t \<Longrightarrow> draws t (f t)) \<Longrightarrow> safe f"
  unfolding safe_def using draws_confined by blast

lemma safe_comp: "safe f \<Longrightarrow> safe g \<Longrightarrow> safe (\<lambda>t. g (f t))"
  unfolding safe_def using confined_trans confined_geo by blast

lemma safe_id: "safe (\<lambda>t. t)"
  by (simp add: safe_def confined_upd)

lemma safe_if: "safe f \<Longrightarrow> safe g \<Longrightarrow> safe (\<lambda>t. if b t then f t else g t)"
  by (simp add: safe_def)

lemma safe_let: "(\<And>x. safe (f x)) \<Longrightarrow> safe (\<lambda>t. f (g t) t)"
  by (simp add: safe_def)

lemma safe_fold: "(\<And>x. safe (f x)) \<Longrightarrow> safe (fold f xs)"
  by (induction xs) (auto simp: comp_def id_def intro: safe_id safe_comp)

lemma safe_funpow: "safe f \<Longrightarrow> safe (f ^^ n)"
  by (induction n) (auto simp: comp_def id_def intro: safe_id safe_comp)

lemma safe_basic:
  "safe erase_cursor" "safe show_cursor" "safe scroll_up" "safe (draw_cell x y c b)"
  by (intro safe_draws; simp add: cursor_draws scroll_up_draws draw_cell_draws)+

lemma safe_set:
  "safe (\<lambda>t. t\<lparr>cur_x := f t\<rparr>)" "safe (\<lambda>t. t\<lparr>cur_y := f t\<rparr>)" "safe (\<lambda>t. t\<lparr>g_fg := h t\<rparr>)" "safe (\<lambda>t. t\<lparr>g_bg := h t\<rparr>)"
  "safe (\<lambda>t. t\<lparr>cur_x := f t, cur_y := g t\<rparr>)" "safe (\<lambda>t. t\<lparr>g_fg := h t, g_bg := k t\<rparr>)" "safe (\<lambda>t. t\<lparr>ansi_state := s\<rparr>)"
  by (simp_all add: safe_def confined_upd)

lemma safe_clear: "safe tty_clear"
proof -
  have "draws t (t\<lparr>vmem := fill32 (fb t) (g_bg t) (pitch t * 16 * nat (rows t) div 4) (vmem t)\<rparr>)" if "geo_ok t" for t
  proof -
    have "pitch t * 16 * nat (rows t) \<le> fb_size t"
      using mult_le_mono2 [of "16 * nat (rows t)" "mode_h t" "pitch t"] that by (simp add: geo_ok_def fb_size_def mult.assoc)
    then have "0 + 4 * (pitch t * 16 * nat (rows t) div 4) \<le> fb_size t" "fb_size t < 2 ^ 64" using that by (auto simp: geo_ok_def)
    then have "\<forall>a. fb_size t \<le> unat (a - fb t) \<longrightarrow> fill32 (fb t + of_nat 0) (g_bg t) (pitch t * 16 * nat (rows t) div 4) (vmem t) a = vmem t a"
      by (blast intro: fill32_outside)
    then show ?thesis unfolding draws_def by auto
  qed
  then have "safe (\<lambda>t. t\<lparr>vmem := fill32 (fb t) (g_bg t) (pitch t * 16 * nat (rows t) div 4) (vmem t)\<rparr>)" by (rule safe_draws)
  from safe_comp [OF this safe_set(5) [of "\<lambda>_. 0" "\<lambda>_. 0"]] have "safe (\<lambda>t. t\<lparr>vmem := fill32 (fb t) (g_bg t) (pitch t * 16 * nat (rows t) div 4) (vmem t), cur_x := 0, cur_y := 0\<rparr>)"
    by simp
  then show ?thesis unfolding tty_clear_def using safe_if [OF safe_id, of _ "\<lambda>t. fb t = 0"] by simp
qed

lemma safe_sgr: "safe (sgr i)"
  unfolding sgr_def Let_def by (intro safe_if safe_set safe_id)

lemma safe_dispatch: "safe (csi_dispatch c)"
  unfolding safe_def
proof (intro allI impI)
  fix t assume t: "geo_ok t" "csi_ok t"
  let ?ok = "\<lambda>u. confined t u \<and> csi_ok u"
  have e: "?ok (erase_cursor t)" "?ok (tty_clear t)" "?ok t"
    using safe_basic(1) safe_clear safe_id t unfolding safe_def by blast+
  have k: "?ok (fold (\<lambda>x t. draw_cell x (cur_y t) (CHR '' '') False t) xs t)" for xs
    using safe_fold [of "\<lambda>x t. draw_cell x (cur_y t) (CHR '' '') False t" xs] safe_let [of "\<lambda>y. draw_cell _ y (CHR '' '') False" cur_y]
      safe_basic(4) t unfolding safe_def by blast
  have s: "?ok (fold sgr xs t)" for xs using safe_fold [of sgr xs] safe_sgr t unfolding safe_def by blast
  have u: "?ok (u\<lparr>cur_x := x\<rparr>)" "?ok (u\<lparr>cur_y := y\<rparr>)" "?ok (u\<lparr>cur_x := x, cur_y := y\<rparr>)" "?ok (u\<lparr>g_fg := f, g_bg := b\<rparr>)"
    if "?ok u" for u x y f b using that by (simp_all add: confined_upd)
  show "?ok (csi_dispatch c t)"
    unfolding csi_dispatch_def Let_def using e k s by (simp only: u split: if_split) simp
qed

lemma confined_csi: "confined t (csi_open t)" "csi_ok t \<Longrightarrow> csi_ok (csi_open t) \<and> 0 \<le> csi_cur (csi_open t)"
  by (auto simp: csi_open_def Let_def confined_upd csi_ok_def)

lemma safe_feed: "safe (tty_ansi_feed c)"
  unfolding safe_def
proof (intro allI impI)
  fix t assume t: "geo_ok t" "csi_ok t"
  have d: "confined t (csi_dispatch c t) \<and> csi_ok (csi_dispatch c t)" using safe_dispatch t unfolding safe_def by blast
  note o = confined_csi(1) [of t] confined_csi(2) [OF t(2)]
  have i: "csi_ok (u\<lparr>csi_param := (csi_param u)[j := v]\<rparr>) = csi_ok u" for u j v by (simp add: csi_ok_def)
  have k: "csi_ok (u\<lparr>csi_count := if csi_cur u + 1 \<ge> 8 then 7 else csi_cur u + 1, csi_cur := -1\<rparr>)" if "csi_ok u" "0 \<le> csi_cur u" for u
    using that by (auto simp: csi_ok_def)
  have f: "csi_ok (t\<lparr>ansi_state := 2, csi_count := 0, csi_cur := -1, csi_param := replicate (nat ANSI_MAX_PARAMS) (-1)\<rparr>)"
    by (simp add: csi_ok_def)
  let ?ok = "\<lambda>u. confined t u \<and> csi_ok u"
  have ok: "?ok (t\<lparr>ansi_state := 2, csi_count := 0, csi_cur := -1, csi_param := replicate (nat ANSI_MAX_PARAMS) (-1)\<rparr>)"
    "?ok (t\<lparr>ansi_state := 0\<rparr>)" "?ok ((csi_dispatch c t)\<lparr>ansi_state := 0\<rparr>)"
    "?ok ((csi_open t)\<lparr>csi_param := (csi_param (csi_open t))[j := v]\<rparr>)"
    "?ok ((csi_open t)\<lparr>csi_count := if csi_cur (csi_open t) + 1 \<ge> 8 then 7 else csi_cur (csi_open t) + 1, csi_cur := -1\<rparr>)" for j v
    using d o i k [of "csi_open t"] f t(2) by (simp_all add: confined_upd)
  have if_ok: "?ok (if b then u else v)" if "?ok u" "?ok v" for b u v using that by simp
  have st: "((if b then u else v)\<lparr>ansi_state := 0\<rparr> :: tty) = (if b then u\<lparr>ansi_state := 0\<rparr> else v\<lparr>ansi_state := 0\<rparr>)" for b u v by simp
  have seven: "ANSI_MAX_PARAMS - 1 = 7" by simp
  show "?ok (tty_ansi_feed c t)"
    unfolding tty_ansi_feed_def Let_def st seven by (intro if_ok ok)
qed

lemma safe_scroll: "safe scroll_while"
proof -
  have "safe scroll_step" unfolding scroll_step_def Let_def by (rule safe_comp [OF safe_basic(3) safe_set(2)])
  from safe_let [of "\<lambda>n. scroll_step ^^ n", OF safe_funpow [OF this]] show ?thesis unfolding scroll_while_def .
qed

lemma safe_put_char: "safe (put_char c)"
proof -
  have b: "safe (\<lambda>t. draw_cell (cur_x t) (cur_y t) ch False t)" for ch
    using safe_let [of "\<lambda>p. draw_cell (fst p) (snd p) ch False" "\<lambda>t. (cur_x t, cur_y t)"] safe_basic(4) by simp
  then show ?thesis unfolding put_char_def Let_def
    by (intro safe_if safe_set safe_id safe_comp [OF safe_set(1) b] safe_comp [OF b safe_set(1)])
qed

lemma safe_putc: "safe (tty_screen_putc c)"
proof -
  have "safe (\<lambda>t. show_cursor (scroll_while ((\<lambda>t. if cur_x t \<ge> cols t then t\<lparr>cur_x := 0, cur_y := cur_y t + 1\<rparr> else t) (put_char c (erase_cursor t)))))"
    by (intro safe_comp [OF _ safe_basic(2)] safe_comp [OF _ safe_scroll] safe_comp [OF safe_basic(1) safe_put_char]
        safe_comp [OF safe_comp [OF safe_basic(1) safe_put_char] safe_if] safe_set safe_id)
  then show ?thesis unfolding tty_screen_putc_def Let_def by (intro safe_if safe_id safe_set safe_feed)
qed

lemma tty_putc_facts:
  fixes c :: char and t :: tty
  assumes "geo_ok t" "csi_ok t" defines "t' \<equiv> tty_putc c t"
  shows "geo_ok t' \<and> csi_ok t' \<and> fb t' = fb t \<and> fb_size t' = fb_size t \<and>
    com1 t' = com1 t @ (if c = CHR 0x0A then [13] else []) @ [of_char c] \<and>
    (\<forall>a. fb_size t \<le> unat (a - fb t) \<longrightarrow> vmem t' a = vmem t a)"
proof -
  define u where "u = t\<lparr>com1 := com1 t @ (if c = CHR 0x0A then [13] else []) @ [of_char c]\<rparr>"
  have u: "geo_ok u" "csi_ok u" "t' = tty_screen_putc c u"
    using assms(1,2) by (auto simp: u_def geo_ok_def fb_size_def t'_def tty_putc_def)
  then have s: "confined u t'" "csi_ok t'" using safe_putc unfolding safe_def by blast+
  have "geo_ok t'" using confined_geo [OF s(1)] u(1) by simp
  then show ?thesis using s unfolding confined_def by (auto simp: u_def fb_size_def)
qed

subsection \<open>The cursor\<close>

definition cursor_ok :: "tty \<Rightarrow> bool" where
  "cursor_ok t \<longleftrightarrow> 0 \<le> cur_x t \<and> cur_x t < cols t \<and> 0 \<le> cur_y t \<and> cur_y t < rows t"

lemma draws_sel: "draws t u \<Longrightarrow> cur_x u = cur_x t \<and> cur_y u = cur_y t \<and> cols u = cols t \<and> rows u = rows t \<and> ansi_state u = ansi_state t"
  by (auto simp: draws_def)

lemma put_char_cursor:
  assumes "geo_ok t" "cursor_ok t"
  shows "0 \<le> cur_x (put_char c t) \<and> 0 \<le> cur_y (put_char c t) \<and> cur_y (put_char c t) \<le> rows t \<and>
    (cur_x (put_char c t) \<ge> cols t \<longrightarrow> cur_y (put_char c t) < rows t) \<and>
    cols (put_char c t) = cols t \<and> rows (put_char c t) = rows t \<and> ansi_state (put_char c t) = ansi_state t \<and> geo_ok (put_char c t)"
proof -
  have d: "draws u (draw_cell x y ch False u)" if "geo_ok u" for u x y ch using that by (rule draw_cell_draws)
  have tab: "0 \<le> (cur_x t + 8) AND NOT 7" using assms(2) by (simp add: cursor_ok_def)
  have b: "geo_ok (t\<lparr>cur_x := x\<rparr>)" "geo_ok (t\<lparr>cur_x := x, cur_y := y\<rparr>)" for x y using assms(1) by (simp_all add: geo_ok_def fb_size_def)
  have g: "geo_ok (u\<lparr>cur_x := x\<rparr>) = geo_ok u" for u x by (simp add: geo_ok_def fb_size_def)
  show ?thesis
    using assms tab draws_sel [OF d [OF b(1)]] draws_geo [OF d [OF b(1)]] draws_sel [OF d [OF assms(1)]] draws_geo [OF d [OF assms(1)]] b g
    by (simp add: put_char_def cursor_ok_def)
qed

lemma scroll_step_sel:
  assumes "geo_ok t"
  shows "cur_y (scroll_step t) = cur_y t - 1 \<and> cur_x (scroll_step t) = cur_x t \<and> cols (scroll_step t) = cols t \<and>
    rows (scroll_step t) = rows t \<and> geo_ok (scroll_step t) \<and> ansi_state (scroll_step t) = ansi_state t"
  using draws_sel [OF scroll_up_draws [OF assms]] draws_geo [OF scroll_up_draws [OF assms]] assms
  by (auto simp: scroll_step_def Let_def geo_ok_def fb_size_def)

lemma putc_cursor:
  assumes "geo_ok t" "cursor_ok t" "ansi_state t = 0" "c \<noteq> CHR 0x1B"
  shows "cursor_ok (tty_screen_putc c t) \<and> ansi_state (tty_screen_putc c t) = 0"
proof (cases "fb t = 0")
  case False
  have e: "geo_ok (erase_cursor t)" "cursor_ok (erase_cursor t)" "cols (erase_cursor t) = cols t" "rows (erase_cursor t) = rows t"
    "ansi_state (erase_cursor t) = 0"
    using draws_geo [OF cursor_draws(1) [OF assms(1)]] draws_sel [OF cursor_draws(1) [OF assms(1)]] assms by (auto simp: cursor_ok_def)
  define p where "p = put_char c (erase_cursor t)"
  define q where "q = (if cur_x p \<ge> cols p then p\<lparr>cur_x := 0, cur_y := cur_y p + 1\<rparr> else p)"
  note pc = put_char_cursor [OF e(1,2), of c, folded p_def]
  have q: "0 \<le> cur_x q" "cur_x q < cols q" "0 \<le> cur_y q" "cur_y q \<le> rows q" "geo_ok q" "ansi_state q = 0" "1 \<le> rows q"
    using pc e assms(2) by (auto simp: q_def geo_ok_def fb_size_def cursor_ok_def)
  have "cursor_ok (scroll_while q) \<and> ansi_state (scroll_while q) = 0 \<and> geo_ok (scroll_while q)"
  proof (cases "cur_y q = rows q")
    case True
    then show ?thesis using scroll_step_sel [OF q(5)] q by (simp add: scroll_while_def cursor_ok_def)
  next
    case False
    then show ?thesis using q by (simp add: scroll_while_def cursor_ok_def)
  qed
  moreover from this have "cursor_ok (show_cursor (scroll_while q)) \<and> ansi_state (show_cursor (scroll_while q)) = 0"
    using draws_sel [OF cursor_draws(2), of "scroll_while q"] by (auto simp: cursor_ok_def)
  moreover have "tty_screen_putc c t = show_cursor (scroll_while q)"
    using False assms(3,4) by (simp add: tty_screen_putc_def Let_def p_def q_def)
  ultimately show ?thesis by simp
qed (use assms in \<open>simp add: tty_screen_putc_def\<close>)

text \<open>
  A sequence without parameters: \<open>ESC [ m\<close> should reset the colours, and the code has a branch for it, but the
  number of parameters is then 0 and not 1, and nothing happens.
\<close>

lemma sgr_reset_ignored:
  "csi_cur t = -1 \<Longrightarrow> csi_count t = 0 \<Longrightarrow> csi_dispatch (CHR ''m'') t = t"
  by (simp add: csi_dispatch_def)

subsection \<open>Properties\<close>

text \<open>
  (C26) The console stays in its memory: whatever bytes are written, escape sequences with any parameters
  included, no byte outside the framebuffer changes, the parser never indexes outside its parameter array, and
  the serial port gets every byte, with a carriage return before each newline.  Text without escape characters
  keeps the cursor on the screen.
\<close>

theorem tty_write_safe:
  fixes s :: string and t :: tty
  assumes "geo_ok t" "csi_ok t" defines "t' \<equiv> tty_write s t"
  shows "(\<forall>a. fb_size t \<le> unat (a - fb t) \<longrightarrow> vmem t' a = vmem t a) \<and> geo_ok t' \<and> csi_ok t' \<and>
    com1 t' = com1 t @ concat (map (\<lambda>c. (if c = CHR 0x0A then [13] else []) @ [of_char c]) s) \<and>
    (CHR 0x1B \<notin> set s \<and> ansi_state t = 0 \<and> cursor_ok t \<longrightarrow> cursor_ok t')"
proof -
  have "(\<forall>a. fb_size t \<le> unat (a - fb t) \<longrightarrow> vmem (fold tty_putc s t) a = vmem t a) \<and> geo_ok (fold tty_putc s t) \<and> csi_ok (fold tty_putc s t) \<and>
      com1 (fold tty_putc s t) = com1 t @ concat (map (\<lambda>c. (if c = CHR 0x0A then [13] else []) @ [of_char c]) s)"
    using assms(1,2)
  proof (induction s arbitrary: t)
    case (Cons c s)
    note f = tty_putc_facts [OF Cons.prems, of c]
    then show ?case using Cons.IH [of "tty_putc c t"] by simp
  qed simp
  moreover have "cursor_ok (fold tty_putc s t)" if "CHR 0x1B \<notin> set s" "ansi_state t = 0" "cursor_ok t"
    using assms(1,2) that
  proof (induction s arbitrary: t)
    case (Cons c s)
    let ?u = "(if c = CHR 0x0A then t\<lparr>com1 := com1 t @ [13]\<rparr> else t)\<lparr>com1 := com1 (if c = CHR 0x0A then t\<lparr>com1 := com1 t @ [13]\<rparr> else t) @ [of_char c]\<rparr>"
    have "geo_ok ?u" "cursor_ok ?u" "ansi_state ?u = 0" using Cons.prems by (auto simp: geo_ok_def fb_size_def cursor_ok_def)
    then have "cursor_ok (tty_putc c t) \<and> ansi_state (tty_putc c t) = 0"
      using putc_cursor [of ?u c] Cons.prems(3) unfolding tty_putc_def Let_def list.set by blast
    then show ?case using Cons tty_putc_facts [OF Cons.prems(1,2), of c] by simp
  qed simp
  ultimately show ?thesis unfolding t'_def tty_write_def by blast
qed

definition demo_tty :: tty where
  "demo_tty = \<lparr>fb = 4096, pitch = 64, bpp = 32, cols = 2, rows = 2, cur_x = 0, cur_y = 0, mode_w = 16, mode_h = 32, mode_bpp = 32,
     g_fg = 1, g_bg = 0, ansi_state = 0, csi_param = replicate 8 (-1), csi_count = 0, csi_cur = -1, vmem = (\<lambda>_. 7), com1 = []\<rparr>"

theorem tty_write_safe_witness:
  "vmem (tty_write ''ok'' demo_tty) 0 = 7 \<and> com1 (tty_write ''ok'' demo_tty) = [111, 107] \<and> cursor_ok (tty_write ''ok'' demo_tty)"
proof -
  have "geo_ok demo_tty" "csi_ok demo_tty" "cursor_ok demo_tty" "ansi_state demo_tty = 0" "vmem demo_tty 0 = 7" "com1 demo_tty = []"
    "fb_size demo_tty \<le> unat (0 - fb demo_tty)"
    by (simp_all add: geo_ok_def csi_ok_def cursor_ok_def demo_tty_def fb_size_def)
  then show ?thesis using tty_write_safe [of demo_tty "''ok''"] by simp
qed

end
