(* ===== verification/Procfs.thy ===== *)
theory Procfs
  imports Decimal Sched Vfs
begin

text \<open>
  The contents of the files under \<open>/proc\<close>, \<open>kernel/src/fs/procfs.c\<close>: the formatter \<open>emit\<close> with its buffer
  of 256 bytes, the text of each kind of file, and reading it at an offset.
\<close>

subsection \<open>The formatter\<close>

datatype farg = FA_s string | FA_n int

definition arg_s :: "farg list \<Rightarrow> string \<times> farg list" where
  "arg_s as = (case as of FA_s s # r \<Rightarrow> (s, r) | _ # r \<Rightarrow> ('''', r) | [] \<Rightarrow> ('''', []))"

definition arg_n :: "farg list \<Rightarrow> int \<times> farg list" where
  "arg_n as = (case as of FA_n v # r \<Rightarrow> (v, r) | _ # r \<Rightarrow> (0, r) | [] \<Rightarrow> (0, []))"

abbreviation TMP :: nat where "TMP \<equiv> 255"

text \<open>A format ends inside no conversion; the characters after it are not modelled.\<close>

fun emit_loop :: "string \<Rightarrow> farg list \<Rightarrow> string \<Rightarrow> string" where
  "emit_loop [] as tmp = tmp"
| "emit_loop (c # fmt) as tmp =
     (if length tmp \<ge> TMP then tmp
      else if c \<noteq> CHR ''%'' then emit_loop fmt as (tmp @ [c])
      else case fmt of
             [] \<Rightarrow> tmp
           | f # fmt \<Rightarrow>
               if f = CHR ''s''
               then let (s, as) = arg_s as in emit_loop fmt as (tmp @ take (TMP - length tmp) s)
               else if f = CHR ''c''
               then let (v, as) = arg_n as in emit_loop fmt as (tmp @ [char_of (nat (v mod 256))])
               else if f = CHR ''d'' \<or> f = CHR ''u''
               then let (v, as) = arg_n as;
                        (tmp, v) = (if v < 0 then (tmp @ ''-'', wrap64 (- v)) else (tmp, v));
                        num = digit_loop 23 v
                    in emit_loop fmt as (tmp @ take (TMP - length tmp) (rev num))
               else emit_loop fmt as tmp)"

definition emit :: "nat \<Rightarrow> string \<Rightarrow> farg list \<Rightarrow> string" where
  "emit cap fmt as = take cap (takeWhile (\<lambda>c. c \<noteq> CHR 0x00) (emit_loop fmt as []))"

subsection \<open>The files\<close>

abbreviation CONTENT :: nat where "CONTENT \<equiv> 1024"
abbreviation nl :: char where "nl \<equiv> CHR 0x0A"

definition state_char :: "task \<Rightarrow> char" where
  "state_char t = (if zombie t then CHR ''Z''
     else if state t = TASK_RUNNING then CHR ''R'' else if state t = TASK_READY then CHR ''R'' else CHR ''S'')"

definition stat_args :: "task \<Rightarrow> farg list" where
  "stat_args t = [FA_n (pid t), FA_n (parent_pid t), FA_n (pgid t), FA_n (of_char (state_char t)), FA_s (name t)]"

fun stat_loop :: "'a sched_scheme \<Rightarrow> nat list \<Rightarrow> string \<Rightarrow> string" where
  "stat_loop k [] content = content"
| "stat_loop k (i # is) content =
     (let t = task_at k i
      in if state t = TASK_FREE then stat_loop k is content
         else let content = content @ emit (CONTENT - 1 - length content) (''%d %d %d %c %s'' @ [nl]) (stat_args t)
              in if length content > CONTENT - 128 then content else stat_loop k is content)"

definition procfs_content :: "'a sched_scheme \<Rightarrow> u32 \<Rightarrow> string option" where
  "procfs_content k pl =
     (let kind = pl AND 0xFF; p = drop_bit 8 pl
      in if kind = PF_MEMINFO
         then Some (emit (CONTENT - 1) (''Total:  %u kB'' @ [nl] @ ''Free:    %u kB'' @ [nl])
                [FA_n (sint (pmm_get_usable_bytes (frames k) div 1024)),
                 FA_n (sint (pmm_get_free_pages (frames k) * of_nat PAGE_SIZE div 1024))])
         else if kind = PF_UPTIME
         then Some (emit (CONTENT - 1) (''%u.%u'' @ [nl])
                [FA_n (sint (g_uptime_ticks k div 50)), FA_n (sint (g_uptime_ticks k mod 50 * 2))])
         else if kind = PF_STAT then Some (stat_loop k [0 ..< MAX_TASKS] [])
         else if kind = PF_STATUS \<or> kind = PF_CMDLINE
         then case sched_find_pid k (sint p) of
                None \<Rightarrow> None
              | Some i \<Rightarrow>
                  let t = task_at k i
                  in if kind = PF_CMDLINE then Some (emit (CONTENT - 1) (''%s'' @ [nl]) [FA_s (name t)])
                     else Some (emit (CONTENT - 1)
                            (''Name:   %s'' @ [nl] @ ''Pid:    %d'' @ [nl] @ ''PPid:   %d'' @ [nl] @ ''PgId:   %d'' @ [nl] @
                             ''State:  %c'' @ [nl])
                            [FA_s (name t), FA_n (pid t), FA_n (parent_pid t), FA_n (pgid t), FA_n (of_char (state_char t))])
         else None)"

definition procfs_read :: "'a sched_scheme \<Rightarrow> vnode \<Rightarrow> nat \<Rightarrow> nat \<Rightarrow> int \<times> u8 list" where
  "procfs_read k node sz off =
     (case procfs_content k (payload node) of
        None \<Rightarrow> (-1, [])
      | Some content \<Rightarrow>
          if off \<ge> length content then (0, [])
          else let n = length content - off; n = (if n > sz then sz else n)
               in (c_int n, map of_char (take n (drop off content))))"

subsection \<open>What the formatter prints\<close>

text \<open>The text of a format without any limit.\<close>

fun render :: "string \<Rightarrow> farg list \<Rightarrow> string" where
  "render [] as = []"
| "render (c # fmt) as =
     (if c \<noteq> CHR ''%'' then c # render fmt as
      else case fmt of
             [] \<Rightarrow> []
           | f # fmt \<Rightarrow>
               if f = CHR ''s'' then let (s, as) = arg_s as in s @ render fmt as
               else if f = CHR ''c'' then let (v, as) = arg_n as in char_of (nat (v mod 256)) # render fmt as
               else if f = CHR ''d'' \<or> f = CHR ''u'' then let (v, as) = arg_n as in decimal v @ render fmt as
               else render fmt as)"

definition args_ok :: "farg list \<Rightarrow> bool" where
  "args_ok as \<longleftrightarrow> (\<forall>v. FA_n v \<in> set as \<longrightarrow> \<bar>v\<bar> < 2 ^ 63)"

lemma arg_n_ok: "args_ok as \<Longrightarrow> arg_n as = (v, as') \<Longrightarrow> \<bar>v\<bar> < 2 ^ 63 \<and> args_ok as'"
  by (auto simp: arg_n_def args_ok_def split: list.splits farg.splits)

lemma arg_s_ok: "args_ok as \<Longrightarrow> arg_s as = (v, as') \<Longrightarrow> args_ok as'"
  by (auto simp: arg_s_def args_ok_def split: list.splits farg.splits)

lemma decimal_num: "\<bar>v\<bar> < 2 ^ 63 \<Longrightarrow>
    decimal v = (if v < 0 then CHR ''-'' # rev (digit_loop 23 (wrap64 (- v))) else rev (digit_loop 23 v))"
  using wrap64_id [of "- v"] by (auto simp: decimal_def digit_loop_inbase)

text \<open>The buffer holds the first 255 characters of that text.\<close>

lemma emit_loop_render:
  "args_ok as \<Longrightarrow> length tmp \<le> TMP \<Longrightarrow> emit_loop fmt as tmp = take TMP (tmp @ render fmt as)"
proof (induction "length fmt" arbitrary: fmt as tmp rule: less_induct)
  case less
  consider "fmt = []" | "length tmp = TMP" | c where "fmt = [c]" | "length tmp < TMP" "\<exists>c r. fmt = c # r \<and> c \<noteq> CHR ''%''"
    | f r where "length tmp < TMP" "fmt = CHR ''%'' # f # r"
    using less.prems(2) by (cases fmt; cases "tl fmt"; fastforce)
  then show ?case
  proof cases
    case 2
    then show ?thesis by (cases fmt) simp_all
  next
    case (3 c)
    then show ?thesis using less.prems by (cases "length tmp = TMP") auto
  next
    case 4
    then show ?thesis using less by (auto simp: take_Cons')
  next
    case (5 f r)
    have IH: "args_ok as \<Longrightarrow> length tmp \<le> TMP \<Longrightarrow>
        emit_loop r as (tmp @ take (TMP - length tmp) x) = take TMP (tmp @ x @ render r as)" for as tmp x
      using less.hyps [of r as "tmp @ take (TMP - length tmp) x"] 5(2) by (cases "length x \<le> TMP - length tmp") (auto simp: min_def)
    obtain v as' where n: "arg_n as = (v, as')" by (cases "arg_n as")
    obtain s as'' where a: "arg_s as = (s, as'')" by (cases "arg_s as")
    note ok = arg_n_ok [OF less.prems(1) n] arg_s_ok [OF less.prems(1) a]
    have dec: "decimal v = (if v < 0 then CHR ''-'' # rev (digit_loop 23 (wrap64 (- v))) else rev (digit_loop 23 v))"
      using decimal_num ok(1) by blast
    have IH': "length tmp \<le> 254 \<Longrightarrow> emit_loop r as' (tmp @ CHR ''-'' # take (254 - length tmp) x) = take TMP (tmp @ CHR ''-'' # x @ render r as')" for x
      using IH [of as' "tmp @ ''-''" x] ok(1) by (simp del: take_append)
    show ?thesis using 5 ok IH [of as'' tmp s] IH [of as' tmp "[char_of (nat (v mod 256))]"] IH [of as' tmp "rev (digit_loop 23 v)"] IH' IH [OF less.prems, of "[]"]
      by (simp add: n a dec del: take_append)
  qed (use less.prems in simp)
qed

lemma emit_render:
  assumes "args_ok as" "CHR 0x00 \<notin> set (render fmt as)" "length (render fmt as) \<le> TMP" "length (render fmt as) \<le> cap"
  shows "emit cap fmt as = render fmt as"
proof -
  have "emit_loop fmt as [] = render fmt as" using emit_loop_render [OF assms(1), of "[]" fmt] assms(3) by simp
  moreover have "takeWhile (\<lambda>c. c \<noteq> CHR 0x00) (render fmt as) = render fmt as" using assms(2) by (auto simp: takeWhile_eq_all_conv)
  ultimately show ?thesis using assms(4) unfolding emit_def by (metis take_all)
qed

text \<open>Fields of a task that fit their C types.\<close>

definition c_range :: "int \<Rightarrow> bool" where
  "c_range v \<longleftrightarrow> - (2 ^ 31) \<le> v \<and> v < 2 ^ 31"

definition printable_task :: "task \<Rightarrow> bool" where
  "printable_task t \<longleftrightarrow> length (name t) < TASK_NAME_LEN \<and> CHR 0x00 \<notin> set (name t) \<and> c_range (pid t) \<and> c_range (parent_pid t) \<and> c_range (pgid t)"

lemma decimal_length: "c_range v \<Longrightarrow> length (decimal v) \<le> 11"
  using inbase_length [of 10 "nat (- v)" 10] inbase_length [of 10 "nat v" 10] le_trans [of _ 10 11]
  by (cases "v < 0") (auto simp: decimal_def c_range_def nat_less_iff)

lemma decimal_no_NUL: "CHR 0x00 \<notin> set (decimal v)"
  using inbase_digits [of "CHR 0x00"] by (auto simp: decimal_def is_digit_def)

lemma state_char_of: "char_of (nat (int (of_char (state_char t)) mod 256)) = state_char t"
  by (simp add: state_char_def char_of_def bit_0 bit_simps)

definition stat_line :: "task \<Rightarrow> string" where
  "stat_line t = decimal (pid t) @ '' '' @ decimal (parent_pid t) @ '' '' @ decimal (pgid t) @ '' '' @ [state_char t] @ '' '' @ name t @ [nl]"

definition status_text :: "task \<Rightarrow> string" where
  "status_text t = ''Name:   '' @ name t @ [nl] @ ''Pid:    '' @ decimal (pid t) @ [nl] @ ''PPid:   '' @ decimal (parent_pid t) @ [nl] @
     ''PgId:   '' @ decimal (pgid t) @ [nl] @ ''State:  '' @ [state_char t, nl]"

lemma stat_line_length: "printable_task t \<Longrightarrow> length (stat_line t) \<le> 80"
  using decimal_length [of "pid t"] decimal_length [of "parent_pid t"] decimal_length [of "pgid t"]
  by (simp add: stat_line_def printable_task_def)

lemma state_char_NUL: "state_char t \<noteq> CHR 0x00"
  by (simp add: state_char_def)

lemma c_range_long: "c_range v \<Longrightarrow> \<bar>v\<bar> < 2 ^ 63"
  by (auto simp: c_range_def)

lemma args_ok_of_char: "\<bar>of_char c :: int\<bar> < 2 ^ 63"
proof -
  have "(of_char c :: nat) < 256" by (simp add: of_char_def)
  then have "int (of_char c) < int 256" by (simp only: of_nat_less_iff)
  moreover have "int 256 < 2 ^ 63" by simp
  ultimately have "int (of_char c) < 2 ^ 63" by linarith
  moreover have "(of_char c :: int) = int (of_char c)" by (simp add: of_char_def)
  ultimately show ?thesis by (metis abs_of_nat)
qed

lemma emit_stat_line:
  assumes "printable_task t" "80 \<le> cap"
  shows "emit cap (''%d %d %d %c %s'' @ [nl]) (stat_args t) = stat_line t"
proof -
  have r: "render (''%d %d %d %c %s'' @ [nl]) (stat_args t) = stat_line t"
    by (simp add: stat_args_def arg_n_def arg_s_def stat_line_def state_char_of)
  have "args_ok (stat_args t)" using assms(1) c_range_long args_ok_of_char by (auto simp: args_ok_def stat_args_def printable_task_def)
  moreover have "CHR 0x00 \<notin> set (stat_line t)"
    using assms(1) decimal_no_NUL state_char_NUL [of t] by (simp add: stat_line_def printable_task_def)
  ultimately show ?thesis using emit_render [of "stat_args t" "''%d %d %d %c %s'' @ [nl]" cap] stat_line_length [OF assms(1)] assms(2)
    unfolding r by simp
qed

text \<open>The listing consists of whole lines, and leaves out tasks only when it is almost full.\<close>

lemma stat_loop_lines:
  assumes "\<And>i. printable_task (task_at k i)" "length c \<le> CONTENT - 128"
  shows "\<exists>m. stat_loop k is c = c @ concat (map stat_line (take m (filter (\<lambda>t. state t \<noteq> TASK_FREE) (map (task_at k) is)))) \<and>
    (m \<ge> length (filter (\<lambda>t. state t \<noteq> TASK_FREE) (map (task_at k) is)) \<or> length (stat_loop k is c) > CONTENT - 128) \<and>
    length (stat_loop k is c) \<le> CONTENT - 1"
  using assms(2)
proof (induction "is" arbitrary: c)
  case (Cons i "is")
  let ?t = "task_at k i"
  let ?c = "c @ stat_line ?t"
  have e: "emit (CONTENT - 1 - length c) (''%d %d %d %c %s'' @ [nl]) (stat_args ?t) = stat_line ?t"
    using assms(1) Cons.prems by (intro emit_stat_line) simp_all
  have len: "length ?c \<le> CONTENT - 48" using stat_line_length [OF assms(1), of i] Cons.prems by simp
  show ?case
  proof (cases "state ?t = TASK_FREE \<or> length ?c \<le> CONTENT - 128")
    case True
    show ?thesis
    proof (cases "state ?t = TASK_FREE")
      case True
      then show ?thesis using Cons.IH [OF Cons.prems] by simp
    next
      case False
      then have s: "stat_loop k (i # is) c = stat_loop k is ?c" using True e by (simp add: Let_def)
      obtain m where "stat_loop k is ?c = ?c @ concat (map stat_line (take m (filter (\<lambda>t. state t \<noteq> TASK_FREE) (map (task_at k) is))))"
          "m \<ge> length (filter (\<lambda>t. state t \<noteq> TASK_FREE) (map (task_at k) is)) \<or> length (stat_loop k is ?c) > CONTENT - 128"
          "length (stat_loop k is ?c) \<le> CONTENT - 1"
        using Cons.IH [of ?c] True False by blast
      then show ?thesis using False unfolding s by (intro exI [of _ "Suc m"]) simp
    qed
  next
    case False
    then have "stat_loop k (i # is) c = ?c" using e by (simp add: Let_def)
    then show ?thesis using False len by (intro exI [of _ 1]) simp
  qed
qed (auto intro: exI [of _ 0])

lemma status_content:
  assumes "printable_task t"
  shows "emit (CONTENT - 1)
      (''Name:   %s'' @ [nl] @ ''Pid:    %d'' @ [nl] @ ''PPid:   %d'' @ [nl] @ ''PgId:   %d'' @ [nl] @ ''State:  %c'' @ [nl])
      [FA_s (name t), FA_n (pid t), FA_n (parent_pid t), FA_n (pgid t), FA_n (of_char (state_char t))] = status_text t"
    (is "emit _ ?fmt ?as = _")
proof -
  have r: "render ?fmt ?as = status_text t" by (simp add: arg_n_def arg_s_def status_text_def state_char_of)
  have "args_ok ?as" using assms c_range_long args_ok_of_char by (auto simp: args_ok_def printable_task_def)
  moreover have "CHR 0x00 \<notin> set (status_text t)"
    using assms decimal_no_NUL state_char_NUL [of t] by (simp add: status_text_def printable_task_def)
  moreover have "length (status_text t) \<le> TMP"
    using assms decimal_length [of "pid t"] decimal_length [of "parent_pid t"] decimal_length [of "pgid t"]
    by (simp add: status_text_def printable_task_def)
  ultimately show ?thesis using emit_render [of ?as ?fmt "CONTENT - 1"] unfolding r by simp
qed

subsection \<open>Process ids in paths\<close>

lemma parse_pid_snoc: "parse_pid v (s @ [c]) =
    (case parse_pid v s of None \<Rightarrow> None | Some w \<Rightarrow> if is_digit c then Some (w * 10 + of_nat (of_char c - 48)) else None)"
  by (induction s arbitrary: v) (auto simp: is_digit_def)

lemma parse_pid_inbase: "parse_pid 0 (inbase 10 n) = Some (of_nat n)"
proof (induction n rule: less_induct)
  case (less n)
  have d: "of_char (xdigit m) = 48 + m" "is_digit (xdigit m)" if "m < 10" for m
    using that digit_char_facts [of "int m"] by (simp_all add: xdigit_10)
  show ?case
  proof (cases "n < 10")
    case True
    then show ?thesis using d [of n] by (subst inbase.simps) simp
  next
    case False
    have "(of_nat (n div 10) :: u32) * 10 + of_nat (n mod 10) = of_nat (n div 10 * 10 + n mod 10)"
      unfolding of_nat_add of_nat_mult by simp
    then have "(of_nat (n div 10) :: u32) * 10 + of_nat (n mod 10) = of_nat n" by simp
    then show ?thesis using False less.IH [of "n div 10"] d [of "n mod 10"]
      by (subst inbase.simps) (simp add: parse_pid_snoc)
  qed
qed

lemma inbase_component:
  assumes "n < 2 ^ 24" shows "next_component (inbase 10 n) = (inbase 10 n, [])" "inbase 10 n \<noteq> ''meminfo''" "inbase 10 n \<noteq> ''uptime''" "inbase 10 n \<noteq> ''stat''"
proof -
  have dig: "\<forall>c \<in> set (inbase 10 n). is_digit c" using inbase_digits by blast
  then have "slash \<notin> set (inbase 10 n)" by (auto simp: is_digit_def)
  moreover have "length (inbase 10 n) \<le> 8" using assms by (intro inbase_length) auto
  moreover have tw: "takeWhile (\<lambda>c. c \<noteq> slash) (inbase 10 n) = inbase 10 n" using calculation(1) by (auto simp: takeWhile_eq_all_conv)
  ultimately show "next_component (inbase 10 n) = (inbase 10 n, [])" unfolding next_component_def tw by simp
  show "inbase 10 n \<noteq> ''meminfo''" "inbase 10 n \<noteq> ''uptime''" "inbase 10 n \<noteq> ''stat''"
    using dig by (auto simp: is_digit_def)
qed

lemma status_payload:
  assumes "n < 2 ^ 24"
  shows "(push_bit 8 (of_nat n :: u32) OR PF_STATUS) AND 0xFF = PF_STATUS"
    "drop_bit 8 (push_bit 8 (of_nat n :: u32) OR PF_STATUS) = of_nat n"
proof -
  have "x AND 0xFF = take_bit 8 x" for x :: u32 by (simp add: take_bit_eq_mask mask_numeral)
  then show "(push_bit 8 (of_nat n :: u32) OR PF_STATUS) AND 0xFF = PF_STATUS"
    by (simp add: take_bit_or take_bit_push_bit)
  have w: "(of_nat n :: u32) = take_bit 24 (of_nat n)" using assms by (simp add: take_bit_of_nat take_bit_nat_eq_self)
  have "drop_bit 8 (push_bit 8 (take_bit 24 (x :: u32))) = take_bit 24 x" for x
    by (rule bit_word_eqI) (auto simp: bit_simps)
  then have "drop_bit 8 (push_bit 8 (of_nat n :: u32)) = of_nat n" using w by metis
  then show "drop_bit 8 (push_bit 8 (of_nat n :: u32) OR PF_STATUS) = of_nat n" by (simp add: drop_bit_or)
qed

subsection \<open>Properties\<close>

text \<open>
  (C27) Reading \<open>/proc/<pid>\<close>: the path with the decimal number of a living task is found, whatever the
  process id below \<open>2^24\<close>, as long as the pool of nodes has a free slot, and reading it at any offset gives the
  bytes of the status text at that offset: name, ids and state of exactly that task, never cut short.
\<close>

theorem proc_pid_status:
  assumes "root s \<noteq> 0" "vtype (node_at s (root s)) = VFS_DIRECTORY" "find_child s (root s) ''proc'' = Some d"
    "vtype (node_at s d) = VFS_PROCFS" "payload (node_at s d) = 0" "pool_used s < PROCFS_POOL" "pool_slot s (pool_used s) \<notin> {0, d}"
    "sched_find_pid k (int n) = Some i" "0 < n" "n < 2 ^ 24" "printable_task (task_at k i)"
  shows "case vfs_resolve (\<lambda>p. sched_find_pid k p \<noteq> None) (''/proc/'' @ decimal (int n)) s of (f, s') \<Rightarrow>
    vfs_read (procfs_read k) f sz off s' = (c_int (length (take sz (drop off (status_text (task_at k i))))),
      map of_char (take sz (drop off (status_text (task_at k i)))))"
proof -
  let ?al = "\<lambda>p. sched_find_pid k p \<noteq> None" and ?r = "inbase 10 n"
  let ?f = "pool_slot s (pool_used s)"
  define s' where "s' = snd (make_node d ''status'' (push_bit 8 (of_nat n) OR PF_STATUS) s)"
  have mk: "make_node d ''status'' (push_bit 8 (of_nat n) OR PF_STATUS) s = (?f, s')"
    using assms(6) by (simp add: s'_def make_node_def Let_def)
  have node: "payload (node_at s' ?f) = push_bit 8 (of_nat n) OR PF_STATUS" "vtype (node_at s' ?f) = VFS_PROCFS"
    using assms(6,7) by (simp_all add: s'_def make_node_def Let_def link_child_def)
  have sn: "sint (of_nat n :: u32) = int n" using assms(10) c_int_id [of n] by (simp add: c_int_def)
  have n0: "(of_nat n :: u32) \<noteq> 0" using sn assms(9) by auto
  have pr: "procfs_resolve ?al d ?r s = (?f, s')"
    using inbase_component [OF assms(10)] assms(5,8) n0 mk sn by (simp add: procfs_resolve_def parse_pid_inbase)
  have w: "vfs_walk ?al d ?r s = (?f, s')"
    using assms(4,7) pr inbase_component(1) [OF assms(10)] by (subst vfs_walk.simps) (simp add: vfs_walk.simps [of _ _ "[]"])
  have "next_component (''proc/'' @ ?r) = (''proc'', ?r)" by (simp add: next_component_def)
  then have "vfs_walk ?al (root s) (''proc/'' @ ?r) s = (?f, s')"
    using assms(2,3) w by (subst vfs_walk.simps) simp
  then have "vfs_resolve ?al (''/proc/'' @ decimal (int n)) s = (?f, s')"
    using assms(1) by (simp add: vfs_resolve_def decimal_def)
  moreover have "procfs_content k (push_bit 8 (of_nat n) OR PF_STATUS) = Some (status_text (task_at k i))"
    unfolding procfs_content_def Let_def status_payload [OF assms(10)] sn assms(8) using status_content [OF assms(11)] by simp
  ultimately show ?thesis using assms(7) node by (auto simp: vfs_read_def procfs_read_def min_def c_int_id)
qed

definition proc_vfs :: vfs where
  "proc_vfs = root_vfs\<lparr>nodes := [4096 \<mapsto> zero_vnode\<lparr>vname := ''/'', vtype := VFS_DIRECTORY, children := [4224]\<rparr>,
     4224 \<mapsto> zero_vnode\<lparr>vname := ''proc'', vtype := VFS_PROCFS, parent := 4096\<rparr>]\<rparr>"

theorem proc_pid_status_witness:
  "case vfs_resolve (\<lambda>p. sched_find_pid two_sched p \<noteq> None) (''/proc/'' @ decimal 1) proc_vfs of (f, s') \<Rightarrow>
    vfs_read (procfs_read two_sched) f 5 0 s' = (5, [78, 97, 109, 101, 58])"
proof -
  have "printable_task (task_at two_sched 1)" "sched_find_pid two_sched (int 1) = Some 1" "name (task_at two_sched 1) = []"
    by (simp_all add: printable_task_def c_range_def task_at_def two_sched_def zero_task_def sched_find_pid_def upt_rec)
  moreover have "c_int (Suc (Suc (Suc (Suc (Suc 0))))) = 5" by (simp add: c_int_id)
  ultimately show ?thesis
    using proc_pid_status [of proc_vfs 4224 two_sched 1 1 5 0]
    by (simp add: proc_vfs_def root_vfs_def node_at_def find_child_def pool_slot_def zero_vnode_def status_text_def)
qed

text \<open>
  (C28) The process list: \<open>/proc/stat\<close> consists of the lines of the tasks in table order, whole lines only; a
  task is missing only when the text has more than 896 bytes, and the text never fills its buffer.
\<close>

theorem proc_stat_lines:
  assumes "\<forall>i. printable_task (task_at k i)" "pl AND 0xFF = PF_STAT"
  defines "live \<equiv> filter (\<lambda>t. state t \<noteq> TASK_FREE) (map (task_at k) [0 ..< MAX_TASKS])"
  shows "\<exists>m c. procfs_content k pl = Some c \<and> c = concat (map stat_line (take m live)) \<and>
    (m \<ge> length live \<or> length c > CONTENT - 128) \<and> length c < CONTENT"
proof -
  have "procfs_content k pl = Some (stat_loop k [0 ..< MAX_TASKS] [])" using assms(2) by (simp add: procfs_content_def)
  then show ?thesis using stat_loop_lines [of k "[]" "[0 ..< MAX_TASKS]"] assms(1) unfolding live_def by auto
qed

theorem proc_stat_lines_witness:
  "\<exists>m c. procfs_content two_sched PF_STAT = Some c \<and>
    c = concat (map stat_line (take m (filter (\<lambda>t. state t \<noteq> TASK_FREE) (map (task_at two_sched) [0 ..< MAX_TASKS])))) \<and> length c < CONTENT"
proof -
  have "printable_task (task_at two_sched i)" for i
    by (simp add: printable_task_def c_range_def task_at_def two_sched_def zero_task_def nth_Cons')
  then show ?thesis using proc_stat_lines [of two_sched PF_STAT] by auto
qed

end
