(* ===== verification/Kprintf.thy ===== *)
theory Kprintf
  imports Decimal Tty
begin

text \<open>
  Formatted output, \<open>kernel/src/lib/libk.c\<close>: the serial log with its flood guard, \<open>kprintf\<close> and the bounded
  formatter \<open>vsnprintf_mini\<close>.  The variadic arguments are a list of 64-bit slots and strings; a format never ends
  inside a conversion, where the C code would read past its terminator.
\<close>

subsection \<open>Arguments\<close>

datatype va = VA_num u64 | VA_str "string option"

definition va_num :: "va list \<Rightarrow> u64 \<times> va list" where
  "va_num ap = (case ap of VA_num v # r \<Rightarrow> (v, r) | _ # r \<Rightarrow> (0, r) | [] \<Rightarrow> (0, []))"

definition va_str :: "va list \<Rightarrow> string \<times> va list" where
  "va_str ap = (case ap of VA_str (Some s) # r \<Rightarrow> (s, r) | _ # r \<Rightarrow> (''(null)'', r) | [] \<Rightarrow> (''(null)'', []))"

text \<open>An \<open>int\<close> and an \<open>unsigned int\<close> argument are the low half of a slot.\<close>

definition va_int :: "u64 \<Rightarrow> int" where
  "va_int w = sint (ucast w :: u32)"

definition va_uint :: "u64 \<Rightarrow> nat" where
  "va_uint w = unat (ucast w :: u32)"

definition va_char :: "u64 \<Rightarrow> char" where
  "va_char w = char_of (unat w mod 256)"

subsection \<open>The serial log\<close>

abbreviation BURST_CAP :: nat where "BURST_CAP \<equiv> 32"

record klog =
  scr :: tty
  g_serial_flood :: bool
  g_last_ch :: char
  g_repeat :: int
  g_burst_buf :: string
  g_burst_total :: nat
  g_burst_id :: nat

definition outb_com1 :: "u8 \<Rightarrow> klog \<Rightarrow> klog" where
  "outb_com1 b s = s\<lparr>scr := (scr s)\<lparr>com1 := com1 (scr s) @ [b]\<rparr>\<rparr>"

definition outs :: "string \<Rightarrow> klog \<Rightarrow> klog" where
  "outs str s = fold (\<lambda>c. outb_com1 (of_char c)) str s"

text \<open>\<open>while (v > 0) { buf[i++] = digits[v % base]; v /= base; }\<close>\<close>

function num_loop :: "(nat \<Rightarrow> char) \<Rightarrow> nat \<Rightarrow> nat \<Rightarrow> string" where
  "num_loop dg b v = (if v = 0 \<or> b < 2 then [] else dg (v mod b) # num_loop dg b (v div b))"
  by pat_completeness auto
termination by (relation "measure (\<lambda>(dg, b, v). v)") auto

declare num_loop.simps [simp del]

definition num_digits :: "(nat \<Rightarrow> char) \<Rightarrow> nat \<Rightarrow> nat \<Rightarrow> string" where
  "num_digits dg b v = (if v = 0 then ''0'' else num_loop dg b v)"

definition hex_byte :: "char \<Rightarrow> string" where
  "hex_byte c = [xdigit (of_char c div 16), xdigit (of_char c mod 16)]"

definition flush_burst :: "klog \<Rightarrow> klog" where
  "flush_burst s =
     (if g_burst_buf s = [] \<and> g_burst_total s = 0 then s
      else let s = outs ''[BURST#'' s;
               s = outs (rev (num_digits xdigit 10 (g_burst_id s))) s;
               s = outs ''] len='' s;
               s = outs (rev (num_digits xdigit 10 (g_burst_total s))) s;
               s = outs '' first='' s;
               s = outs (concat (map (\<lambda>c. hex_byte c @ '' '') (g_burst_buf s))) s;
               s = outs [CHR 0x0D, CHR 0x0A] s
           in s\<lparr>g_burst_id := g_burst_id s + 1, g_burst_buf := [], g_burst_total := 0\<rparr>)"

definition capture :: "char \<Rightarrow> klog \<Rightarrow> klog" where
  "capture c s = s\<lparr>g_burst_buf := if length (g_burst_buf s) < BURST_CAP then g_burst_buf s @ [c] else g_burst_buf s,
     g_burst_total := g_burst_total s + 1\<rparr>"

definition flood_start :: "char \<Rightarrow> klog \<Rightarrow> klog" where
  "flood_start c s =
     (let s = flush_burst (s\<lparr>g_serial_flood := True\<rparr>);
          s = outs ([CHR 0x0A] @ ''[FLOOD] serial flood detected: repeating char 0x'') s
      in outs (hex_byte c @ [CHR 0x0D, CHR 0x0A]) s)"

definition serial_putc :: "char \<Rightarrow> klog \<Rightarrow> klog" where
  "serial_putc c s =
     (let s = (if c = CHR 0x0A then (outb_com1 13 s)\<lparr>g_repeat := 0, g_burst_buf := [], g_burst_total := 0\<rparr> else s);
          (stop, s) =
            (if g_serial_flood s then (False, s)
             else let s = capture c s
                  in if c = g_last_ch s \<and> c \<noteq> CHR 0x0A \<and> c \<noteq> CHR 0x0D
                     then let s = s\<lparr>g_repeat := g_repeat s + 1\<rparr>
                          in if g_repeat s > 128 then (True, flood_start c s) else (False, s\<lparr>g_last_ch := c\<rparr>)
                     else (False, s\<lparr>g_repeat := 0, g_last_ch := c\<rparr>))
      in if stop then s
         else if g_serial_flood s \<and> c \<noteq> CHR 0x0A then s
         else let s = s\<lparr>g_serial_flood := False\<rparr>; s = outb_com1 (of_char c) s
              in s\<lparr>scr := tty_screen_putc c (scr s)\<rparr>)"

definition kprint :: "string \<Rightarrow> klog \<Rightarrow> klog" where
  "kprint str s = fold serial_putc str s"

subsection \<open>\<open>kprintf\<close>\<close>

definition upper_digit :: "nat \<Rightarrow> char" where
  "upper_digit d = ''0123456789ABCDEF'' ! d"

definition print_uint :: "nat \<Rightarrow> nat \<Rightarrow> bool \<Rightarrow> string" where
  "print_uint v b uppercase = rev (num_digits (if uppercase then upper_digit else xdigit) b v)"

definition print_int :: "int \<Rightarrow> string" where
  "print_int v = (if v < 0 then ''-'' @ print_uint (nat (- v)) 10 False else print_uint (nat v) 10 False)"

text \<open>
  The padded forms.  \<open>%0Nd\<close> first counts its index up to the width and then prints the digit buffer from there, so
  entries that were never written are printed; \<open>num0\<close> is what the buffer holds.  The other forms pad first.
\<close>

definition pad_signed :: "(nat \<Rightarrow> char) \<Rightarrow> nat \<Rightarrow> nat \<Rightarrow> string" where
  "pad_signed num0 width v =
     (let ds = num_digits xdigit 10 v; i = length ds
      in replicate (width - i) (CHR ''0'') @ map num0 (rev [i ..< width]) @ rev ds)"

definition pad_unsigned :: "nat \<Rightarrow> char \<Rightarrow> nat \<Rightarrow> nat \<Rightarrow> string" where
  "pad_unsigned b pad width v =
     (let ds = num_digits xdigit b v in replicate (width - length ds) pad @ rev ds)"

text \<open>The optional zero and width after the percent sign.\<close>

definition parse_width :: "string \<Rightarrow> char \<times> nat \<times> string" where
  "parse_width fmt =
     (let (pad, fmt) = (if fmt \<noteq> [] \<and> hd fmt = CHR ''0'' then (CHR ''0'', tl fmt) else (CHR '' '', fmt));
          ds = takeWhile is_digit fmt
      in (pad, foldl (\<lambda>w c. w * 10 + (of_char c - 48)) 0 ds, dropWhile is_digit fmt))"

lemma parse_width_length: "parse_width fmt = (p, w, r) \<Longrightarrow> length r \<le> length fmt"
proof -
  assume a: "parse_width fmt = (p, w, r)"
  have "length (dropWhile is_digit (tl fmt)) \<le> length fmt" using length_dropWhile_le [of is_digit "tl fmt"] by simp
  then show ?thesis using a length_dropWhile_le [of is_digit fmt] by (auto simp: parse_width_def Let_def split: if_splits)
qed

definition conv_long :: "char \<Rightarrow> va list \<Rightarrow> string \<times> va list" where
  "conv_long f ap =
     (let (v, r) = va_num ap
      in if f = CHR ''u'' then (print_uint (unat v) 10 False, r)
         else if f = CHR ''d'' then (print_int (sint v), r)
         else if f = CHR ''x'' then (print_uint (unat v) 16 False, r)
         else if f = CHR ''p'' then (''0x'' @ print_uint (unat v) 16 False, r)
         else (''l'' @ [f], ap))"

definition conv :: "(nat \<Rightarrow> char) \<Rightarrow> char \<Rightarrow> nat \<Rightarrow> char \<Rightarrow> va list \<Rightarrow> string \<times> va list" where
  "conv num0 pad width f ap =
     (let (v, r) = va_num ap
      in if f = CHR ''s'' then va_str ap
         else if f = CHR ''d''
         then (if width > 0 \<and> va_int v \<ge> 0 then pad_signed num0 width (nat (va_int v)) else print_int (va_int v), r)
         else if f = CHR ''u'' then (if width > 0 then pad_unsigned 10 pad width (unat v) else print_uint (unat v) 10 False, r)
         else if f = CHR ''x'' then (if width > 0 then pad_unsigned 16 pad width (unat v) else print_uint (unat v) 16 False, r)
         else if f = CHR ''X'' then (print_uint (unat v) 16 True, r)
         else if f = CHR ''p'' then (''0x'' @ print_uint (unat v) 16 False, r)
         else if f = CHR ''c'' then ([va_char v], r)
         else if f = CHR ''%'' then (''%'', ap)
         else (''%'' @ [f], ap))"

function kprintf_text :: "(nat \<Rightarrow> char) \<Rightarrow> string \<Rightarrow> va list \<Rightarrow> string" where
  "kprintf_text num0 [] ap = []"
| "kprintf_text num0 (c # fmt) ap =
     (if c \<noteq> CHR ''%'' then c # kprintf_text num0 fmt ap
      else let (pad, width, fmt) = parse_width fmt
           in case fmt of
                [] \<Rightarrow> []
              | f # fmt \<Rightarrow>
                  if f = CHR ''l''
                  then (case fmt of
                          [] \<Rightarrow> []
                        | f # fmt \<Rightarrow> let (t, ap) = conv_long f ap in t @ kprintf_text num0 fmt ap)
                  else let (t, ap) = conv num0 pad width f ap in t @ kprintf_text num0 fmt ap)"
  by pat_completeness auto
termination
proof (relation "measure (\<lambda>(_, fmt, _). length fmt)", goal_cases)
  case (3 num0 c fmt ap x pad y width fm f fs g gs z t ap')
  then show ?case using parse_width_length [of fmt pad width fm] by auto
next
  case (4 num0 c fmt ap x pad y width fm f fs z t ap')
  then show ?case using parse_width_length [of fmt pad width fm] by auto
qed auto

definition kprintf :: "(nat \<Rightarrow> char) \<Rightarrow> string \<Rightarrow> va list \<Rightarrow> klog \<Rightarrow> klog" where
  "kprintf num0 fmt ap s = kprint (kprintf_text num0 fmt ap) s"

subsection \<open>The bounded formatter\<close>

definition fmt_put :: "nat \<Rightarrow> char \<Rightarrow> string \<Rightarrow> string" where
  "fmt_put cap c out = (if length out + 1 < cap then out @ [c] else out)"

definition mini_conv :: "bool \<Rightarrow> char \<Rightarrow> va list \<Rightarrow> string \<times> va list" where
  "mini_conv longmod f ap =
     (let (v, r) = va_num ap
      in if f = CHR ''s'' then va_str ap
         else if f = CHR ''d''
         then let v = (if longmod then sint v else va_int v);
                  (sign, v) = (if v < 0 then (''-'', wrap64 (- v)) else ('''', v))
              in (sign @ rev (digit_loop 23 v), r)
         else if f = CHR ''u'' then (rev (udigit_loop 10 23 (if longmod then unat v else va_uint v)), r)
         else if f = CHR ''x'' then (rev (udigit_loop 16 23 (if longmod then unat v else va_uint v)), r)
         else if f = CHR ''c'' then ([va_char v], r)
         else if f = CHR ''%'' then (''%'', ap)
         else (''%'' @ [f], ap))"

abbreviation is_l :: "char \<Rightarrow> bool" where "is_l c \<equiv> c = CHR ''l''"

function vsn_loop :: "nat \<Rightarrow> string \<Rightarrow> va list \<Rightarrow> string \<Rightarrow> string" where
  "vsn_loop cap [] ap out = out"
| "vsn_loop cap (c # p) ap out =
     (if c \<noteq> CHR ''%'' then vsn_loop cap p ap (fmt_put cap c out)
      else case dropWhile is_l p of
             [] \<Rightarrow> fmt_put cap (CHR ''%'') out
           | f # p' \<Rightarrow> let (t, ap) = mini_conv (takeWhile is_l p \<noteq> []) f ap
                       in vsn_loop cap p' ap (fold (fmt_put cap) t out))"
  by pat_completeness auto
termination
proof (relation "measure (\<lambda>(_, fmt, _). length fmt)", goal_cases)
  case (3 cap c p ap out f p' x t ap')
  then show ?case using length_dropWhile_le [of is_l p] by auto
qed auto

definition vsnprintf_mini :: "nat \<Rightarrow> string \<Rightarrow> va list \<Rightarrow> string" where
  "vsnprintf_mini cap fmt ap = (if cap = 0 then [] else vsn_loop cap fmt ap [])"

definition snprintf :: "nat \<Rightarrow> string \<Rightarrow> va list \<Rightarrow> int \<times> string" where
  "snprintf cap fmt ap =
     (if cap = 0 then (0, [])
      else let out = vsnprintf_mini cap fmt ap in (int (length (takeWhile (\<lambda>c. c \<noteq> CHR 0x00) out)), out))"

subsection \<open>What is printed\<close>

lemma num_digits_inbase: "b \<ge> 2 \<Longrightarrow> rev (num_digits xdigit b v) = inbase b v"
proof -
  assume b: "b \<ge> 2"
  have "v \<noteq> 0 \<Longrightarrow> rev (num_loop xdigit b v) = inbase b v"
  proof (induction v rule: less_induct)
    case (less v)
    show ?case
    proof (cases "v < b")
      case True
      then have "num_loop xdigit b v = [xdigit v]" using b less.prems
        by (subst num_loop.simps) (simp add: num_loop.simps [of _ _ 0])
      then show ?thesis using True by (subst inbase.simps) simp
    next
      case False
      then have "v div b \<noteq> 0" "v div b < v" using b less.prems by (simp_all add: div_eq_0_iff)
      then show ?thesis using less.IH [of "v div b"] b False less.prems
        by (subst num_loop.simps, subst inbase.simps) simp
    qed
  qed
  moreover have "inbase b 0 = ''0''" using b by (subst inbase.simps) (simp add: xdigit_def)
  ultimately show ?thesis by (cases "v = 0") (simp_all add: num_digits_def)
qed

text \<open>A number prints as its numeral.\<close>

lemma print_int_decimal: "print_int v = decimal v"
  by (simp add: print_int_def print_uint_def num_digits_inbase decimal_def)

lemma pad_unsigned_numeral:
  "b \<ge> 2 \<Longrightarrow> pad_unsigned b pad width v = replicate (width - length (inbase b v)) pad @ inbase b v"
  using num_digits_inbase [of b v] by (metis length_rev pad_unsigned_def)

text \<open>
  Padding a signed number prints the unwritten part of the buffer between the zeros and the digits.
\<close>

lemma kprintf_pad_unwritten: "kprintf_text num0 ''%02d'' [VA_num 5] = [CHR ''0'', num0 1, CHR ''5'']"
  by (simp add: parse_width_def is_digit_def conv_def va_num_def va_int_def pad_signed_def num_digits_def num_loop.simps xdigit_def upt_rec)

text \<open>While the guard is on, only a newline gets through.\<close>

lemma flood_silent: "g_serial_flood s \<Longrightarrow> c \<noteq> CHR 0x0A \<Longrightarrow> serial_putc c s = s"
  by (simp add: serial_putc_def Let_def)

subsection \<open>The bounded formatter prints a prefix\<close>

text \<open>A format as the sequence of its literal characters and conversions, and what it stands for.\<close>

datatype piece = Lit char | Conv bool char

definition piece_ok :: "piece \<Rightarrow> bool" where
  "piece_ok p = (case p of Lit c \<Rightarrow> c \<noteq> CHR ''%'' | Conv l f \<Rightarrow> f \<in> set ''sduxc%'')"

primrec piece_text :: "piece \<Rightarrow> string" where
  "piece_text (Lit c) = [c]"
| "piece_text (Conv l f) = CHR ''%'' # (if l then ''l'' else '''') @ [f]"

definition conv_spec :: "bool \<Rightarrow> char \<Rightarrow> va list \<Rightarrow> string \<times> va list" where
  "conv_spec l f ap =
     (let (v, r) = va_num ap
      in if f = CHR ''s'' then va_str ap
         else if f = CHR ''d'' then (decimal (if l then sint v else va_int v), r)
         else if f = CHR ''u'' then (inbase 10 (if l then unat v else va_uint v), r)
         else if f = CHR ''x'' then (inbase 16 (if l then unat v else va_uint v), r)
         else if f = CHR ''c'' then ([va_char v], r)
         else (''%'', ap))"

fun pieces_spec :: "piece list \<Rightarrow> va list \<Rightarrow> string" where
  "pieces_spec [] ap = []"
| "pieces_spec (Lit c # ps) ap = c # pieces_spec ps ap"
| "pieces_spec (Conv l f # ps) ap = (let (t, ap) = conv_spec l f ap in t @ pieces_spec ps ap)"

text \<open>The most negative 64-bit number is the one argument that is not printed as its numeral.\<close>

definition va_ok :: "va list \<Rightarrow> bool" where
  "va_ok ap \<longleftrightarrow> (\<forall>v. VA_num v \<in> set ap \<longrightarrow> v \<noteq> 0x8000000000000000)"

lemma fold_fmt_put: "length out < cap \<Longrightarrow> fold (fmt_put cap) t out = take (cap - 1) (out @ t)"
proof (induction t arbitrary: out)
  case (Cons c t)
  show ?case
  proof (cases "length out + 1 < cap")
    case True
    then show ?thesis using Cons.IH [of "out @ [c]"] by (simp add: fmt_put_def)
  next
    case False
    then have "length out = cap - 1" using Cons.prems by linarith
    then show ?thesis using Cons.IH [of out] Cons.prems by (simp add: fmt_put_def)
  qed
qed simp

lemma sint_u64_bound: "v \<noteq> 0x8000000000000000 \<Longrightarrow> \<bar>sint (v :: u64)\<bar> < 2 ^ 63"
proof -
  assume v: "v \<noteq> 0x8000000000000000"
  have b: "- (2 ^ 63) \<le> sint v" "sint v < 2 ^ 63" using sint_ge [of v] sint_lt [of v] by simp_all
  have "sint v \<noteq> - (2 ^ 63)"
  proof
    assume "sint v = - (2 ^ 63)"
    then have "word_of_int (sint v) = (word_of_int (- (2 ^ 63)) :: u64)" by simp
    then have "v = word_of_int (- (2 ^ 63))" by simp
    then show False using v by simp
  qed
  then show ?thesis using b by linarith
qed

lemma va_int_bound: "\<bar>va_int v\<bar> < 2 ^ 63"
  using sint_ge [of "ucast v :: u32"] sint_lt [of "ucast v :: u32"] by (simp add: va_int_def abs_less_iff)

lemma signed_digits:
  assumes "\<bar>v\<bar> < 2 ^ 63"
  shows "(let (sign, v) = (if v < 0 then (''-'', wrap64 (- v)) else ('''', v)) in sign @ rev (digit_loop 23 v)) = decimal v"
  using assms wrap64_id [of "- v"] digit_loop_inbase [of "- v" 23] digit_loop_inbase [of v 23] by (auto simp: decimal_def)

lemma unsigned_digits: "unat (v :: u64) < 10 ^ Suc 23" "unat v < 16 ^ Suc 23" "va_uint v < 10 ^ Suc 23" "va_uint v < 16 ^ Suc 23"
proof -
  have "unat v < 2 ^ 64" "va_uint v < 2 ^ 32" using unat_u64_less [of v] unat_u32_less [of "ucast v"] by (simp_all add: va_uint_def del: unat_u64_less' unat_u32_less)
  moreover have "(2 :: nat) ^ 64 \<le> 10 ^ Suc 23" "(2 :: nat) ^ 64 \<le> 16 ^ Suc 23" "(2 :: nat) ^ 32 \<le> 10 ^ Suc 23" "(2 :: nat) ^ 32 \<le> 16 ^ Suc 23"
    by simp_all
  ultimately show "unat v < 10 ^ Suc 23" "unat v < 16 ^ Suc 23" "va_uint v < 10 ^ Suc 23" "va_uint v < 16 ^ Suc 23"
    by (meson less_le_trans)+
qed

lemma va_num_ok: "va_ok ap \<Longrightarrow> va_num ap = (v, r) \<Longrightarrow> v \<noteq> 0x8000000000000000 \<and> va_ok r"
  by (auto simp: va_num_def va_ok_def split: list.splits va.splits)

lemma va_str_ok: "va_ok ap \<Longrightarrow> va_ok (snd (va_str ap))"
  by (auto simp: va_str_def va_ok_def split: list.splits va.splits option.splits)

lemma mini_conv_spec:
  assumes "va_ok ap" "f \<in> set ''sduxc%''"
  shows "mini_conv l f ap = conv_spec l f ap" "va_ok (snd (conv_spec l f ap))"
proof -
  obtain v r where v: "va_num ap = (v, r)" by (cases "va_num ap")
  note ok = va_num_ok [OF assms(1) v]
  have s: "\<bar>if l then sint v else va_int v\<bar> < 2 ^ 63" using sint_u64_bound va_int_bound ok by simp
  have u: "rev (udigit_loop 10 23 (if l then unat v else va_uint v)) = inbase 10 (if l then unat v else va_uint v)"
    "rev (udigit_loop 16 23 (if l then unat v else va_uint v)) = inbase 16 (if l then unat v else va_uint v)"
    using unsigned_digits [of v] by (auto intro!: udigit_loop_inbase simp del: power_Suc)
  have d: "f \<noteq> CHR ''%'' \<Longrightarrow> f \<noteq> CHR ''c'' \<Longrightarrow> f \<noteq> CHR ''x'' \<Longrightarrow> f \<noteq> CHR ''u'' \<Longrightarrow> f \<noteq> CHR ''s'' \<Longrightarrow> f = CHR ''d''"
    using assms(2) by auto
  show "mini_conv l f ap = conv_spec l f ap"
    unfolding mini_conv_def conv_spec_def v Let_def prod.case u
    using signed_digits [OF s] assms(2) by (auto simp: Let_def split: prod.splits)
  show "va_ok (snd (conv_spec l f ap))" using ok va_str_ok [OF assms(1)] assms(1) by (simp add: conv_spec_def v)
qed

lemma take_clip: "take n (take n xs @ ys) = take n (xs @ ys)"
  by (cases "n \<le> length xs") simp_all

lemma piece_text_scan:
  assumes "piece_ok (Conv l f)"
  shows "dropWhile is_l ((if l then ''l'' else '''') @ f # r) = f # r" "(takeWhile is_l ((if l then ''l'' else '''') @ f # r) \<noteq> []) = l"
  using assms by (auto simp: piece_ok_def)

lemma vsn_loop_spec:
  assumes "\<forall>p \<in> set ps. piece_ok p" "va_ok ap" "length out < cap"
  shows "vsn_loop cap (concat (map piece_text ps)) ap out = take (cap - 1) (out @ pieces_spec ps ap)"
  using assms
proof (induction ps arbitrary: ap out)
  case (Cons p ps)
  show ?case
  proof (cases p)
    case (Lit c)
    have "length (fmt_put cap c out) < cap" "fmt_put cap c out = take (cap - 1) (out @ [c])"
      using Cons.prems(3) fold_fmt_put [of out cap "[c]"] by (auto simp: fmt_put_def)
    moreover from this have "vsn_loop cap (concat (map piece_text ps)) ap (fmt_put cap c out) = take (cap - 1) (fmt_put cap c out @ pieces_spec ps ap)"
      using Cons.prems by (intro Cons.IH) auto
    moreover have "c \<noteq> CHR ''%''" using Cons.prems(1) Lit by (simp add: piece_ok_def)
    ultimately show ?thesis using Lit take_clip [of "cap - 1" "out @ [c]" "pieces_spec ps ap"] by (simp del: take_append)
  next
    case (Conv l f)
    have ok: "piece_ok (Conv l f)" "f \<in> set ''sduxc%''" using Cons.prems(1) Conv by (auto simp: piece_ok_def)
    obtain t r where t: "conv_spec l f ap = (t, r)" by (cases "conv_spec l f ap")
    note mc = mini_conv_spec [OF Cons.prems(2) ok(2), of l]
    have "vsn_loop cap (concat (map piece_text (p # ps))) ap out =
        vsn_loop cap (concat (map piece_text ps)) r (fold (fmt_put cap) t out)"
      using piece_text_scan [OF ok(1)] mc(1) t Conv by simp
    also have "\<dots> = take (cap - 1) (take (cap - 1) (out @ t) @ pieces_spec ps r)"
      unfolding fold_fmt_put [OF Cons.prems(3)] using Cons.prems mc(2) t by (intro Cons.IH) auto
    also have "\<dots> = take (cap - 1) (out @ pieces_spec (p # ps) ap)"
      using Conv t by (simp add: take_clip del: take_append)
    finally show ?thesis .
  qed
qed simp

subsection \<open>Properties\<close>

text \<open>
  (C30) The bounded formatter: for any format made of literal characters and the conversions \<open>s d u x c %\<close>, with or
  without \<open>l\<close>, the buffer gets the first \<open>cap - 1\<close> characters of the text in which every number is its decimal or
  hexadecimal numeral, so that with its terminator it never exceeds the capacity.
\<close>

theorem snprintf_correct:
  assumes "\<forall>p \<in> set ps. piece_ok p" "va_ok ap" "0 < cap"
  shows "snd (snprintf cap (concat (map piece_text ps)) ap) = take (cap - 1) (pieces_spec ps ap) \<and>
    length (snd (snprintf cap (concat (map piece_text ps)) ap)) < cap"
  using vsn_loop_spec [OF assms(1,2), of "[]" cap] assms(3) by (auto simp: snprintf_def vsnprintf_mini_def Let_def)

theorem snprintf_correct_witness:
  "snd (snprintf 8 ''a%d%lx'' [VA_num 0xFFFFFFFFFFFFFFFE, VA_num 255]) = ''a-2ff''"
proof -
  have "snd (snprintf 8 (concat (map piece_text [Lit (CHR ''a''), Conv False (CHR ''d''), Conv True (CHR ''x'')])) [VA_num 0xFFFFFFFFFFFFFFFE, VA_num 255]) =
      take 7 (pieces_spec [Lit (CHR ''a''), Conv False (CHR ''d''), Conv True (CHR ''x'')] [VA_num 0xFFFFFFFFFFFFFFFE, VA_num 255])"
    using snprintf_correct [of "[Lit (CHR ''a''), Conv False (CHR ''d''), Conv True (CHR ''x'')]" "[VA_num 0xFFFFFFFFFFFFFFFE, VA_num 255]" 8]
    by (auto simp: piece_ok_def va_ok_def)
  then show ?thesis by (simp add: conv_spec_def va_num_def va_int_def decimal_def inbase.simps xdigit_def)
qed

end
