(* ===== verification/Net.thy ===== *)
theory Net
  imports Kprintf Vfs
begin

text \<open>
  The network device, \<open>kernel/src/drivers/net/net.c\<close>: ARP, the IPv4 and ICMP frames of an echo exchange with
  their checksums, the strict parser of dotted addresses and the command protocol of \<open>/dev/net\<close>.  The network card
  is the environment: whether it is present, its address, whether the next transmissions succeed and what the next
  polls return; what was sent is recorded.  Frames are lists of bytes.
\<close>

subsection \<open>Frames\<close>

abbreviation ETHERTYPE_IPV4 :: u16 where "ETHERTYPE_IPV4 \<equiv> 0x0800"
abbreviation ETHERTYPE_ARP :: u16 where "ETHERTYPE_ARP \<equiv> 0x0806"
abbreviation PING_ID :: u16 where "PING_ID \<equiv> 0x4D58"
abbreviation PING_PAYLOAD :: nat where "PING_PAYLOAD \<equiv> 24"
abbreviation NET_RX_EXTRA_LIMIT :: nat where "NET_RX_EXTRA_LIMIT \<equiv> 64"
abbreviation WAIT_LOOPS :: nat where "WAIT_LOOPS \<equiv> 30000000"
abbreviation POLL_SPIN_BURST :: nat where "POLL_SPIN_BURST \<equiv> 256"

definition be16 :: "u16 \<Rightarrow> u16" where
  "be16 v = push_bit 8 v OR drop_bit 8 v"

text \<open>The two bytes of a stored 16-bit field.\<close>

definition field16 :: "u16 \<Rightarrow> u8 list" where
  "field16 v = [ucast v, ucast (drop_bit 8 v)]"

definition get16 :: "u8 list \<Rightarrow> nat \<Rightarrow> u16" where
  "get16 f i = push_bit 8 (ucast (f ! i)) OR ucast (f ! (i + 1))"

definition ethertype_of :: "u8 list \<Rightarrow> u16" where
  "ethertype_of f = get16 f 12"

definition octets_from_ip :: "u32 \<Rightarrow> u8 list" where
  "octets_from_ip ip = [ucast (drop_bit 24 ip), ucast (drop_bit 16 ip), ucast (drop_bit 8 ip), ucast ip]"

fun sum16 :: "u8 list \<Rightarrow> u32" where
  "sum16 (a # b # r) = (push_bit 8 (ucast a) OR ucast b) + sum16 r"
| "sum16 [a] = push_bit 8 (ucast a)"
| "sum16 [] = 0"

lemma fold16_less: "drop_bit 16 (s :: u32) \<noteq> 0 \<Longrightarrow> unat ((s AND 0xFFFF) + drop_bit 16 s) < unat s"
proof -
  assume h: "drop_bit 16 s \<noteq> 0"
  have a: "unat (s AND 0xFFFF) = unat s mod 65536"
  proof -
    have "s AND 0xFFFF = take_bit 16 s" by (simp add: take_bit_eq_mask mask_eq_exp_minus_1)
    then show ?thesis by (simp add: take_bit_eq_mod unat_mod)
  qed
  have d: "unat (drop_bit 16 s) = unat s div 65536" by (simp add: drop_bit_eq_div unat_div)
  have lt: "unat s < 2 ^ 32" by (rule unat_u32_less)
  have "0 < unat s div 65536" using h d by (metis neq0_conv unat_eq_0)
  moreover have "unat ((s AND 0xFFFF) + drop_bit 16 s) = unat s mod 65536 + unat s div 65536"
    using a d lt by (subst unat_word_ariths) (simp add: div_less_mono)
  moreover have "unat s = unat s div 65536 * 65536 + unat s mod 65536" by simp
  ultimately show ?thesis by linarith
qed

function fold16 :: "u32 \<Rightarrow> u32" where
  "fold16 s = (if drop_bit 16 s \<noteq> 0 then fold16 ((s AND 0xFFFF) + drop_bit 16 s) else s)"
  by pat_completeness auto
termination by (relation "measure unat") (auto intro: fold16_less)

declare fold16.simps [simp del]

definition ip_checksum :: "u8 list \<Rightarrow> u16" where
  "ip_checksum p = ucast (NOT (fold16 (sum16 p)) AND 0xFFFF)"

definition mac_valid :: "u8 list \<Rightarrow> bool" where
  "mac_valid m \<longleftrightarrow> \<not> (\<forall>i < 6. m ! i = 0) \<and> \<not> (\<forall>i < 6. m ! i = 0xFF)"

definition ip_eq :: "u32 \<Rightarrow> u8 list \<Rightarrow> bool" where
  "ip_eq a b \<longleftrightarrow> take 4 b = octets_from_ip a"

definition at_off :: "u8 list \<Rightarrow> nat \<Rightarrow> nat \<Rightarrow> u8 list" where
  "at_off f i n = take n (drop i f)"

subsection \<open>The card and the device state\<close>

record nic =
  nic_present :: bool
  nic_mac :: "u8 list"
  tx_ok :: "bool list"
  rx :: "u8 list option list"
  sent :: "u8 list list"

definition e1000_send :: "u8 list \<Rightarrow> nic \<Rightarrow> bool \<times> nic" where
  "e1000_send f n = (case tx_ok n of [] \<Rightarrow> (False, n) | b # bs \<Rightarrow> (b, n\<lparr>tx_ok := bs, sent := if b then sent n @ [f] else sent n\<rparr>))"

text \<open>A poll gives an error, nothing, or a frame.\<close>

definition e1000_poll :: "nic \<Rightarrow> u8 list option \<times> nic" where
  "e1000_poll n = (case rx n of [] \<Rightarrow> (Some [], n) | f # r \<Rightarrow> (f, n\<lparr>rx := r\<rparr>))"

datatype net_cmd = CMD_NONE | CMD_PING | CMD_STATUS
datatype res_state = RES_NONE | RES_PENDING | RES_READY
datatype res_status = RES_OK | RES_NETDOWN | RES_BADADDR | RES_ARPTIMEOUT | RES_TXFAIL | RES_TIMEOUT

record net =
  inited :: bool
  net_ip :: u32
  gw :: u32
  netmask :: u32
  open_owner :: u32
  seq_next :: u16
  cmd :: net_cmd
  cmd_seq :: u32
  result_state :: res_state
  result_status :: res_status
  result_addr :: u32
  result_off :: nat
  result_buf :: string

subsection \<open>ARP\<close>

definition arp_build_request :: "u8 list \<Rightarrow> u32 \<Rightarrow> u32 \<Rightarrow> u8 list" where
  "arp_build_request my ip target =
     replicate 6 0xFF @ my @ field16 (be16 ETHERTYPE_ARP) @ field16 (be16 1) @ field16 (be16 ETHERTYPE_IPV4) @ [6, 4] @
     field16 (be16 1) @ my @ octets_from_ip ip @ replicate 6 0 @ octets_from_ip target @ replicate 18 0"

definition arp_field_ok :: "u8 list \<Rightarrow> bool" where
  "arp_field_ok f \<longleftrightarrow> length f \<ge> 42 \<and> ethertype_of f = ETHERTYPE_ARP \<and> get16 f 14 = 1 \<and> get16 f 16 = ETHERTYPE_IPV4 \<and>
     f ! 18 = 6 \<and> f ! 19 = 4 \<and> get16 f 20 = 2"

definition arp_reply_ok :: "u8 list \<Rightarrow> u32 \<Rightarrow> u8 list \<Rightarrow> u32 \<Rightarrow> bool" where
  "arp_reply_ok my ip f query \<longleftrightarrow> arp_field_ok f \<and> mac_valid (drop 22 f) \<and> f ! 22 AND 1 = 0 \<and>
     at_off f 6 6 = at_off f 22 6 \<and> take 6 f = my \<and> ip_eq query (drop 28 f) \<and> at_off f 32 6 = my \<and> ip_eq ip (drop 38 f)"

datatype wait = W_Frame "u8 list" | W_Error | W_Timeout

text \<open>The polling loop that both exchanges have: an accepted frame, a card error, or giving up.\<close>

function wait_frame :: "(u8 list \<Rightarrow> bool) \<Rightarrow> nat \<Rightarrow> nat \<Rightarrow> nic \<Rightarrow> wait \<times> nic" where
  "wait_frame ok spins extra n =
     (if spins \<ge> WAIT_LOOPS then (W_Timeout, n)
      else case e1000_poll n of
             (None, n) \<Rightarrow> (W_Error, n)
           | (Some f, n) \<Rightarrow>
               if f \<noteq> []
               then if ok f then (W_Frame f, n)
                    else if extra + 1 > NET_RX_EXTRA_LIMIT then (W_Timeout, n) else wait_frame ok spins (extra + 1) n
               else wait_frame ok (spins + POLL_SPIN_BURST) extra n)"
  by pat_completeness auto
termination
  by (relation "measure (\<lambda>(ok, spins, extra, n). (WAIT_LOOPS - spins) + (NET_RX_EXTRA_LIMIT - extra))") auto

declare wait_frame.simps [simp del]

primrec arp_attempts :: "nat \<Rightarrow> int \<Rightarrow> u32 \<Rightarrow> u32 \<Rightarrow> nic \<Rightarrow> int \<times> u8 list \<times> nic" where
  "arp_attempts 0 rc ip target n = (rc, [], n)"
| "arp_attempts (Suc k) rc ip target n =
     (let (sent, n) = e1000_send (arp_build_request (nic_mac n) ip target) n
      in if \<not> sent then arp_attempts k (-1) ip target n
         else case wait_frame (\<lambda>r. arp_reply_ok (nic_mac n) ip r target) 0 0 n of
                (W_Frame r, n) \<Rightarrow> (0, at_off r 22 6, n)
              | (W_Error, n) \<Rightarrow> (-1, [], n)
              | (W_Timeout, n) \<Rightarrow> arp_attempts k rc ip target n)"

definition arp_exchange :: "u32 \<Rightarrow> u32 \<Rightarrow> nic \<Rightarrow> int \<times> u8 list \<times> nic" where
  "arp_exchange ip target n = arp_attempts 3 (-2) ip target n"

subsection \<open>ICMP echo\<close>

definition ping_payload :: "u8 list" where
  "ping_payload = map (\<lambda>i. 65 + of_nat (i mod 26)) [0 ..< PING_PAYLOAD]"

definition icmp_build_echo :: "u16 \<Rightarrow> u8 list" where
  "icmp_build_echo sq =
     (let icmp = [8, 0, 0, 0, ucast (drop_bit 8 PING_ID), ucast PING_ID, ucast (drop_bit 8 sq), ucast sq] @ ping_payload;
          csum = ip_checksum icmp
      in icmp[2 := ucast (drop_bit 8 csum), 3 := ucast csum])"

definition ipv4_header :: "u32 \<Rightarrow> u32 \<Rightarrow> u16 \<Rightarrow> u16 \<Rightarrow> u8 list" where
  "ipv4_header src dst sq csum =
     [0x45, 0] @ field16 (be16 52) @ field16 (be16 sq) @ field16 (be16 0x4000) @ [64, 1] @ field16 csum @
     octets_from_ip src @ octets_from_ip dst"

definition ipv4_build_echo_frame :: "u8 list \<Rightarrow> u32 \<Rightarrow> u8 list \<Rightarrow> u32 \<Rightarrow> u16 \<Rightarrow> u8 list" where
  "ipv4_build_echo_frame my ip dmac dst sq =
     dmac @ my @ field16 (be16 ETHERTYPE_IPV4) @
     ipv4_header ip dst sq (be16 (ip_checksum (ipv4_header ip dst sq 0))) @ icmp_build_echo sq"

definition ipv4_reply_ok :: "u8 list \<Rightarrow> u32 \<Rightarrow> u8 list \<Rightarrow> u32 \<Rightarrow> u16 \<Rightarrow> bool \<Rightarrow> bool" where
  "ipv4_reply_ok my ip f peer sq check_payload \<longleftrightarrow>
     length f \<ge> 42 \<and> ethertype_of f = ETHERTYPE_IPV4 \<and>
     (let p = drop 14 f; total = get16 p 2; frag = get16 p 6; icmp = drop 20 p
      in p ! 0 = 0x45 \<and> p ! 9 = 1 \<and> total \<ge> 28 \<and> unat total \<le> length f - 14 \<and> total = 52 \<and>
         frag AND 0x1FFF = 0 \<and> frag AND 0x2000 = 0 \<and> ip_checksum (take 20 p) = 0 \<and>
         ip_eq peer (drop 12 p) \<and> ip_eq ip (drop 16 p) \<and>
         icmp ! 0 = 0 \<and> icmp ! 1 = 0 \<and> icmp ! 4 = ucast (drop_bit 8 PING_ID) \<and> icmp ! 5 = ucast PING_ID \<and>
         get16 icmp 6 = sq \<and> ip_checksum (take 32 icmp) = 0 \<and>
         (check_payload \<longrightarrow> at_off icmp 8 PING_PAYLOAD = ping_payload)) \<and>
     take 6 f = my \<and> mac_valid (drop 6 f)"

primrec ping_attempts :: "nat \<Rightarrow> u8 list \<Rightarrow> u32 \<Rightarrow> u32 \<Rightarrow> u16 \<Rightarrow> nic \<Rightarrow> res_status \<times> nic" where
  "ping_attempts 0 dmac ip dst sq n = (RES_TIMEOUT, n)"
| "ping_attempts (Suc k) dmac ip dst sq n =
     (let (sent, n) = e1000_send (ipv4_build_echo_frame (nic_mac n) ip dmac dst sq) n
      in if \<not> sent then (RES_TXFAIL, n)
         else case wait_frame (\<lambda>r. ipv4_reply_ok (nic_mac n) ip r dst sq False) 0 0 n of
                (W_Frame r, n) \<Rightarrow> (RES_OK, n)
              | (W_Error, n) \<Rightarrow> (RES_TXFAIL, n)
              | (W_Timeout, n) \<Rightarrow> ping_attempts k dmac ip dst sq n)"

text \<open>The status, which is \<open>RES_OK\<close> exactly when the C function returns true, and the sequence number used.\<close>

definition cmd_ping_run :: "u32 \<Rightarrow> net \<Rightarrow> nic \<Rightarrow> res_status \<times> u16 \<times> net \<times> nic" where
  "cmd_ping_run dst s n =
     (if \<not> nic_present n then (RES_NETDOWN, 0, s, n)
      else let (rc, dmac, n) = arp_exchange (net_ip s) dst n
           in if rc \<noteq> 0 then (RES_ARPTIMEOUT, 0, s, n)
              else let sq = (if seq_next s = 0 then 1 else seq_next s); s = s\<lparr>seq_next := sq + 1\<rparr>;
                       (st, n) = ping_attempts 3 dmac (net_ip s) dst sq n
                   in (st, if st = RES_OK then sq else 0, s, n))"

subsection \<open>Text\<close>

definition ip_args :: "u32 \<Rightarrow> va list" where
  "ip_args ip = map (\<lambda>b. VA_num (ucast b)) (octets_from_ip ip)"

definition cmd_status_render :: "nat \<Rightarrow> net \<Rightarrow> nic \<Rightarrow> string" where
  "cmd_status_render cap s n =
     snd (snprintf cap
       (''net: %s'' @ [CHR 0x0A] @ ''ip %u.%u.%u.%u/%u.%u.%u.%u gw %u.%u.%u.%u'' @ [CHR 0x0A] @ ''mac %x:%x:%x:%x:%x:%x'' @ [CHR 0x0A] @
        ''link %s static (no DHCP)'' @ [CHR 0x0A])
       ([VA_str (Some (if inited s then ''up'' else ''down''))] @ ip_args (net_ip s) @ ip_args (netmask s) @ ip_args (gw s) @
        map (\<lambda>i. VA_num (ucast (nic_mac n ! i))) [0, 1, 2, 3, 4, 5] @
        [VA_str (Some (if nic_present n then ''present'' else ''absent''))]))"

text \<open>The scan of a dotted address from a non-empty rest, with the octets before it.\<close>

fun parse_octets :: "string \<Rightarrow> nat \<Rightarrow> nat \<Rightarrow> nat list \<Rightarrow> nat list option" where
  "parse_octets [] val digits octs = None"
| "parse_octets (c # r) val digits octs =
     (if is_digit c
      then let val = val * 10 + (of_char c - 48)
           in if digits + 1 > 3 then None
              else if val > 255 then None
              else if r \<noteq> [] then parse_octets r val (digits + 1) octs
              else if length octs \<noteq> 3 then None
              else Some (octs @ [val])
      else if c = CHR ''.'' \<and> length octs < 3 \<and> digits > 0
      then if r = [] then None else parse_octets r 0 0 (octs @ [val])
      else None)"

definition ip_of_octets :: "nat list \<Rightarrow> u32" where
  "ip_of_octets os = push_bit 24 (of_nat (os ! 0)) OR push_bit 16 (of_nat (os ! 1)) OR push_bit 8 (of_nat (os ! 2)) OR of_nat (os ! 3)"

definition parse_ipv4_strict :: "string \<Rightarrow> u32 option" where
  "parse_ipv4_strict s =
     (if length s = 0 \<or> length s > 15 then None else map_option ip_of_octets (parse_octets s 0 0 []))"

subsection \<open>The device protocol\<close>

definition strip_eol :: "string \<Rightarrow> string" where
  "strip_eol b = rev (dropWhile (\<lambda>c. c = CHR 0x0A \<or> c = CHR 0x0D) (rev b))"

text \<open>The calling task is given by its process id, if there is one.\<close>

definition netdev_write :: "int option \<Rightarrow> string \<Rightarrow> nic \<Rightarrow> net \<Rightarrow> int \<times> net" where
  "netdev_write cur buf n s =
     (if buf = [] then (-1, s)
      else if \<not> inited s \<or> \<not> nic_present n then (-1, s)
      else if cmd s \<noteq> CMD_NONE \<and> result_state s = RES_PENDING
      then (if cur = None \<or> open_owner s \<noteq> of_int (the cur) then (-1, s) else (0, s))
      else let buf = strip_eol buf
           in if buf = ''status''
              then (case cur of
                      None \<Rightarrow> (-1, s)
                    | Some p \<Rightarrow>
                        if result_state s = RES_PENDING \<and> open_owner s \<noteq> of_int p then (-1, s)
                        else (int (length buf), s\<lparr>open_owner := of_int p, cmd := CMD_STATUS, cmd_seq := cmd_seq s + 1,
                                result_state := RES_PENDING, result_status := RES_OK\<rparr>))
              else if length buf > 5 \<and> take 5 buf = ''ping ''
              then (case parse_ipv4_strict (drop 5 buf) of
                      None \<Rightarrow> (-1, s)
                    | Some ip \<Rightarrow>
                        (case cur of
                           None \<Rightarrow> (-1, s)
                         | Some p \<Rightarrow>
                             if result_state s = RES_PENDING \<and> open_owner s \<noteq> of_int p then (-1, s)
                             else (int (length buf), s\<lparr>open_owner := of_int p, cmd := CMD_PING, cmd_seq := cmd_seq s + 1,
                                     result_state := RES_PENDING, result_addr := ip\<rparr>)))
              else (-1, s))"

definition ping_line :: "res_status \<Rightarrow> u16 \<Rightarrow> u32 \<Rightarrow> string" where
  "ping_line st sq addr =
     snd (case st of
        RES_OK \<Rightarrow> snprintf 192 (''reply from %u.%u.%u.%u seq=%u'' @ [CHR 0x0A]) (ip_args addr @ [VA_num (ucast sq)])
      | RES_NETDOWN \<Rightarrow> snprintf 192 (''net down'' @ [CHR 0x0A]) []
      | RES_BADADDR \<Rightarrow> snprintf 192 (''bad address'' @ [CHR 0x0A]) []
      | RES_ARPTIMEOUT \<Rightarrow> snprintf 192 (''no arp reply from %u.%u.%u.%u'' @ [CHR 0x0A]) (ip_args addr)
      | RES_TXFAIL \<Rightarrow> snprintf 192 (''tx error'' @ [CHR 0x0A]) []
      | RES_TIMEOUT \<Rightarrow> snprintf 192 (''timeout %u.%u.%u.%u'' @ [CHR 0x0A]) (ip_args addr))"

text \<open>Storing a finished result and handing out its first part.\<close>

definition deliver :: "string \<Rightarrow> nat \<Rightarrow> net \<Rightarrow> int \<times> string \<times> net" where
  "deliver line sz s =
     (let s = s\<lparr>cmd := CMD_NONE\<rparr>
      in if 192 < length line + 1 then (-1, [], s)
         else let out = take sz line
              in (int (length out), out, s\<lparr>result_buf := line, result_state := RES_READY, result_off := length out\<rparr>))"

definition netdev_read :: "int option \<Rightarrow> nat \<Rightarrow> net \<Rightarrow> nic \<Rightarrow> int \<times> string \<times> net \<times> nic" where
  "netdev_read cur sz s n =
     (if sz = 0 then (-1, [], s, n)
      else if \<not> inited s then (-1, [], s, n)
      else if cur = None \<or> open_owner s \<noteq> of_int (the cur) then (-1, [], s, n)
      else if result_state s = RES_READY
      then if result_off s \<ge> length (result_buf s)
           then (0, [], s\<lparr>result_state := RES_NONE, cmd := CMD_NONE, result_off := 0, result_buf := []\<rparr>, n)
           else let out = take sz (drop (result_off s) (result_buf s))
                in (int (length out), out, s\<lparr>result_off := result_off s + length out\<rparr>, n)
      else if result_state s \<noteq> RES_PENDING \<or> cmd s = CMD_NONE then (0, [], s, n)
      else if cmd s = CMD_STATUS
      then let (r, out, s) = deliver (cmd_status_render 192 s n) sz s
           in (r, out, if r < 0 then s else s\<lparr>result_status := RES_OK\<rparr>, n)
      else let (st, sq, s, n) = cmd_ping_run (result_addr s) s n;
               s = (if st = RES_OK then s\<lparr>result_status := RES_OK\<rparr> else s);
               (r, out, s) = deliver (ping_line st sq (result_addr s)) sz s
           in (r, out, s, n))"

definition net_init :: "(int \<Rightarrow> bool) \<Rightarrow> nic \<Rightarrow> vfs \<Rightarrow> int \<times> net \<times> vfs" where
  "net_init alive n v =
     (let s = \<lparr>inited = False, net_ip = 0x0A00020F, gw = 0x0A000202, netmask = 0xFFFFFF00, open_owner = 0, seq_next = 1,
                cmd = CMD_NONE, cmd_seq = 0, result_state = RES_NONE, result_status = RES_OK, result_addr = 0,
                result_off = 0, result_buf = []\<rparr>
      in if nic_present n then (0, s\<lparr>inited := True\<rparr>, vfs_mount_dev alive ''net'' Dev_net v) else (-1, s, v))"

definition net_ready :: "net \<Rightarrow> nic \<Rightarrow> bool" where
  "net_ready s n \<longleftrightarrow> inited s \<and> nic_present n"

definition net_ping :: "u32 \<Rightarrow> net \<Rightarrow> nic \<Rightarrow> int \<times> net \<times> nic" where
  "net_ping ip s n =
     (if \<not> net_ready s n then (-1, s, n)
      else let (st, sq, s, n) = cmd_ping_run ip s n
           in (case st of RES_OK \<Rightarrow> 0 | RES_NETDOWN \<Rightarrow> -1 | RES_ARPTIMEOUT \<Rightarrow> -3 | RES_TXFAIL \<Rightarrow> -4 | _ \<Rightarrow> -5, s, n))"

definition net_arp_resolve :: "u32 \<Rightarrow> net \<Rightarrow> nic \<Rightarrow> bool \<times> u8 list \<times> nic" where
  "net_arp_resolve ip s n =
     (if \<not> net_ready s n then (False, [], n)
      else let (rc, mac, n) = arp_exchange (net_ip s) ip n in (rc = 0, mac, n))"

primrec drain_rx :: "nat \<Rightarrow> nic \<Rightarrow> nic" where
  "drain_rx 0 n = n"
| "drain_rx (Suc i) n = (let (f, n) = e1000_poll n in if f = None \<or> f = Some [] then n else drain_rx i n)"

definition net_poll :: "net \<Rightarrow> nic \<Rightarrow> nic" where
  "net_poll s n = (if \<not> net_ready s n then n else drain_rx 8 n)"

definition net_status :: "nat \<Rightarrow> net \<Rightarrow> nic \<Rightarrow> string" where
  "net_status cap s n = (if cap = 0 then [] else cmd_status_render cap s n)"

subsection \<open>Checksums\<close>

lemma field16_be16: "field16 (be16 v) = [ucast (drop_bit 8 v), ucast v]"
proof -
  have "ucast (push_bit 8 v OR drop_bit 8 v) = (ucast (drop_bit 8 v) :: u8)" "ucast (drop_bit 8 (push_bit 8 v OR drop_bit 8 v)) = (ucast v :: u8)"
    by (rule bit_word_eqI; auto simp: bit_simps)+
  then show ?thesis by (simp add: field16_def be16_def)
qed

lemma get16_bytes: "push_bit 8 (ucast (ucast (drop_bit 8 v) :: u8)) OR ucast (ucast v :: u8) = (v :: u16)"
  by (rule bit_word_eqI) (auto simp: bit_simps)

fun wsum :: "u8 list \<Rightarrow> nat" where
  "wsum (a # b # r) = 256 * unat a + unat b + wsum r"
| "wsum [a] = 256 * unat a"
| "wsum [] = 0"

lemma byte_pair: "256 * unat a + unat b \<le> 65535" for a b :: u8
  using unat_u8_less [of a] unat_u8_less [of b] by linarith

lemma pair_word: "unat (push_bit 8 (ucast a) OR ucast b :: u32) = 256 * unat a + unat b" for a b :: u8
proof -
  have "push_bit 8 (ucast a) OR ucast b = (push_bit 8 (ucast a) + ucast b :: u32)"
    by (rule disjunctive_add [symmetric]) (auto simp: bit_simps dest: bit_imp_le_length)
  moreover have u: "unat (ucast x :: u32) = unat x" for x :: u8
    using unat_u8_less [of x] by (simp add: unsigned_ucast_eq take_bit_nat_eq_self del: unat_u8_less)
  moreover have "unat (push_bit 8 (ucast a) :: u32) = 256 * unat a" using byte_pair [of a 0] u [of a]
    by (simp add: push_bit_eq_mult unat_word_ariths)
  ultimately show ?thesis using byte_pair [of a b] by (simp add: unat_word_ariths)
qed

lemma wsum_le: "wsum p \<le> 65535 * ((length p + 1) div 2)"
proof (induction p rule: wsum.induct)
  case (1 a b r)
  then show ?case using byte_pair [of a b] by simp
next
  case (2 a)
  then show ?case using byte_pair [of a 0] by simp
qed simp

lemma sum16_wsum: "length p \<le> 2000 \<Longrightarrow> unat (sum16 p) = wsum p"
proof (induction p rule: wsum.induct)
  case (1 a b r)
  have "wsum r \<le> 65535 * 1001" using wsum_le [of r] 1(2) by (simp add: order_trans [OF wsum_le])
  then show ?case using 1 byte_pair [of a b] by (simp add: unat_word_ariths pair_word)
next
  case (2 a)
  then show ?case using pair_word [of a 0] by simp
qed simp

lemma fold16_value: "unat (fold16 s) = (if unat s = 0 then 0 else if unat s mod 65535 = 0 then 65535 else unat s mod 65535)"
proof (induction s rule: fold16.induct)
  case (1 s)
  let ?t = "(s AND 0xFFFF) + drop_bit 16 s"
  have d: "unat (drop_bit 16 s) = unat s div 65536" by (simp add: drop_bit_eq_div unat_div)
  show ?case
  proof (cases "drop_bit 16 s = 0")
    case True
    then have "unat s < 65536" using d by (simp add: div_eq_0_iff)
    then show ?thesis using True by (subst fold16.simps) (auto simp: mod_if)
  next
    case False
    have "s AND 0xFFFF = take_bit 16 s" by (simp add: take_bit_eq_mask mask_eq_exp_minus_1)
    then have a: "unat (s AND 0xFFFF) = unat s mod 65536" by (simp add: take_bit_eq_mod unat_mod)
    have t: "unat ?t = unat s mod 65536 + unat s div 65536"
      using a d unat_u32_less [of s] by (subst unat_word_ariths) (simp add: less_mult_imp_div_less del: unat_u32_less)
    have "0 < unat s div 65536" using False d by (metis neq0_conv unat_eq_0)
    then have pos: "unat s \<noteq> 0" "unat ?t \<noteq> 0" using t by auto
    have "unat s mod 65535 = unat ?t mod 65535"
    proof -
      have "unat s = unat s div 65536 * 65536 + unat s mod 65536" by simp
      then have "unat s = 65535 * (unat s div 65536) + unat ?t" unfolding t by linarith
      then have "unat s mod 65535 = (65535 * (unat s div 65536) + unat ?t) mod 65535" by (rule arg_cong)
      then show ?thesis by simp
    qed
    moreover have "fold16 s = fold16 ?t" using False by (subst fold16.simps) simp
    ultimately show ?thesis using 1 False pos by simp
  qed
qed

lemma ip_checksum_value:
  assumes "length p \<le> 2000"
  shows "unat (ip_checksum p) = 65535 - (if wsum p = 0 then 0 else if wsum p mod 65535 = 0 then 65535 else wsum p mod 65535)"
proof -
  let ?f = "fold16 (sum16 p)"
  have f: "unat ?f = (if wsum p = 0 then 0 else if wsum p mod 65535 = 0 then 65535 else wsum p mod 65535)"
    using fold16_value [of "sum16 p"] sum16_wsum [OF assms] by simp
  then have "unat ?f \<le> 65535" by (simp add: less_imp_le)
  then have le: "?f \<le> 0xFFFF" by (simp add: word_le_nat_alt)
  have "NOT ?f = - 1 - ?f" by (simp add: not_eq_complement)
  then have "NOT ?f AND 0xFFFF = take_bit 16 (- 1 - ?f)" by (simp add: take_bit_eq_mask mask_eq_exp_minus_1)
  moreover have "unat (- 1 - ?f) = 2 ^ 32 - 1 - unat ?f"
  proof -
    have "?f \<le> - 1" by simp
    then have "unat (- 1 - ?f) = unat (- 1 :: u32) - unat ?f" by (rule unat_sub)
    moreover have "unat (- 1 :: u32) = 2 ^ 32 - 1" by (simp add: unsigned_minus_1_eq_mask mask_eq_exp_minus_1)
    ultimately show ?thesis by (simp only:)
  qed
  ultimately have "unat (NOT ?f AND 0xFFFF) = (2 ^ 32 - 1 - unat ?f) mod 65536" by (simp add: take_bit_eq_mod unat_mod)
  also have "\<dots> = 65535 - unat ?f"
  proof -
    have "2 ^ 32 - 1 - unat ?f = 65536 * 65535 + (65535 - unat ?f)" using \<open>unat ?f \<le> 65535\<close> by simp
    then show ?thesis using \<open>unat ?f \<le> 65535\<close> by (simp only: mod_mult_self4) simp
  qed
  finally have "unat (ip_checksum p) = 65535 - unat ?f" by (simp add: ip_checksum_def unsigned_ucast_eq take_bit_eq_mod)
  then show ?thesis unfolding f .
qed

text \<open>Filling a zero checksum field at an even offset adds its value to the sum, and the block then verifies.\<close>

lemma wsum_field:
  "even i \<Longrightarrow> i + 1 < length p \<Longrightarrow> p ! i = 0 \<Longrightarrow> p ! (i + 1) = 0 \<Longrightarrow> wsum (p[i := a, i + 1 := b]) = wsum p + 256 * unat a + unat b"
proof (induction p arbitrary: i rule: wsum.induct)
  case (1 x y r)
  show ?case
  proof (cases "i = 0")
    case False
    then obtain j where j: "i = Suc (Suc j)" "even j" using 1(2) by (metis even_Suc not0_implies_Suc One_nat_def even_zero)
    then show ?thesis using 1 by simp
  qed (use 1 in simp)
qed auto

lemma checksum_verifies:
  assumes "even i" "i + 1 < length p" "p ! i = 0" "p ! (i + 1) = 0" "length p \<le> 2000"
  shows "ip_checksum (p[i := ucast (drop_bit 8 (ip_checksum p)), i + 1 := ucast (ip_checksum p)]) = 0" (is "ip_checksum ?q = 0")
proof -
  let ?c = "ip_checksum p"
  define F where "F = (if wsum p = 0 then 0 else if wsum p mod 65535 = 0 then 65535 else wsum p mod 65535)"
  have c: "unat ?c = 65535 - F" using ip_checksum_value [OF assms(5)] by (simp add: F_def)
  have F: "F \<le> 65535" "\<exists>m. wsum p = 65535 * m + F"
  proof -
    show "F \<le> 65535" by (simp add: F_def less_imp_le)
    show "\<exists>m. wsum p = 65535 * m + F"
    proof (cases "wsum p mod 65535 = 0")
      case True
      then obtain k where k: "wsum p = 65535 * k" by blast
      then show ?thesis by (cases k) (auto simp: F_def)
    next
      case False
      then have "F = wsum p mod 65535" by (auto simp: F_def)
      then have "wsum p = 65535 * (wsum p div 65535) + F" by simp
      then show ?thesis ..
    qed
  qed
  have "256 * unat (ucast (drop_bit 8 ?c) :: u8) + unat (ucast ?c :: u8) = unat ?c"
  proof -
    have "unat (ucast (drop_bit 8 ?c) :: u8) = unat ?c div 256"
      using unsigned_less [of ?c, where ?'a = nat] by (simp add: unsigned_ucast_eq drop_bit_eq_div unat_div take_bit_nat_eq_self less_mult_imp_div_less)
    moreover have "unat (ucast ?c :: u8) = unat ?c mod 256" by (simp add: unsigned_ucast_eq take_bit_eq_mod)
    ultimately show ?thesis by simp
  qed
  then have "wsum ?q = wsum p + unat ?c" using wsum_field [OF assms(1-4)] by simp
  then obtain m where "wsum ?q = 65535 * (m + 1)" using c F by auto
  then have "wsum ?q \<noteq> 0" "wsum ?q mod 65535 = 0" by simp_all
  then have "unat (ip_checksum ?q) = 0" using ip_checksum_value [of ?q] assms(5) by simp
  then show ?thesis by (simp add: unat_eq_0)
qed

subsection \<open>Echo exchanges\<close>

text \<open>What a host answers to an echo request that fits one frame (RFC 792): the addresses swapped, the type cleared and both
  checksums computed anew over the answer.\<close>

definition with_sum :: "nat \<Rightarrow> u8 list \<Rightarrow> u8 list" where
  "with_sum i p = (let z = p[i := 0, i + 1 := 0] in z[i := ucast (drop_bit 8 (ip_checksum z)), i + 1 := ucast (ip_checksum z)])"

definition echo_reply :: "u8 list \<Rightarrow> u8 list" where
  "echo_reply f =
     at_off f 6 6 @ at_off f 0 6 @ at_off f 12 2 @
     with_sum 10 (at_off f 14 12 @ at_off f 30 4 @ at_off f 26 4) @
     with_sum 2 (0 # drop 35 f)"

definition arp_answer :: "u8 list \<Rightarrow> u8 list \<Rightarrow> u8 list" where
  "arp_answer mac f =
     at_off f 6 6 @ mac @ at_off f 12 8 @ [0, 2] @ mac @ at_off f 38 4 @ at_off f 22 6 @ at_off f 28 4 @ drop 42 f"

lemma with_sum_verifies:
  "even i \<Longrightarrow> i + 1 < length p \<Longrightarrow> length p \<le> 2000 \<Longrightarrow> ip_checksum (with_sum i p) = 0"
  unfolding with_sum_def Let_def by (rule checksum_verifies) simp_all

lemma length_with_sum [simp]: "length (with_sum i p) = length p"
  by (simp add: with_sum_def Let_def)

lemma with_sum_nth: "j \<noteq> i \<Longrightarrow> j \<noteq> i + 1 \<Longrightarrow> with_sum i p ! j = p ! j"
  by (simp add: with_sum_def Let_def)

lemma with_sum_drop: "i + 2 \<le> k \<Longrightarrow> drop k (with_sum i p) = drop k p"
  by (simp add: with_sum_def Let_def drop_update_cancel)

lemma six: "length m = 6 \<Longrightarrow> \<exists>a b c d e g. m = [a, b, c, d, e, g]"
  by (simp add: numeral_eq_Suc length_Suc_conv) blast

lemma length_icmp [simp]: "length (icmp_build_echo sq) = 32"
  by (simp add: icmp_build_echo_def Let_def ping_payload_def)

lemma length_octets [simp]: "length (octets_from_ip a) = 4"
  by (simp add: octets_from_ip_def)

lemma at_off_append: "at_off (p @ q) i n = (if length p \<le> i then at_off q (i - length p) n else if i + n \<le> length p then at_off p i n else at_off (p @ q) i n)"
  by (simp add: at_off_def)

text \<open>A built request as the concatenation of its parts, the checksums left open.\<close>

lemma echo_frame_parts:
  "\<exists>c1 c2 i1 i2. ipv4_build_echo_frame my ip dmac dst sq =
     dmac @ my @ [8, 0] @ [0x45, 0, 0, 52, ucast (drop_bit 8 sq), ucast sq, 0x40, 0, 64, 1, c1, c2] @ octets_from_ip ip @ octets_from_ip dst @
     [8, 0, i1, i2, 0x4D, 0x58, ucast (drop_bit 8 sq), ucast sq] @ ping_payload"
  by (simp add: ipv4_build_echo_frame_def ipv4_header_def field16_be16 icmp_build_echo_def Let_def)

lemma echo_reply_parts:
  assumes "length my = 6" "length dmac = 6"
  shows "\<exists>c1 c2 i1 i2. echo_reply (ipv4_build_echo_frame my ip dmac dst sq) =
     my @ dmac @ [8, 0] @
     with_sum 10 ([0x45, 0, 0, 52, ucast (drop_bit 8 sq), ucast sq, 0x40, 0, 64, 1, c1, c2] @ octets_from_ip dst @ octets_from_ip ip) @
     with_sum 2 ([0, 0, i1, i2, 0x4D, 0x58, ucast (drop_bit 8 sq), ucast sq] @ ping_payload)"
proof -
  obtain c1 c2 i1 i2 where f: "ipv4_build_echo_frame my ip dmac dst sq =
     dmac @ my @ [8, 0] @ [0x45, 0, 0, 52, ucast (drop_bit 8 sq), ucast sq, 0x40, 0, 64, 1, c1, c2] @ octets_from_ip ip @ octets_from_ip dst @
     [8, 0, i1, i2, 0x4D, 0x58, ucast (drop_bit 8 sq), ucast sq] @ ping_payload"
    using echo_frame_parts by blast
  show ?thesis unfolding f by (rule exI [of _ c1], rule exI [of _ c2], rule exI [of _ i1], rule exI [of _ i2])
      (simp add: echo_reply_def at_off_def assms)
qed

lemma get16_pair: "f ! i = ucast (drop_bit 8 v) \<Longrightarrow> f ! (i + 1) = ucast v \<Longrightarrow> get16 f i = v" for v :: u16
  by (auto simp: get16_def bit_simps intro!: bit_word_eqI)

lemma ip_eq_append: "4 \<le> length b \<Longrightarrow> ip_eq a (b @ r) = ip_eq a b"
  by (simp add: ip_eq_def)

lemma mac_valid_append: "length m = 6 \<Longrightarrow> mac_valid (m @ r) = mac_valid m"
  by (simp add: mac_valid_def nth_append)

lemma echo_reply_ok:
  assumes "length my = 6" "length dmac = 6" "mac_valid dmac"
  shows "ipv4_reply_ok my ip (echo_reply (ipv4_build_echo_frame my ip dmac dst sq)) dst sq cp"
proof -
  obtain c1 c2 i1 i2 where f: "echo_reply (ipv4_build_echo_frame my ip dmac dst sq) =
     my @ dmac @ [8, 0] @
     with_sum 10 ([0x45, 0, 0, 52, ucast (drop_bit 8 sq), ucast sq, 0x40, 0, 64, 1, c1, c2] @ octets_from_ip dst @ octets_from_ip ip) @
     with_sum 2 ([0, 0, i1, i2, 0x4D, 0x58, ucast (drop_bit 8 sq), ucast sq] @ ping_payload)"
     (is "_ = my @ dmac @ [8, 0] @ ?h @ ?m")
    using echo_reply_parts [OF assms(1,2)] by blast
  have h: "length ?h = 20" "ip_checksum ?h = 0" by (simp_all add: with_sum_verifies)
  have m: "length ?m = 32" "ip_checksum ?m = 0" by (simp_all add: with_sum_verifies ping_payload_def)
  have hn: "?h ! 0 = 0x45" "?h ! 9 = 1" "get16 ?h 2 = 52" "get16 ?h 6 = 0x4000"
    by (simp_all add: with_sum_nth get16_def)
  have ha: "ip_eq dst (drop 12 ?h)" "ip_eq ip (drop 16 ?h)"
    by (simp_all add: with_sum_drop ip_eq_def)
  have mn: "?m ! 0 = 0" "?m ! 1 = 0" "?m ! 4 = 0x4D" "?m ! 5 = 0x58" "get16 ?m 6 = sq" "at_off ?m 8 24 = ping_payload"
    by (simp_all add: with_sum_nth with_sum_drop at_off_def get16_pair ping_payload_def)
  define H M where "H = ?h" and "M = ?m"
  have e: "ethertype_of (my @ dmac @ [8, 0] @ H @ M) = ETHERTYPE_IPV4" 
    using assms by (simp add: ethertype_of_def get16_def nth_append)
  have i: "get16 (H @ M) k = get16 H k" "(H @ M) ! k = H ! k" if "k + 1 < 20" for k
    using that h by (simp_all add: get16_def nth_append H_def)
  have dr: "drop 14 (my @ dmac @ [8, 0] @ H @ M) = H @ M" "drop 20 (H @ M) = M" "take 20 (H @ M) = H" "take 32 M = M"
    using assms h m by (simp_all add: H_def M_def)

  show ?thesis unfolding f ipv4_reply_ok_def Let_def H_def [symmetric] M_def [symmetric] dr
    using e h [folded H_def] m [folded M_def] hn [folded H_def] ha [folded H_def] mn [folded M_def] assms by (simp add: i ip_eq_append mac_valid_append)
qed

lemma arp_answer_ok:
  assumes "length my = 6" "length mac = 6" "mac_valid mac" "mac ! 0 AND 1 = 0"
  shows "arp_reply_ok my ip (arp_answer mac (arp_build_request my ip target)) target"
    "at_off (arp_answer mac (arp_build_request my ip target)) 22 6 = mac"
proof -
  have f: "arp_answer mac (arp_build_request my ip target) =
      my @ mac @ [8, 6, 0, 1, 8, 0, 6, 4, 0, 2] @ mac @ octets_from_ip target @ my @ octets_from_ip ip @ replicate 18 0" (is "_ = ?f")
    by (simp add: arp_answer_def arp_build_request_def field16_be16 at_off_def assms)
  have "arp_field_ok ?f" using assms by (simp add: arp_field_ok_def ethertype_of_def get16_def nth_append)
  moreover have "mac_valid (drop 22 ?f)" "?f ! 22 = mac ! 0" using assms by (simp_all add: mac_valid_append nth_append)
  moreover have "at_off ?f 6 6 = mac" "at_off ?f 22 6 = mac" "take 6 ?f = my" "at_off ?f 32 6 = my"
    using assms by (simp_all add: at_off_def)
  moreover have "ip_eq target (drop 28 ?f)" "ip_eq ip (drop 38 ?f)" using assms by (simp_all add: ip_eq_def)
  ultimately show "arp_reply_ok my ip (arp_answer mac (arp_build_request my ip target)) target"
    "at_off (arp_answer mac (arp_build_request my ip target)) 22 6 = mac"
    unfolding f arp_reply_ok_def using assms(4) by simp_all
qed

text \<open>The wait skips up to 64 foreign frames.\<close>

lemma wait_frame_finds:
  "rx n = map Some strays @ Some f # r \<Longrightarrow> \<forall>g \<in> set strays. g \<noteq> [] \<and> \<not> ok g \<Longrightarrow> f \<noteq> [] \<Longrightarrow> ok f \<Longrightarrow>
   spins < WAIT_LOOPS \<Longrightarrow> extra + length strays \<le> NET_RX_EXTRA_LIMIT \<Longrightarrow> wait_frame ok spins extra n = (W_Frame f, n\<lparr>rx := r\<rparr>)"
proof (induction strays arbitrary: n extra)
  case Nil
  then show ?case by (subst wait_frame.simps) (simp add: e1000_poll_def)
next
  case (Cons g gs)
  then show ?case using Cons.IH [of "n\<lparr>rx := map Some gs @ Some f # r\<rparr>" "extra + 1"]
    by (subst wait_frame.simps) (simp add: e1000_poll_def)
qed

definition foreign :: "(u8 list \<Rightarrow> bool) \<Rightarrow> u8 list list \<Rightarrow> bool" where
  "foreign ok gs \<longleftrightarrow> length gs \<le> 64 \<and> (\<forall>g \<in> set gs. g \<noteq> [] \<and> \<not> ok g)"

lemma arp_exchange_finds:
  assumes "length (nic_mac n) = 6" "length mac = 6" "mac_valid mac" "mac ! 0 AND 1 = 0" "tx_ok n = True # ts"
    "rx n = map Some gs @ Some (arp_answer mac (arp_build_request (nic_mac n) ip dst)) # r"
    "foreign (\<lambda>f. arp_reply_ok (nic_mac n) ip f dst) gs"
  shows "arp_exchange ip dst n =
    (0, mac, n\<lparr>tx_ok := ts, sent := sent n @ [arp_build_request (nic_mac n) ip dst], rx := r\<rparr>)"
proof -
  let ?f = "arp_answer mac (arp_build_request (nic_mac n) ip dst)"
  let ?n = "n\<lparr>tx_ok := ts, sent := sent n @ [arp_build_request (nic_mac n) ip dst]\<rparr>"
  have "?f \<noteq> []" using arp_answer_ok(1) [OF assms(1-4), of ip dst] by (auto simp: arp_reply_ok_def arp_field_ok_def)
  then have "wait_frame (\<lambda>f. arp_reply_ok (nic_mac n) ip f dst) 0 0 ?n = (W_Frame ?f, ?n\<lparr>rx := r\<rparr>)"
    using assms arp_answer_ok(1) by (intro wait_frame_finds [where strays = gs]) (simp_all add: foreign_def)
  then show ?thesis using assms
    by (simp add: arp_exchange_def numeral_3_eq_3 e1000_send_def arp_answer_ok(2))
qed


definition demo_net :: net where
  "demo_net = \<lparr>inited = True, net_ip = 0x0A00020F, gw = 0x0A000202, netmask = 0xFFFFFF00, open_owner = 0, seq_next = 0,
     cmd = CMD_NONE, cmd_seq = 0, result_state = RES_NONE, result_status = RES_OK, result_addr = 0, result_off = 0, result_buf = []\<rparr>"

definition demo_mac :: "u8 list" where "demo_mac = [0x52, 0x54, 0, 0x12, 0x34, 0x56]"
definition peer_mac :: "u8 list" where "peer_mac = [0x52, 0x55, 10, 0, 2, 2]"

definition demo_nic :: nic where
  "demo_nic =
     (let a = arp_build_request demo_mac 0x0A00020F 0x0A000202; e = ipv4_build_echo_frame demo_mac 0x0A00020F peer_mac 0x0A000202 1
      in \<lparr>nic_present = True, nic_mac = demo_mac, tx_ok = [True, True],
          rx = [Some [1], Some (arp_answer peer_mac a), Some (echo_reply e)], sent = []\<rparr>)"


subsection \<open>Addresses\<close>

text \<open>The decimal digits of a number below 256 are scanned as that number, whatever follows them.\<close>

fun digits_from :: "nat \<Rightarrow> string \<Rightarrow> nat" where
  "digits_from v [] = v"
| "digits_from v (c # r) = digits_from (v * 10 + (of_char c - 48)) r"

lemma digits_from_mono: "v \<le> digits_from v ds"
proof (induction ds arbitrary: v)
  case (Cons c ds)
  then have "v * 10 + (of_char c - 48) \<le> digits_from v (c # ds)" by simp
  then show ?case by linarith
qed simp

lemma digits_from_value:
  "(\<forall>c \<in> set ds. is_digit c) \<Longrightarrow> int (digits_from v ds) = foldl (\<lambda>v c. v * 10 + (int (of_char c) - 48)) (int v) ds"
  by (induction ds arbitrary: v) (auto simp: is_digit_def of_nat_diff add_diff_eq)

lemma parse_octets_digits:
  "(\<forall>c \<in> set ds. is_digit c) \<Longrightarrow> k + length ds \<le> 3 \<Longrightarrow> digits_from v ds \<le> 255 \<Longrightarrow> rest \<noteq> [] \<Longrightarrow>
   parse_octets (ds @ rest) v k octs = parse_octets rest (digits_from v ds) (k + length ds) octs"
proof (induction ds arbitrary: v k)
  case (Cons c ds)
  have "v * 10 + (of_char c - 48) \<le> 255" using Cons.prems(3) digits_from_mono [of "v * 10 + (of_char c - 48)" ds] by simp
  then show ?case using Cons by simp
qed simp

lemma parse_octets_last:
  "(\<forall>c \<in> set ds. is_digit c) \<Longrightarrow> ds \<noteq> [] \<Longrightarrow> k + length ds \<le> 3 \<Longrightarrow> digits_from v ds \<le> 255 \<Longrightarrow> length octs = 3 \<Longrightarrow>
   parse_octets ds v k octs = Some (octs @ [digits_from v ds])"
proof (induction ds arbitrary: v k)
  case (Cons c ds)
  have "v * 10 + (of_char c - 48) \<le> 255" using Cons.prems(4) digits_from_mono [of "v * 10 + (of_char c - 48)" ds] by simp
  then show ?case using Cons.prems Cons.IH [of "k + 1" "v * 10 + (of_char c - 48)"] by (cases "ds = []") simp_all
qed simp

lemma octet_text:
  fixes b :: u8
  shows "\<forall>c \<in> set (inbase 10 (unat b)). is_digit c" "inbase 10 (unat b) \<noteq> []" "length (inbase 10 (unat b)) \<le> 3"
    "digits_from 0 (inbase 10 (unat b)) = unat b"
proof -
  show d: "\<forall>c \<in> set (inbase 10 (unat b)). is_digit c" by (simp add: inbase_digits)
  show "inbase 10 (unat b) \<noteq> []" by simp
  have "unat b < 10 ^ 3" using unat_u8_less [of b] by (rule order_less_trans) simp
  then show "length (inbase 10 (unat b)) \<le> 3" by (intro inbase_length) simp_all
  have "int (digits_from 0 (inbase 10 (unat b))) = int (unat b)"
    using digits_from_value [OF d, of 0] dec_value_inbase [of "unat b"] unfolding dec_value_def by simp
  then show "digits_from 0 (inbase 10 (unat b)) = unat b" by linarith
qed

lemma parse_octet:
  fixes b :: u8
  assumes "length octs < 3" "r \<noteq> []"
  shows "parse_octets (inbase 10 (unat b) @ CHR ''.'' # r) 0 0 octs = parse_octets r 0 0 (octs @ [unat b])"
proof -
  have le: "unat b \<le> 255" using unat_u8_less [of b] by linarith
  have n: "\<not> is_digit CHR ''.''" by (simp add: is_digit_def)
  show ?thesis using assms le octet_text [of b] by (subst parse_octets_digits) (simp_all add: n)
qed

lemma parse_octet_end:
  fixes b :: u8
  assumes "length octs = 3"
  shows "parse_octets (inbase 10 (unat b)) 0 0 octs = Some (octs @ [unat b])"
proof -
  have le: "unat b \<le> 255" using unat_u8_less [of b] by linarith
  show ?thesis using assms le octet_text [of b] by (subst parse_octets_last) simp_all
qed

definition dotted :: "u32 \<Rightarrow> string" where
  "dotted ip = concat (map (\<lambda>b. inbase 10 (unat b) @ ''.'') (butlast (octets_from_ip ip))) @ inbase 10 (unat (last (octets_from_ip ip)))"

lemma ip_of_octets_from_ip: "ip_of_octets (map unat (octets_from_ip ip)) = ip"
proof (rule bit_word_eqI)
  fix k assume "k < LENGTH(32)"
  then consider "k < 8" | "8 \<le> k" "k < 16" | "16 \<le> k" "k < 24" | "24 \<le> k" "k < 32" by fastforce
  then show "bit (ip_of_octets (map unat (octets_from_ip ip))) k = bit ip k"
    by cases (auto simp: ip_of_octets_def octets_from_ip_def bit_simps)
qed

text \<open>
  (C32) The strict address parser reads every dotted address: the text of the four octets of an address in decimal,
  which is how the status and the answers print it, parses back to that address.
\<close>

theorem parse_ipv4_dotted: "parse_ipv4_strict (dotted ip) = Some ip"
proof -
  obtain a b c d where o: "octets_from_ip ip = [a, b, c, d]" by (simp add: octets_from_ip_def)
  let ?t = "\<lambda>x. inbase 10 (unat x)"
  have t: "dotted ip = ?t a @ ''.'' @ ?t b @ ''.'' @ ?t c @ ''.'' @ ?t d" by (simp add: dotted_def o)
  have "parse_octets (?t a @ ''.'' @ ?t b @ ''.'' @ ?t c @ ''.'' @ ?t d) 0 0 [] = Some [unat a, unat b, unat c, unat d]"
    by (simp add: parse_octet parse_octet_end)
  moreover have "0 < length (dotted ip)" "length (dotted ip) \<le> 15"
    using octet_text(3) [of a] octet_text(3) [of b] octet_text(3) [of c] octet_text(3) [of d] by (simp_all add: t)
  ultimately show ?thesis using ip_of_octets_from_ip [of ip] by (simp add: parse_ipv4_strict_def t o)
qed

end
