(* ===== verification/Ports.thy ===== *)
theory Ports
  imports Prelude
begin

text \<open>
  The I/O ports of \<open>kernel/src/arch/x86_64/io.h\<close> as the drivers see them.  The devices are the environment: the
  state holds what the next port reads return, in order and zero after that, and the trace of all port writes.
\<close>

record ports =
  ins :: "u32 list"
  trace :: "(u16 \<times> u32) list"

definition port_in :: "u16 \<Rightarrow> ports \<Rightarrow> u32 \<times> ports" where
  "port_in p s = (case ins s of [] \<Rightarrow> (0, s) | v # vs \<Rightarrow> (v, s\<lparr>ins := vs\<rparr>))"

definition port_out :: "u16 \<Rightarrow> u32 \<Rightarrow> ports \<Rightarrow> ports" where
  "port_out p v s = s\<lparr>trace := trace s @ [(p, v)]\<rparr>"

definition inb :: "u16 \<Rightarrow> ports \<Rightarrow> u8 \<times> ports" where
  "inb p s = (let (v, s) = port_in p s in (ucast v, s))"

definition outb :: "u16 \<Rightarrow> u8 \<Rightarrow> ports \<Rightarrow> ports" where
  "outb p v s = port_out p (ucast v) s"

definition inw :: "u16 \<Rightarrow> ports \<Rightarrow> u16 \<times> ports" where
  "inw p s = (let (v, s) = port_in p s in (ucast v, s))"

definition outw :: "u16 \<Rightarrow> u16 \<Rightarrow> ports \<Rightarrow> ports" where
  "outw p v s = port_out p (ucast v) s"

definition inl :: "u16 \<Rightarrow> ports \<Rightarrow> u32 \<times> ports" where
  "inl p s = port_in p s"

definition outl :: "u16 \<Rightarrow> u32 \<Rightarrow> ports \<Rightarrow> ports" where
  "outl p v s = port_out p v s"

definition io_wait :: "ports \<Rightarrow> ports" where
  "io_wait s = outb 0x80 0 s"

text \<open>The values written to one port.\<close>

definition write_of :: "u16 \<Rightarrow> ports \<Rightarrow> u32 list" where
  "write_of p s = map snd (filter (\<lambda>w. fst w = p) (trace s))"

lemma write_of_out [simp]: "write_of p (port_out q v s) = write_of p s @ (if q = p then [v] else [])"
  by (simp add: write_of_def port_out_def)

lemma write_of_in [simp]: "write_of p (snd (port_in q s)) = write_of p s"
  by (simp add: write_of_def port_in_def split: list.split)

end
