(* ===== verification/Audio.thy ===== *)
theory Audio
  imports Ports Sched Vfs
begin

text \<open>
  The Sound Blaster driver, \<open>kernel/src/drivers/audio.c\<close>.  Besides the ports the environment says, for every halt of the
  wait for the end of a transfer, whether the interrupt arrives during it.  The contents of the transfer buffer are a list
  of bytes, and \<open>fills\<close> records what was copied into it.
\<close>

subsection \<open>State\<close>

abbreviation SB16_MIXER_ADDR :: u16 where "SB16_MIXER_ADDR \<equiv> 0x224"
abbreviation SB16_MIXER_DATA :: u16 where "SB16_MIXER_DATA \<equiv> 0x225"
abbreviation SB16_DSP_RESET :: u16 where "SB16_DSP_RESET \<equiv> 0x226"
abbreviation SB16_DSP_READ :: u16 where "SB16_DSP_READ \<equiv> 0x22A"
abbreviation SB16_DSP_WRITE :: u16 where "SB16_DSP_WRITE \<equiv> 0x22C"
abbreviation SB16_DSP_ACK :: u16 where "SB16_DSP_ACK \<equiv> 0x22E"
abbreviation AUDIO_DMA_SIZE :: nat where "AUDIO_DMA_SIZE \<equiv> 4096"
abbreviation AUDIO_HZ :: u32 where "AUDIO_HZ \<equiv> 22050"

record sb16 =
  io :: ports
  irqs :: "bool list"
  sb16_present :: bool
  sb16_done :: bool
  sb16_busy :: bool
  dma_buf :: u64
  dma_buf_phys :: u32
  fills :: "u8 list list"

definition sb_out :: "u16 \<Rightarrow> u8 \<Rightarrow> sb16 \<Rightarrow> sb16" where
  "sb_out p v s = s\<lparr>io := outb p v (io s)\<rparr>"

definition sb_in :: "u16 \<Rightarrow> sb16 \<Rightarrow> u8 \<times> sb16" where
  "sb_in p s = (let (v, q) = inb p (io s) in (v, s\<lparr>io := q\<rparr>))"

definition sb_wait :: "sb16 \<Rightarrow> sb16" where
  "sb_wait s = s\<lparr>io := io_wait (io s)\<rparr>"

subsection \<open>Commands\<close>

text \<open>The loop reads the status until it is not busy; every read uses up one value of the environment.\<close>

function sb16_wait_write :: "sb16 \<Rightarrow> sb16" where
  "sb16_wait_write s =
     (let (v, t) = sb_in SB16_DSP_WRITE s in if v AND 0x80 \<noteq> 0 then sb16_wait_write (sb_wait t) else t)"
  by pat_completeness auto
termination
proof (relation "measure (\<lambda>s. length (ins (io s)))", simp)
  fix s p v t assume p: "p = sb_in SB16_DSP_WRITE s" "(v, t) = p" and b: "v AND 0x80 \<noteq> 0"
  have "ins (io s) \<noteq> []" using p b by (auto simp: sb_in_def inb_def port_in_def)
  then show "(sb_wait t, s) \<in> measure (\<lambda>s. length (ins (io s)))"
    using p by (auto simp: sb_in_def inb_def port_in_def sb_wait_def io_wait_def outb_def port_out_def split: list.splits)
qed

declare sb16_wait_write.simps [simp del]

definition sb16_write_cmd :: "u8 \<Rightarrow> sb16 \<Rightarrow> sb16" where
  "sb16_write_cmd v s = sb_out SB16_DSP_WRITE v (sb16_wait_write s)"

text \<open>Polling for a byte of the signal processor for a bounded number of rounds.\<close>

primrec dsp_poll :: "nat \<Rightarrow> sb16 \<Rightarrow> u8 option \<times> sb16" where
  "dsp_poll 0 s = (None, s)"
| "dsp_poll (Suc i) s =
     (let (v, s) = sb_in SB16_DSP_ACK (sb_wait s)
      in if v AND 0x80 \<noteq> 0 then (let (r, s) = sb_in SB16_DSP_READ s in (Some r, s)) else dsp_poll i s)"

definition sb16_reset :: "sb16 \<Rightarrow> bool \<times> sb16" where
  "sb16_reset s =
     (let s = sb_out SB16_DSP_RESET 1 s;
          s = (sb_wait ^^ 1000) s;
          s = sb_out SB16_DSP_RESET 0 s;
          (r, s) = dsp_poll 100000 s
      in (r = Some 0xAA, s))"

text \<open>The version is only printed; what the two polls return is the result here.\<close>

definition sb16_read_version :: "sb16 \<Rightarrow> (u8 \<times> u8) option \<times> sb16" where
  "sb16_read_version s =
     (let s = sb16_write_cmd 0xE1 s; (maj, s) = dsp_poll 100000 s
      in case maj of
           None \<Rightarrow> (None, s)
         | Some a \<Rightarrow> let (min, s) = dsp_poll 100000 s in (map_option (Pair a) min, s))"

definition sb16_set_rate :: "u32 \<Rightarrow> sb16 \<Rightarrow> sb16" where
  "sb16_set_rate hz s = sb16_write_cmd (ucast (256 - 1000000 div hz)) (sb16_write_cmd 0x40 s)"

definition mixer_write :: "u8 \<Rightarrow> u8 \<Rightarrow> sb16 \<Rightarrow> sb16" where
  "mixer_write reg v s = sb_wait (sb_out SB16_MIXER_DATA v (sb_wait (sb_out SB16_MIXER_ADDR reg s)))"

definition sb16_irq :: "sb16 \<Rightarrow> sb16" where
  "sb16_irq s = (snd (sb_in SB16_DSP_ACK s))\<lparr>sb16_done := True\<rparr>"

subsection \<open>Playing\<close>

definition dma_start_8bit :: "u16 \<Rightarrow> sb16 \<Rightarrow> sb16" where
  "dma_start_8bit cnt s =
     fold (\<lambda>(p, v). sb_out p v)
       [(0x0A, 0x04 OR 0x01), (0x0C, 0), (0x02, ucast (dma_buf_phys s)), (0x02, ucast (drop_bit 8 (dma_buf_phys s))),
        (0x0C, 0), (0x03, ucast cnt), (0x03, ucast (drop_bit 8 cnt)), (0x83, ucast (drop_bit 16 (dma_buf_phys s))),
        (0x0B, 0x49), (0x0A, 0x01)] s"

definition sb16_start_out :: "u16 \<Rightarrow> sb16 \<Rightarrow> sb16" where
  "sb16_start_out cnt s =
     sb16_write_cmd (ucast (drop_bit 8 cnt)) (sb16_write_cmd (ucast cnt) (sb16_write_cmd 0x14 s))"

text \<open>Halting with interrupts enabled: the environment decides whether the device interrupts.\<close>

definition sti_hlt :: "sb16 \<Rightarrow> sb16" where
  "sti_hlt s = (case irqs s of [] \<Rightarrow> s | b # bs \<Rightarrow> let s = s\<lparr>irqs := bs\<rparr> in if b then sb16_irq s else s)"

text \<open>The result tells whether the wait ended before its limit, which is what the message about a timeout depends on.\<close>

primrec wait_rounds :: "nat \<Rightarrow> sb16 \<Rightarrow> bool \<times> sb16" where
  "wait_rounds 0 s = (False, s)"
| "wait_rounds (Suc w) s =
     (if sb16_done s then (True, s)
      else let s = sb_out 0x0C 0 s; (lo, s) = sb_in 0x03 s; (hi, s) = sb_in 0x03 s
           in if (ucast lo OR push_bit 8 (ucast hi) :: u16) = 0 then (True, s) else wait_rounds w (sti_hlt s))"

definition sb16_wait_done :: "sb16 \<Rightarrow> bool \<times> sb16" where
  "sb16_wait_done s = wait_rounds 20000 (s\<lparr>sb16_done := False\<rparr>)"

definition play_chunk :: "u8 list \<Rightarrow> sb16 \<Rightarrow> sb16" where
  "play_chunk c s =
     (let s = s\<lparr>fills := fills s @ [c]\<rparr>;
          s = dma_start_8bit (of_nat (length c - 1)) s;
          s = sb16_start_out (of_nat (length c - 1)) s
      in snd (sb16_wait_done s))"

function play_all :: "u8 list \<Rightarrow> sb16 \<Rightarrow> sb16" where
  "play_all buf s = (if buf = [] then s else play_all (drop AUDIO_DMA_SIZE buf) (play_chunk (take AUDIO_DMA_SIZE buf) s))"
  by pat_completeness auto
termination by (relation "measure (length \<circ> fst)") auto

declare play_all.simps [simp del]

text \<open>\<open>None\<close>: another transfer is in progress and the caller halts.\<close>

definition audio_write :: "u8 list \<Rightarrow> sb16 \<Rightarrow> (int \<times> sb16) option" where
  "audio_write buf s =
     (if \<not> sb16_present s then Some (c_int (length buf), s)
      else if buf = [] then Some (c_int (length buf), s)
      else if sb16_busy s then None
      else let s = play_all buf (s\<lparr>sb16_busy := True\<rparr>) in Some (c_int (length buf), s\<lparr>sb16_busy := False\<rparr>))"

definition audio_read :: "nat \<Rightarrow> int \<times> u8 list" where
  "audio_read n = (0, [])"

subsection \<open>Initialisation\<close>

primrec dma_search :: "nat \<Rightarrow> pmm \<Rightarrow> (u64 \<times> u64) option \<times> pmm" where
  "dma_search 0 m = (None, m)"
| "dma_search (Suc a) m =
     (let (b, m) = pmm_alloc_dma 1 m
      in if b = 0 then (None, m)
         else let pa = virt_to_phys m b
              in if pa < 16 * 1024 * 1024 then (Some (b, pa), m) else dma_search a (pmm_free b 1 m))"

definition audio_init :: "(int \<Rightarrow> bool) \<Rightarrow> pmm \<Rightarrow> vfs \<Rightarrow> sb16 \<Rightarrow> int \<times> pmm \<times> vfs \<times> sb16" where
  "audio_init alive m v s =
     (let (ok, s) = sb16_reset s
      in if \<not> ok then (-1, m, v, s)
         else let (ver, s) = sb16_read_version s;
                  s = mixer_write 0x22 0xFF s;
                  s = mixer_write 0x04 0xFF s;
                  s = sb16_set_rate AUDIO_HZ s;
                  (found, m) = dma_search 8 m
              in case found of
                   None \<Rightarrow> (-1, m, v, s)
                 | Some (b, pa) \<Rightarrow>
                     (0, m, vfs_mount_dev alive ''audio'' Dev_audio v, s\<lparr>dma_buf := b, dma_buf_phys := ucast pa, sb16_present := True\<rparr>))"

subsection \<open>What is played\<close>

text \<open>The commands the signal processor has received, and the command for a transfer of a block.\<close>

definition dsp_log :: "sb16 \<Rightarrow> u32 list" where
  "dsp_log s = write_of SB16_DSP_WRITE (io s)"

definition out_cmd :: "u8 list \<Rightarrow> u32 list" where
  "out_cmd c = (let n = of_nat (length c - 1) :: u16 in [0x14, ucast (ucast n :: u8), ucast (ucast (drop_bit 8 n) :: u8)])"

function dma_blocks :: "u8 list \<Rightarrow> u8 list list" where
  "dma_blocks buf = (if buf = [] then [] else take AUDIO_DMA_SIZE buf # dma_blocks (drop AUDIO_DMA_SIZE buf))"
  by pat_completeness auto
termination by (relation "measure length") auto

declare dma_blocks.simps [simp del]

lemma dma_blocks_concat: "concat (dma_blocks buf) = buf"
  by (induction buf rule: dma_blocks.induct) (subst dma_blocks.simps, simp)

lemma dsp_log_upd [simp]: "dsp_log (s\<lparr>irqs := a\<rparr>) = dsp_log s" "dsp_log (s\<lparr>sb16_done := b\<rparr>) = dsp_log s"
  "dsp_log (s\<lparr>fills := c\<rparr>) = dsp_log s" "dsp_log (s\<lparr>sb16_busy := b\<rparr>) = dsp_log s"
  by (simp_all add: dsp_log_def)

lemma sb_in_log [simp]: "sb_in p s = (v, t) \<Longrightarrow> dsp_log t = dsp_log s" "sb_in p s = (v, t) \<Longrightarrow> fills t = fills s"
  "sb_in p s = (v, t) \<Longrightarrow> dma_buf_phys t = dma_buf_phys s"
  by (auto simp: sb_in_def inb_def dsp_log_def write_of_def port_in_def split: list.splits)

lemma sb_in_log_snd [simp]: "dsp_log (snd (sb_in p s)) = dsp_log s" "fills (snd (sb_in p s)) = fills s"
  by (metis prod.collapse sb_in_log)+

lemma sb_out_log [simp]:
  "dsp_log (sb_out p v s) = dsp_log s @ (if p = SB16_DSP_WRITE then [ucast v] else [])" "fills (sb_out p v s) = fills s"
  "dma_buf_phys (sb_out p v s) = dma_buf_phys s"
  by (simp_all add: sb_out_def dsp_log_def outb_def)

lemma sb_wait_log [simp]: "dsp_log (sb_wait s) = dsp_log s" "fills (sb_wait s) = fills s"
  by (simp_all add: sb_wait_def dsp_log_def io_wait_def outb_def)

lemma sb16_wait_write_keeps: "dsp_log (sb16_wait_write s) = dsp_log s \<and> fills (sb16_wait_write s) = fills s"
proof (induction s rule: sb16_wait_write.induct)
  case (1 s)
  obtain v t where t: "sb_in SB16_DSP_WRITE s = (v, t)" by (cases "sb_in SB16_DSP_WRITE s")
  then show ?case using 1 [OF t [symmetric] refl] by (subst (1 2) sb16_wait_write.simps) simp
qed

lemmas sb16_wait_write_log [simp] = sb16_wait_write_keeps [THEN conjunct1] sb16_wait_write_keeps [THEN conjunct2]

lemma sb16_write_cmd_log [simp]: "dsp_log (sb16_write_cmd v s) = dsp_log s @ [ucast v]" "fills (sb16_write_cmd v s) = fills s"
  by (simp_all add: sb16_write_cmd_def)

lemma sti_hlt_log [simp]: "dsp_log (sti_hlt s) = dsp_log s" "fills (sti_hlt s) = fills s"
  by (auto simp: sti_hlt_def sb16_irq_def Let_def split: list.split)

lemma wait_rounds_log [simp]: "dsp_log (snd (wait_rounds w s)) = dsp_log s" "fills (snd (wait_rounds w s)) = fills s"
  by (induction w arbitrary: s) (auto simp: Let_def split: prod.splits)

lemma play_chunk_log [simp]:
  "dsp_log (play_chunk c s) = dsp_log s @ out_cmd c" "fills (play_chunk c s) = fills s @ [c]"
  by (simp_all add: play_chunk_def sb16_wait_done_def dma_start_8bit_def sb16_start_out_def out_cmd_def Let_def)

lemma play_all_log:
  "dsp_log (play_all buf s) = dsp_log s @ concat (map out_cmd (dma_blocks buf)) \<and> fills (play_all buf s) = fills s @ dma_blocks buf"
proof (induction buf s rule: play_all.induct)
  case (1 buf s)
  then show ?case by (subst (1 2) play_all.simps, subst (1 2) dma_blocks.simps) simp
qed

text \<open>A write plays all of its bytes, in order and in blocks that fit the transfer buffer, with one command per block.\<close>

lemma audio_write_plays:
  assumes "audio_write buf s = Some (r, s')" "sb16_present s" "buf \<noteq> []"
  shows "concat (drop (length (fills s)) (fills s')) = buf"
    "dsp_log s' = dsp_log s @ concat (map out_cmd (drop (length (fills s)) (fills s')))" "r = c_int (length buf)"
  using assms play_all_log [of buf "s\<lparr>sb16_busy := True\<rparr>"] dma_blocks_concat [of buf]
  by (auto simp: audio_write_def Let_def split: if_splits)

end
