(* ===== verification/Devfs.thy ===== *)
theory Devfs
  imports Procfs Kbd Tty Net Audio
begin

text \<open>
  The character devices, \<open>kernel/src/drivers/devfs.c\<close>: the console over keyboard and screen, \<open>null\<close>,
  \<open>zero\<close> and \<open>random\<close>, and the dispatch to these and to the network and audio devices.  The state joins the tasks,
  pipes and keyboard with the file system, the screen and the two devices.
\<close>

subsection \<open>State and operations\<close>

record kdev = kcon +
  fsys :: vfs
  con :: tty
  rng_state :: u32
  netdev :: net
  card :: nic
  sb :: sb16

definition rng_next :: "u32 \<Rightarrow> u32" where
  "rng_next r =
     (let r = r XOR push_bit 13 r; r = r XOR drop_bit 17 r
      in r XOR push_bit 5 r)"

text \<open>
  The loop of \<open>console_read\<close> with the bytes it has stored so far, until it returns or halts for a key; the bytes in
  the buffer at that moment are the second component.
\<close>

function console_read :: "u64 \<Rightarrow> nat \<Rightarrow> u8 list \<Rightarrow> 'a kdev_scheme \<Rightarrow> io \<times> u8 list \<times> 'a kdev_scheme" where
  "console_read sp n got k =
     (if length got \<ge> n then (IO_Ret (c_int (length got)) got, got, k)
      else case kbd_getchar sp k of
             (IO_Parked h, k) \<Rightarrow> (IO_Parked (length got), got, k)
           | (IO_Ret c _, k) \<Rightarrow>
               if c < 0 then (if got = [] then (IO_Ret (-1) [], got, k) else (IO_Ret (c_int (length got)) got, got, k))
               else let ch = char_of (nat c); k = k\<lparr>con := tty_putc ch (con k)\<rparr>; got = got @ [of_char ch]
                    in if ch = CHR 0x0A then (IO_Ret (c_int (length got)) got, got, k)
                       else console_read sp n got k)"
  by pat_completeness auto
termination
  by (relation "measure (\<lambda>(sp, n, got, k). n - length got)") auto

declare console_read.simps [simp del]

definition console_write :: "u8 list \<Rightarrow> 'a kdev_scheme \<Rightarrow> int \<times> 'a kdev_scheme" where
  "console_write buf k = (c_int (length buf), k\<lparr>con := tty_write (map (\<lambda>b. char_of (unat b)) buf) (con k)\<rparr>)"

definition null_read :: "nat \<Rightarrow> int \<times> u8 list" where
  "null_read n = (0, [])"

definition null_write :: "u8 list \<Rightarrow> int" where
  "null_write buf = c_int (length buf)"

definition zero_read :: "nat \<Rightarrow> int \<times> u8 list" where
  "zero_read n = (c_int n, replicate n 0)"

definition random_byte :: "u64 \<Rightarrow> nat \<Rightarrow> u8 list \<times> u32 \<Rightarrow> u8 list \<times> u32" where
  "random_byte uptime i = (\<lambda>(bs, r).
     let r = (if i mod 4 = 0 then r + ucast (uptime * 2654435761) else r); r = rng_next r
     in (bs @ [ucast (drop_bit 24 r)], r))"

definition random_read :: "nat \<Rightarrow> 'a kdev_scheme \<Rightarrow> int \<times> u8 list \<times> 'a kdev_scheme" where
  "random_read n k =
     (let (bs, r) = fold (random_byte (g_uptime_ticks k)) [0 ..< n] ([], rng_state k)
      in (c_int n, bs, k\<lparr>rng_state := r\<rparr>))"

definition caller_pid :: "'a sched_scheme \<Rightarrow> int option" where
  "caller_pid k = map_option (\<lambda>i. pid (task_at k i)) (sched_get_current k)"

text \<open>The tables of devices: what each one does on a read and on a write.\<close>

definition dev_read :: "u64 \<Rightarrow> chardev \<Rightarrow> nat \<Rightarrow> u8 list \<Rightarrow> 'a kdev_scheme \<Rightarrow> io \<times> u8 list \<times> 'a kdev_scheme" where
  "dev_read sp d n got k =
     (case d of
        Dev_console \<Rightarrow> console_read sp n got k
      | Dev_null \<Rightarrow> (let (r, bs) = null_read n in (IO_Ret r bs, bs, k))
      | Dev_zero \<Rightarrow> (let (r, bs) = zero_read n in (IO_Ret r bs, bs, k))
      | Dev_random \<Rightarrow> (let (r, bs, k) = random_read n k in (IO_Ret r bs, bs, k))
      | Dev_net \<Rightarrow> (let (r, out, s, c) = netdev_read (caller_pid k) n (netdev k) (card k); bs = map of_char out
                    in (IO_Ret r bs, bs, k\<lparr>netdev := s, card := c\<rparr>))
      | Dev_audio \<Rightarrow> (let (r, bs) = audio_read n in (IO_Ret r bs, bs, k)))"

definition dev_write :: "chardev \<Rightarrow> u8 list \<Rightarrow> 'a kdev_scheme \<Rightarrow> io \<times> 'a kdev_scheme" where
  "dev_write d buf k =
     (case d of
        Dev_console \<Rightarrow> (let (r, k) = console_write buf k in (IO_Ret r [], k))
      | Dev_net \<Rightarrow> (let (r, s) = netdev_write (caller_pid k) (map (\<lambda>b. char_of (unat b)) buf) (card k) (netdev k)
                    in (IO_Ret r [], k\<lparr>netdev := s\<rparr>))
      | Dev_audio \<Rightarrow> (case audio_write buf (sb k) of
                        None \<Rightarrow> (IO_Parked 0, k)
                      | Some (r, s) \<Rightarrow> (IO_Ret r [], k\<lparr>sb := s\<rparr>))
      | _ \<Rightarrow> (IO_Ret (null_write buf) [], k))"

subsection \<open>Reading a line\<close>

lemma kbd_getchar_typed:
  assumes "kbd_inv (kb k)" "typed (kb k) = c # cs" "\<not> g_resched_requested k"
    "\<forall>i. current k = Some i \<longrightarrow> sig_pending (task_at k i) = 0"
  shows "\<exists>b. kbd_getchar sp k = (IO_Ret (of_char c) [], k\<lparr>kb := b\<rparr>) \<and> kbd_inv b \<and> typed b = cs"
proof -
  obtain d b where p: "kbd_poll (kb k) = Some (d, b)" using keys.pop_None [OF assms(1)] assms(2) by fastforce
  then have "kbd_poll (kb k) = Some (c, b)" "kbd_inv b" "typed b = cs" using keys.pop_Some [OF assms(1) p] assms(2) by simp_all
  moreover have "kbd_getchar sp k = (IO_Ret (of_char c) [], k\<lparr>kb := b\<rparr>)"
    using assms(3,4) calculation(1) by (cases "current k") (simp_all add: kbd_getchar_def sched_get_current_def)
  ultimately show ?thesis by blast
qed

lemma of_char_nonneg: "\<not> (of_char c :: int) < 0"
  by (metis not_less of_nat_0_le_iff of_nat_of_char)

lemma console_read_typed:
  assumes "kbd_inv (kb k)" "typed (kb k) = line @ nl # rest" "nl \<notin> set line" "length got + length line < n"
    "\<not> g_resched_requested k" "\<forall>i. current k = Some i \<longrightarrow> sig_pending (task_at k i) = 0"
  shows "\<exists>b bs. console_read sp n got k = (IO_Ret (c_int (length bs)) bs, bs, k\<lparr>kb := b, con := tty_write (line @ [nl]) (con k)\<rparr>) \<and>
    bs = got @ map of_char (line @ [nl]) \<and> kbd_inv b \<and> typed b = rest"
  using assms
proof (induction line arbitrary: got k)
  case Nil
  obtain b where b: "kbd_getchar sp k = (IO_Ret (of_char nl) [], k\<lparr>kb := b\<rparr>)" "kbd_inv b" "typed b = rest"
    using kbd_getchar_typed [of k nl rest sp] Nil.prems by auto
  then have "console_read sp n got k = (IO_Ret (c_int (length (got @ [10]))) (got @ [10]), got @ [10], k\<lparr>kb := b, con := tty_putc nl (con k)\<rparr>)"
    using Nil.prems(4) by (subst console_read.simps) (simp add: char_of_def bit_0 bit_simps Let_def)
  then show ?case using b(2,3) by (intro exI [of _ b]) (simp add: tty_write_def)
next
  case (Cons c cs)
  obtain b where b: "kbd_getchar sp k = (IO_Ret (of_char c) [], k\<lparr>kb := b\<rparr>)" "kbd_inv b" "typed b = cs @ nl # rest"
    using kbd_getchar_typed [of k c "cs @ nl # rest" sp] Cons.prems by auto
  define k' where "k' = k\<lparr>kb := b, con := tty_putc c (con k)\<rparr>"
  have step: "console_read sp n got k = console_read sp n (got @ [of_char c]) k'"
    using b(1) Cons.prems(3,4) of_char_nonneg [of c] by (subst console_read.simps) (auto simp: Let_def k'_def)
  have t: "task_at k' = task_at k" by (simp add: k'_def task_at_def fun_eq_iff)
  have "\<exists>b bs. console_read sp n (got @ [of_char c]) k' =
      (IO_Ret (c_int (length bs)) bs, bs, k'\<lparr>kb := b, con := tty_write (cs @ [nl]) (con k')\<rparr>) \<and>
      bs = (got @ [of_char c]) @ map of_char (cs @ [nl]) \<and> kbd_inv b \<and> typed b = rest"
    using Cons.prems b(2,3) t by (intro Cons.IH) (simp_all add: k'_def)
  then show ?case unfolding step by (auto simp: k'_def tty_write_def)
qed

lemma random_read_length: "length (fst (fold (random_byte u) is (bs, r))) = length bs + length is"
  by (induction "is" arbitrary: bs r) (simp_all add: random_byte_def Let_def)

lemma xor_zero: "a XOR b = 0 \<Longrightarrow> a = (b :: 'w::len word)"
  by (metis xor.assoc xor.left_neutral xor.right_neutral xor_self_eq)

text \<open>The generator never reaches the state 0, where it would stay, from another state.\<close>

lemma xorshift_injective:
  fixes r :: u32 shows "r XOR push_bit 13 r = 0 \<Longrightarrow> r = 0" "r XOR drop_bit 17 r = 0 \<Longrightarrow> r = 0" "r XOR push_bit 5 r = 0 \<Longrightarrow> r = 0"
proof -
  have big: "push_bit 39 r = 0" "push_bit 35 r = 0" "drop_bit 34 r = 0" by (rule bit_word_eqI; simp add: bit_simps)+
  show "r = 0" if "r XOR push_bit 13 r = 0"
  proof -
    have "r = push_bit 13 r" using that by (rule xor_zero)
    then have "r = push_bit 13 (push_bit 13 (push_bit 13 r))" by metis
    then show ?thesis using big(1) by simp
  qed
  show "r = 0" if "r XOR drop_bit 17 r = 0"
  proof -
    have "r = drop_bit 17 r" using that by (rule xor_zero)
    then have "r = drop_bit 17 (drop_bit 17 r)" by metis
    then show ?thesis using big(3) by simp
  qed
  show "r = 0" if "r XOR push_bit 5 r = 0"
  proof -
    have "r = push_bit 5 r" using that by (rule xor_zero)
    then have "r = push_bit 5 (push_bit 5 (push_bit 5 (push_bit 5 (push_bit 5 (push_bit 5 (push_bit 5 r))))))" by metis
    then show ?thesis using big(2) by simp
  qed
qed

lemma rng_next_nonzero: "r \<noteq> 0 \<Longrightarrow> rng_next r \<noteq> 0"
  using xorshift_injective(1) [of r] xorshift_injective(2) [of "r XOR push_bit 13 r"]
    xorshift_injective(3) [of "(r XOR push_bit 13 r) XOR drop_bit 17 (r XOR push_bit 13 r)"]
  unfolding rng_next_def Let_def by blast

subsection \<open>Properties\<close>

text \<open>
  (C29) Reading the console: when a line is typed ahead and fits, a read returns exactly that line with its newline,
  echoes it on the screen and leaves the characters after it for the next read.
\<close>

theorem console_read_line:
  assumes "kbd_inv (kb k)" "typed (kb k) = line @ nl # rest" "nl \<notin> set line" "length line < n"
    "\<not> g_resched_requested k" "\<forall>i. current k = Some i \<longrightarrow> sig_pending (task_at k i) = 0"
  shows "\<exists>b bs. dev_read sp Dev_console n [] k = (IO_Ret (c_int (length bs)) bs, bs, k\<lparr>kb := b, con := tty_write (line @ [nl]) (con k)\<rparr>) \<and>
    bs = map of_char (line @ [nl]) \<and> kbd_inv b \<and> typed b = rest"
  using console_read_typed [of k line rest "[]" n sp] assms by (simp add: dev_read_def)

definition demo_sb16 :: sb16 where
  "demo_sb16 = \<lparr>sb16.io = \<lparr>ins = [], trace = []\<rparr>, irqs = [], sb16_present = False, sb16_done = False, sb16_busy = False,
     dma_buf = 0, dma_buf_phys = 0, fills = []\<rparr>"

definition demo_kdev :: kdev where
  "demo_kdev = kcon.extend (two_kcon\<lparr>kb := buf_push nl (buf_push (CHR ''a'') kbd_boot)\<rparr>) (kdev.fields proc_vfs demo_tty 0x12345678 demo_net demo_nic demo_sb16)"

lemma demo_kdev_facts: "kb demo_kdev = buf_push nl (buf_push (CHR ''a'') kbd_boot)" "con demo_kdev = demo_tty" "current demo_kdev = Some 0"
  "task_at demo_kdev = task_at two_sched" "\<not> g_resched_requested demo_kdev"
  by (simp_all add: demo_kdev_def kdev.defs two_kcon_def ipc.defs kcon.defs two_ipc_def sched.defs two_sched_def task_at_def fun_eq_iff)

theorem console_read_line_witness:
  "\<exists>b. dev_read 0 Dev_console 8 [] demo_kdev = (IO_Ret 2 [97, 10], [97, 10], demo_kdev\<lparr>kb := b, con := tty_write (''a'' @ [nl]) demo_tty\<rparr>)"
proof -
  have inv: "kbd_inv (kb demo_kdev)" using keys.push_inv kbd_boot_inv by (simp add: demo_kdev_facts)
  have "typed (kb demo_kdev) = ''a'' @ nl # []"
    by (simp add: demo_kdev_facts typed_def kb_len_def buf_push_def kbd_boot_def upt_rec nth_list_update)
  moreover have "sig_pending (task_at two_sched 0) = 0" by (simp add: two_sched_def task_at_def zero_task_def)
  moreover have "c_int (Suc (Suc 0)) = 2" by (simp add: c_int_id)
  ultimately show ?thesis using console_read_line [OF inv, of "''a''" "[]" 8 0] by (auto simp: demo_kdev_facts)
qed

end
