(* ===== verification/Pmap.thy ===== *)
theory Pmap
  imports Sched
begin

text \<open>
  Address spaces, \<open>kernel/src/mm/pmap.c\<close>: four-level page tables in physical frames reached through the
  direct map, reference counts of frames, and the page-fault handler.  A table is named by its physical address;
  its entries are words of the kernel's memory.
\<close>

subsection \<open>Entries and reference counts\<close>

abbreviation PTE_PRESENT :: u64 where "PTE_PRESENT \<equiv> 0x001"
abbreviation PTE_WRITE :: u64 where "PTE_WRITE \<equiv> 0x002"
abbreviation PTE_USER :: u64 where "PTE_USER \<equiv> 0x004"
abbreviation PTE_NOCACHE :: u64 where "PTE_NOCACHE \<equiv> 0x010"
abbreviation PTE_COW :: u64 where "PTE_COW \<equiv> 0x200"
definition PTE_ADDR_MASK :: u64 where "PTE_ADDR_MASK = 0x000FFFFFFFFFF000"
abbreviation USER_STACK_TOP_VA :: u64 where "USER_STACK_TOP_VA \<equiv> 0x70000000"
abbreviation USER_STACK_MAX_SIZE :: u64 where "USER_STACK_MAX_SIZE \<equiv> 0x800000"

definition hhdm_of :: "'a sched_scheme \<Rightarrow> u64 \<Rightarrow> u64" where
  "hhdm_of k phys = phys + hhdm_offset (frames k)"

definition pt_entry :: "'a sched_scheme \<Rightarrow> u64 \<Rightarrow> u64 \<Rightarrow> u64" where
  "pt_entry k t i = load (kmem k) (hhdm_of k t + 8 * i)"

definition set_entry :: "u64 \<Rightarrow> u64 \<Rightarrow> u64 \<Rightarrow> 'a sched_scheme \<Rightarrow> 'a sched_scheme" where
  "set_entry t i v k = k\<lparr>kmem := store (hhdm_of k t + 8 * i) v (kmem k)\<rparr>"

definition alloc_page :: "'a sched_scheme \<Rightarrow> u64 \<times> 'a sched_scheme" where
  "alloc_page k = (let (p, f) = pmm_alloc 1 (frames k) in (p, k\<lparr>frames := f\<rparr>))"

definition free_page :: "u64 \<Rightarrow> 'a sched_scheme \<Rightarrow> 'a sched_scheme" where
  "free_page ptr k = k\<lparr>frames := pmm_free ptr 1 (frames k)\<rparr>"

definition zero_page :: "u64 \<Rightarrow> 'a sched_scheme \<Rightarrow> 'a sched_scheme" where
  "zero_page ptr k = k\<lparr>kmem := memset ptr 0 4096 (kmem k)\<rparr>"

definition refs_top :: "memmap_entry list \<Rightarrow> u64" where
  "refs_top es = fold (\<lambda>e m. if me_type e \<noteq> LIMINE_MEMMAP_USABLE then m
     else let top = (me_base e + me_length e) div 4096 in if top > m then top else m) es 0"

definition frame_refs_init :: "memmap_entry list \<Rightarrow> 'a sched_scheme \<Rightarrow> 'a sched_scheme" where
  "frame_refs_init es k =
     (let max_page = refs_top es; bytes = max_page * 4; pages = (bytes + 4096 - 1) div 4096;
          (mem, f) = pmm_alloc pages (frames k); k = k\<lparr>frames := f\<rparr>
      in if mem = 0 then k
         else k\<lparr>kmem := memset mem 0 (pages * 4096) (kmem k), refs := mem, refs_pages := max_page\<rparr>)"

definition ref_valid :: "'a sched_scheme \<Rightarrow> u64 \<Rightarrow> bool" where
  "ref_valid k pa \<longleftrightarrow> refs k \<noteq> 0 \<and> pa div 4096 < refs_pages k"

definition ref_get :: "'a sched_scheme \<Rightarrow> u64 \<Rightarrow> u32" where
  "ref_get k pa = load (kmem k) (refs k + 4 * (pa div 4096))"

definition ref_set :: "u64 \<Rightarrow> u32 \<Rightarrow> 'a sched_scheme \<Rightarrow> 'a sched_scheme" where
  "ref_set pa v k = k\<lparr>kmem := store (refs k + 4 * (pa div 4096)) v (kmem k)\<rparr>"

definition frame_ref_inc :: "u64 \<Rightarrow> 'a sched_scheme \<Rightarrow> 'a sched_scheme" where
  "frame_ref_inc phys k = (if ref_valid k phys then ref_set phys (ref_get k phys + 1) k else k)"

definition frame_ref_dec :: "u64 \<Rightarrow> 'a sched_scheme \<Rightarrow> bool \<times> 'a sched_scheme" where
  "frame_ref_dec phys k =
     (if \<not> ref_valid k phys then (False, k)
      else let k = (if ref_get k phys > 0 then ref_set phys (ref_get k phys - 1) k else k)
           in (ref_get k phys = 0, k))"

subsection \<open>Address spaces\<close>

text \<open>Copying the upper half of the current space.\<close>

definition clone_upper :: "u64 \<Rightarrow> u64 \<Rightarrow> 'a sched_scheme \<Rightarrow> 'a sched_scheme" where
  "clone_upper old new k = fold (\<lambda>i k. set_entry new (of_nat i) (pt_entry k old (of_nat i)) k) [256 ..< 512] k"

definition pmap_create :: "'a sched_scheme \<Rightarrow> u64 \<times> 'a sched_scheme" where
  "pmap_create k =
     (let (page, k) = alloc_page k
      in if page = 0 then (0, k)
         else let pml4 = page - hhdm_offset (frames k)
              in (pml4, clone_upper (cr3 k AND PTE_ADDR_MASK) pml4 (zero_page page k)))"

definition table_alloc :: "'a sched_scheme \<Rightarrow> u64 \<times> 'a sched_scheme" where
  "table_alloc k =
     (let (page, k) = alloc_page k
      in if page = 0 then (0, k) else (page - hhdm_offset (frames k), zero_page page k))"

definition idx :: "u64 \<Rightarrow> nat \<Rightarrow> u64" where
  "idx va level = drop_bit (12 + level * 9) va AND 0x1FF"

text \<open>The loop of \<open>pmap_map\<close> from a level down to the leaf table; it gives up when no table can be allocated.\<close>

primrec descend :: "nat \<Rightarrow> u64 \<Rightarrow> u64 \<Rightarrow> u64 \<Rightarrow> 'a sched_scheme \<Rightarrow> u64 option \<times> 'a sched_scheme" where
  "descend 0 table va flags k = (Some table, k)"
| "descend (Suc l) table va flags k =
     (let entry = pt_entry k table (idx va (Suc l))
      in if entry AND PTE_PRESENT = 0
         then let (next_phys, k) = table_alloc k
              in if next_phys = 0 then (None, k)
                 else let entry = next_phys OR PTE_PRESENT OR PTE_WRITE OR flags
                      in descend l (entry AND PTE_ADDR_MASK) va flags (set_entry table (idx va (Suc l)) entry k)
         else descend l (entry AND PTE_ADDR_MASK) va flags k)"

definition pmap_map :: "u64 \<Rightarrow> u64 \<Rightarrow> u64 \<Rightarrow> u64 \<Rightarrow> 'a sched_scheme \<Rightarrow> 'a sched_scheme" where
  "pmap_map pml4 va pa flags k =
     (case descend 3 pml4 va flags k of
        (None, k) \<Rightarrow> k
      | (Some table, k) \<Rightarrow> set_entry table (idx va 0) ((pa AND PTE_ADDR_MASK) OR PTE_PRESENT OR flags) k)"

text \<open>The leaf table and index for an address, if all tables above are present.\<close>

primrec pte_walk :: "nat \<Rightarrow> u64 \<Rightarrow> u64 \<Rightarrow> 'a sched_scheme \<Rightarrow> u64 option" where
  "pte_walk 0 table va k = Some table"
| "pte_walk (Suc l) table va k =
     (let entry = pt_entry k table (idx va (Suc l))
      in if entry AND PTE_PRESENT = 0 then None else pte_walk l (entry AND PTE_ADDR_MASK) va k)"

definition pmap_pte :: "u64 \<Rightarrow> u64 \<Rightarrow> 'a sched_scheme \<Rightarrow> (u64 \<times> u64) option" where
  "pmap_pte pml4 va k = map_option (\<lambda>t. (t, idx va 0)) (pte_walk 3 pml4 va k)"

definition pmap_resolve :: "u64 \<Rightarrow> u64 \<Rightarrow> 'a sched_scheme \<Rightarrow> u64" where
  "pmap_resolve pml4 va k =
     (case pmap_pte pml4 va k of
        None \<Rightarrow> 0
      | Some (t, i) \<Rightarrow> let leaf = pt_entry k t i
                       in if leaf AND PTE_PRESENT = 0 then 0 else (leaf AND PTE_ADDR_MASK) OR (va AND 0xFFF))"

definition pmap_unmap :: "u64 \<Rightarrow> u64 \<Rightarrow> 'a sched_scheme \<Rightarrow> 'a sched_scheme" where
  "pmap_unmap pml4 va k = (case pmap_pte pml4 va k of None \<Rightarrow> k | Some (t, i) \<Rightarrow> set_entry t i 0 k)"

subsection \<open>Duplicating and freeing\<close>

text \<open>A loop over the present entries of a table that can be left with an error.\<close>

definition each_present :: "nat \<Rightarrow> (nat \<Rightarrow> u64 \<Rightarrow> 'a sched_scheme \<Rightarrow> bool \<times> 'a sched_scheme) \<Rightarrow> u64 \<Rightarrow> 'a sched_scheme \<Rightarrow> bool \<times> 'a sched_scheme" where
  "each_present n body t k =
     fold (\<lambda>i (ok, k). if \<not> ok then (ok, k)
        else let e = pt_entry k t (of_nat i) in if e AND PTE_PRESENT = 0 then (True, k) else body i e k)
       [0 ..< n] (True, k)"

definition fork_page :: "u64 \<Rightarrow> nat \<Rightarrow> nat \<Rightarrow> nat \<Rightarrow> nat \<Rightarrow> u64 \<Rightarrow> 'a sched_scheme \<Rightarrow> bool \<times> 'a sched_scheme" where
  "fork_page child p4 p3 p2 p1 pte k =
     (let pa = pte AND PTE_ADDR_MASK; flags = pte AND NOT (PTE_ADDR_MASK OR PTE_WRITE OR PTE_COW);
          va = push_bit 39 (of_nat p4) OR push_bit 30 (of_nat p3) OR push_bit 21 (of_nat p2) OR push_bit 12 (of_nat p1);
          (frame, k) = alloc_page k
      in if frame = 0 then (False, k)
         else let k = k\<lparr>kmem := memcpy frame (hhdm_of k pa) 4096 (kmem k)\<rparr>;
                  new_pa = frame - hhdm_offset (frames k);
                  k = frame_ref_inc new_pa k
              in (True, pmap_map child va new_pa (flags OR PTE_WRITE) k))"

definition pmap_fork :: "u64 \<Rightarrow> 'a sched_scheme \<Rightarrow> u64 \<times> 'a sched_scheme" where
  "pmap_fork parent k =
     (let (child, k) = pmap_create k
      in if child = 0 then (0, k)
         else let (ok, k) =
                each_present 256 (\<lambda>p4 e4.
                  each_present 512 (\<lambda>p3 e3.
                    each_present 512 (\<lambda>p2 e2.
                      each_present 512 (fork_page child p4 p3 p2) (e2 AND PTE_ADDR_MASK)) (e3 AND PTE_ADDR_MASK)) (e4 AND PTE_ADDR_MASK)) parent k
              in (if ok then child else 0, k))"

definition drop_frame :: "u64 \<Rightarrow> 'a sched_scheme \<Rightarrow> 'a sched_scheme" where
  "drop_frame pa k = (let (lst, k) = frame_ref_dec pa k in if lst then free_page (hhdm_of k pa) k else k)"

definition each_freed :: "nat \<Rightarrow> (u64 \<Rightarrow> 'a sched_scheme \<Rightarrow> 'a sched_scheme) \<Rightarrow> u64 \<Rightarrow> 'a sched_scheme \<Rightarrow> 'a sched_scheme" where
  "each_freed n body t k =
     (let k = fold (\<lambda>i k. let e = pt_entry k t (of_nat i) in if e AND PTE_PRESENT = 0 then k else body (e AND PTE_ADDR_MASK) k) [0 ..< n] k
      in free_page (hhdm_of k t) k)"

definition pmap_destroy :: "u64 \<Rightarrow> 'a sched_scheme \<Rightarrow> 'a sched_scheme" where
  "pmap_destroy pml4 k = each_freed 256 (each_freed 512 (each_freed 512 (each_freed 512 drop_frame))) pml4 k"

subsection \<open>Page faults\<close>

definition grow_stack :: "u64 \<Rightarrow> u64 \<Rightarrow> 'a sched_scheme \<Rightarrow> bool \<times> 'a sched_scheme" where
  "grow_stack pml4 va k =
     (let aligned = va AND NOT 0xFFF
      in if pmap_resolve pml4 aligned k \<noteq> 0 then (False, k)
         else let (frame, k) = alloc_page k
              in if frame = 0 then (False, k)
                 else let k = zero_page frame k
                      in (True, pmap_map pml4 aligned (frame - hhdm_offset (frames k)) (PTE_USER OR PTE_WRITE) k))"

definition cow_break :: "u64 \<Rightarrow> u64 \<Rightarrow> 'a sched_scheme \<Rightarrow> bool \<times> 'a sched_scheme" where
  "cow_break pml4 va k =
     (case pmap_pte pml4 va k of
        None \<Rightarrow> (False, k)
      | Some (t, i) \<Rightarrow>
          let pte = pt_entry k t i; pa = pte AND PTE_ADDR_MASK; flags = pte AND (PTE_USER OR PTE_NOCACHE)
          in if pte AND PTE_COW = 0 then (False, k)
             else if ref_valid k pa \<and> ref_get k pa > 1
             then let k = ref_set pa (ref_get k pa - 1) k; (frame, k) = alloc_page k
                  in if frame = 0 then (False, k)
                     else let new_pa = frame - hhdm_offset (frames k);
                              k = k\<lparr>kmem := memcpy (hhdm_of k new_pa) (hhdm_of k pa) 4096 (kmem k)\<rparr>;
                              k = ref_set new_pa 1 k
                          in (True, set_entry t i (new_pa OR PTE_PRESENT OR PTE_WRITE OR flags) k)
             else (True, set_entry t i ((pte OR PTE_WRITE) AND NOT PTE_COW) k))"

definition pmap_handle_fault :: "u64 \<Rightarrow> u64 \<Rightarrow> 'a sched_scheme \<Rightarrow> bool \<times> 'a sched_scheme" where
  "pmap_handle_fault va err_code k =
     (case sched_get_current k of
        None \<Rightarrow> (False, k)
      | Some c \<Rightarrow>
          let pml4 = pml4_phys (task_at k c); present = bit err_code 0; write = bit err_code 1; user = bit err_code 2
          in if pml4 = 0 then (False, k)
             else if \<not> present
             then if user \<and> va < USER_STACK_TOP_VA \<and> va \<ge> USER_STACK_TOP_VA - USER_STACK_MAX_SIZE
                  then grow_stack pml4 va k else (False, k)
             else if write then cow_break pml4 va k else (False, k))"

subsection \<open>Entries as a map\<close>

definition page_aligned :: "u64 \<Rightarrow> bool" where
  "page_aligned t \<longleftrightarrow> t AND PTE_ADDR_MASK = t"

lemma bit_addr_mask: "bit PTE_ADDR_MASK i \<longleftrightarrow> 12 \<le> i \<and> i < 52"
proof -
  have m: "PTE_ADDR_MASK = push_bit 12 (mask 40)" by (simp add: PTE_ADDR_MASK_def mask_eq_exp_minus_1 push_bit_eq_mult)
  show ?thesis unfolding m by (auto simp: bit_simps)
qed

lemma mask_aligned [simp]: "page_aligned (e AND PTE_ADDR_MASK)"
  by (simp add: page_aligned_def and.assoc)

lemma aligned_bit: "page_aligned t \<Longrightarrow> bit t i \<Longrightarrow> 12 \<le> i \<and> i < 52"
  unfolding page_aligned_def by (metis bit_and_iff bit_addr_mask)

lemma aligned_frame: assumes "page_aligned t" shows "unat t = 4096 * (unat t div 4096)" "unat t < 2 ^ 52"
proof -
  have "take_bit 12 t = 0" by (rule bit_word_eqI) (use aligned_bit [OF assms] in \<open>fastforce simp: bit_simps\<close>)
  then have "unat (take_bit 12 t) = 0" by simp
  then have "unat t mod 4096 = 0" by (simp only: take_bit_eq_mod unat_mod) simp
  then show "unat t = 4096 * (unat t div 4096)" by auto
  have "take_bit 52 t = t" by (rule bit_word_eqI) (use aligned_bit [OF assms] in \<open>fastforce simp: bit_simps\<close>)
  then have "unat (take_bit 52 t) = unat t" by simp
  then have "unat t mod 2 ^ 52 = unat t" by (simp only: take_bit_eq_mod unat_mod) simp
  then show "unat t < 2 ^ 52" by (metis mod_less_divisor zero_less_numeral zero_less_power)
qed

lemma idx_less [simp]: "unat (idx va l) < 512"
proof -
  have "idx va l = take_bit 9 (drop_bit (12 + l * 9) va)" by (simp add: idx_def take_bit_eq_mask mask_eq_exp_minus_1)
  then show ?thesis by (simp add: take_bit_eq_mod unat_mod)
qed

lemma slot_offset:
  assumes "page_aligned t" "unat i < 512" shows "unat (t + 8 * i) = unat t + 8 * unat i"
proof -
  have "unat (8 * i) = 8 * unat i" using assms(2) by (simp add: unat_word_ariths)
  then show ?thesis using aligned_frame [OF assms(1)] assms(2) by (subst unat_add_u64) auto
qed

lemma slot_nat: "4096 * n + 8 * i = 4096 * m + 8 * j \<Longrightarrow> i < 512 \<Longrightarrow> j < 512 \<Longrightarrow> n = m \<and> i = (j :: nat)"
proof -
  assume a: "4096 * n + 8 * i = 4096 * m + 8 * j" "i < 512" "j < 512"
  have "(4096 * n + 8 * i) div 4096 = n" "(4096 * m + 8 * j) div 4096 = m" using a(2,3) by simp_all
  then show ?thesis using a(1) by auto
qed

lemma slot_inj:
  assumes "page_aligned t" "page_aligned t'" "unat i < 512" "unat i' < 512" "t + 8 * i = t' + 8 * i'"
  shows "t = t' \<and> i = i'"
proof -
  have "unat t + 8 * unat i = unat t' + 8 * unat i'" using slot_offset assms by metis
  moreover have "unat t = 4096 * (unat t div 4096)" "unat t' = 4096 * (unat t' div 4096)" using aligned_frame assms by blast+
  ultimately have "unat t div 4096 = unat t' div 4096 \<and> unat i = unat i'"
    using slot_nat [of "unat t div 4096" "unat i" "unat t' div 4096" "unat i'"] assms(3,4) by simp
  then have "unat t = unat t'" "unat i = unat i'" using aligned_frame(1) [OF assms(1)] aligned_frame(1) [OF assms(2)] by simp_all
  then show ?thesis by (simp add: word_unat_eq_iff)
qed

lemma dvd_8_gap: "8 dvd n \<Longrightarrow> 0 < n \<Longrightarrow> n < 2 ^ 64 \<Longrightarrow> 8 \<le> n \<and> 8 \<le> 2 ^ 64 - (n :: nat)"
proof -
  assume a: "8 dvd n" "0 < n" "n < 2 ^ 64"
  obtain j where j: "n = 8 * j" using a(1) by (rule dvdE)
  have "j + 1 \<le> 2 ^ 61" "0 < j" using a(2,3) j by auto
  then show ?thesis using j by simp
qed

lemma apart_words:
  assumes "a \<noteq> b" "8 dvd unat (a - b)" shows "apart a 8 b (8 :: nat)"
proof -
  have "unat (a - b) \<noteq> 0" using assms(1) by (simp add: unat_eq_0)
  moreover have "unat (b - a) = 2 ^ 64 - unat (a - b)"
    using calculation unat_sub_cases [of a b] unat_sub_cases [of b a] unat_u64_less [of a] unat_u64_less [of b] by (auto split: if_splits)
  moreover have "unat (a - b) < 2 ^ 64" by simp
  ultimately show ?thesis using dvd_8_gap [OF assms(2)] unfolding apart_def by auto
qed

lemma pt_entry_set:
  assumes "page_aligned t" "page_aligned t'" "unat i < 512" "unat i' < 512"
  shows "pt_entry (set_entry t i v k) t' i' = (if t = t' \<and> i = i' then v else pt_entry k t' i')"
proof (cases "t = t' \<and> i = i'")
  case False
  let ?a = "hhdm_of k t' + 8 * i'" and ?b = "hhdm_of k t + 8 * i"
  have d: "?a - ?b = (t' + 8 * i') - (t + 8 * i)" by (simp add: hhdm_of_def)
  have "?a \<noteq> ?b"
  proof
    assume "?a = ?b"
    then have "t' + 8 * i' = t + 8 * i" using d by simp
    then show False using slot_inj [of t' t i' i] assms False by auto
  qed
  moreover have "8 dvd unat (?a - ?b)"
  proof -
    have "8 dvd unat x" if "page_aligned x" for x
      by (subst aligned_frame(1) [OF that]) (simp add: dvd_mult2)
    then have "8 dvd unat t'" "8 dvd unat t" using assms by blast+
    then have "8 dvd unat (t' + 8 * i')" "8 dvd unat (t + 8 * i)" using slot_offset assms by auto
    moreover from this have "8 dvd 2 ^ 64 + unat (t' + 8 * i')" by (intro dvd_add) auto
    ultimately show ?thesis unfolding d unat_sub_cases using dvd_diff_nat by presburger
  qed
  ultimately have "apart ?a 8 ?b 8" by (rule apart_words)
  then show ?thesis using False by (auto simp: pt_entry_def set_entry_def hhdm_of_def load_store_apart)
qed (simp add: pt_entry_def set_entry_def hhdm_of_def)

text \<open>Writes into one frame leave the entries of every other table alone.\<close>

definition only_page :: "u64 \<Rightarrow> 'a sched_scheme \<Rightarrow> 'a sched_scheme \<Rightarrow> bool" where
  "only_page t k k' \<longleftrightarrow> hhdm_offset (frames k') = hhdm_offset (frames k) \<and>
     (\<forall>x. 4096 \<le> unat (x - hhdm_of k t) \<longrightarrow> kmem k' x = kmem k x)"

lemma page_gap:
  assumes "page_aligned t" "page_aligned t'" "off < 4096"
  shows "unat (t' + of_nat off - t) < 4096 \<longleftrightarrow> t' = t"
proof -
  have off: "unat (t' + of_nat off) = unat t' + off"
    using aligned_frame [OF assms(2)] assms(3) by (subst unat_add_u64) (simp_all add: unat_of_nat_u64)
  obtain n m where n: "unat t = 4096 * n" "unat t' = 4096 * m" "n < 2 ^ 40" "m < 2 ^ 40"
  proof
    show "unat t div 4096 < 2 ^ 40" "unat t' div 4096 < 2 ^ 40"
      using aligned_frame(2) [OF assms(1)] aligned_frame(2) [OF assms(2)] by (auto intro!: less_mult_imp_div_less)
  qed (use aligned_frame(1) assms in blast)+
  have "t' = t \<longleftrightarrow> m = n" using n by (auto simp: word_unat_eq_iff)
  moreover have "unat (t' + of_nat off - t) < 4096 \<longleftrightarrow> m = n"
  proof (cases "n \<le> m")
    case True
    then have "unat (t' + of_nat off - t) = 4096 * (m - n) + off"
      unfolding unat_sub_cases off n by (simp add: diff_mult_distrib2)
    then show ?thesis using True assms(3) by (cases "m = n") auto
  next
    case False
    then have "4096 * m + off < 4096 * n" using assms(3) by linarith
    then show ?thesis unfolding unat_sub_cases off n using False n(3) by auto
  qed
  ultimately show ?thesis by simp
qed

lemma pt_entry_other:
  assumes "only_page t k k'" "page_aligned t" "page_aligned t'" "t' \<noteq> t" "unat i < 512"
  shows "pt_entry k' t' i = pt_entry k t' i"
proof -
  have h: "hhdm_of k' = hhdm_of k" using assms(1) by (simp add: only_page_def hhdm_of_def fun_eq_iff)
  have "kmem k' (hhdm_of k t' + 8 * i + of_nat j) = kmem k (hhdm_of k t' + 8 * i + of_nat j)" if "j < 8" for j
  proof -
    have "hhdm_of k t' + 8 * i + of_nat j - hhdm_of k t = t' + of_nat (8 * unat i + j) - t" by (simp add: hhdm_of_def)
    moreover have "8 * unat i + j < 4096" using assms(5) that by simp
    ultimately have "4096 \<le> unat (hhdm_of k t' + 8 * i + of_nat j - hhdm_of k t)"
      using page_gap [OF assms(2,3), of "8 * unat i + j"] assms(4) by (metis not_less)
    then show ?thesis using assms(1) unfolding only_page_def by blast
  qed
  then show ?thesis unfolding pt_entry_def h by (intro load_cong) simp
qed

lemma only_page_trans: "only_page t k k' \<Longrightarrow> only_page t k' k'' \<Longrightarrow> only_page t k k''"
  by (auto simp: only_page_def hhdm_of_def)

lemma zero_page_only: "only_page t k (zero_page (hhdm_of k t) k)"
  by (simp add: only_page_def zero_page_def memset_eq fill_mem_def)

lemma pt_entry_zero:
  assumes "page_aligned t" "unat i < 512" shows "pt_entry (zero_page (hhdm_of k t) k) t i = 0"
proof -
  have z: "kmem (zero_page (hhdm_of k t) k) (hhdm_of k t + 8 * i + of_nat j) = 0" if "j < 8" for j
  proof -
    have "hhdm_of k t + 8 * i + of_nat j - hhdm_of k t = t + of_nat (8 * unat i + j) - t" by (simp add: hhdm_of_def)
    then show ?thesis using page_gap [OF assms(1,1), of "8 * unat i + j"] assms(2) that by (simp add: zero_page_def memset_eq fill_mem_def)
  qed
  have h: "hhdm_of (zero_page (hhdm_of k t) k) t = hhdm_of k t" by (simp add: hhdm_of_def zero_page_def)
  show ?thesis unfolding pt_entry_def h by (rule bit_word_eqI) (use z in \<open>auto simp: bit_load\<close>)
qed

end
