(* ===== verification/Block.thy ===== *)
theory Block
  imports Kprintf Vfs
begin

text \<open>
  Block devices, \<open>kernel/src/drivers/blockdev.c\<close>, and MBR partitions, \<open>kernel/src/fs/partition.c\<close>.  The table of
  devices is the list of registered entries, and the same holds for the partitions.  A callback is named by the driver
  it belongs to; the callbacks of the disk drivers are an argument, with a state of their own.  Where \<open>kmalloc\<close> is
  called, a list says whether the next calls succeed; when it is used up, they do.
\<close>

subsection \<open>Devices\<close>

abbreviation BLOCKDEV_MAX :: nat where "BLOCKDEV_MAX \<equiv> 16"
abbreviation BLOCKDEV_NAME_MAX :: nat where "BLOCKDEV_NAME_MAX \<equiv> 16"
abbreviation BLOCK_SECTOR_SIZE :: nat where "BLOCK_SECTOR_SIZE \<equiv> 512"
abbreviation MBR_PARTITION_COUNT :: nat where "MBR_PARTITION_COUNT \<equiv> 4"

datatype block_fn = Fn_ide | Fn_ahci | Fn_part

record blockdev =
  bd_name :: string
  bd_id :: int
  bd_sectors :: u64
  bd_read :: block_fn
  bd_write :: "block_fn option"
  bd_present :: bool

record part_info =
  parent_name :: string
  part_num :: int
  lba_offset :: u32
  total_sectors :: u32
  part_type :: u8
  part_present :: bool

record blktab =
  bdevs :: "blockdev list"
  parts :: "part_info list"

type_synonym 's raw_read = "block_fn \<Rightarrow> int \<Rightarrow> u64 \<Rightarrow> u32 \<Rightarrow> 's \<Rightarrow> int \<times> u8 list \<times> 's"
type_synonym 's raw_write = "block_fn \<Rightarrow> int \<Rightarrow> u64 \<Rightarrow> u8 list \<Rightarrow> 's \<Rightarrow> int \<times> 's"

definition blockdev_init :: "blktab \<Rightarrow> blktab" where
  "blockdev_init b = b\<lparr>bdevs := []\<rparr>"

definition blockdev_register :: "string \<Rightarrow> int \<Rightarrow> u64 \<Rightarrow> block_fn \<Rightarrow> block_fn option \<Rightarrow> blktab \<Rightarrow> int \<times> blktab" where
  "blockdev_register nm i secs rd wr b =
     (if length (bdevs b) \<ge> BLOCKDEV_MAX then (-1, b)
      else (int (length (bdevs b)),
            b\<lparr>bdevs := bdevs b @ [\<lparr>bd_name = take (BLOCKDEV_NAME_MAX - 1) nm, bd_id = i, bd_sectors = secs, bd_read = rd,
                                     bd_write = wr, bd_present = True\<rparr>]\<rparr>))"

definition blockdev_get :: "string \<Rightarrow> blktab \<Rightarrow> blockdev option" where
  "blockdev_get nm b = find (\<lambda>d. bd_present d \<and> bd_name d = nm) (bdevs b)"

definition blockdev_count :: "blktab \<Rightarrow> int" where
  "blockdev_count b = int (length (bdevs b))"

definition blockdev_get_by_index :: "int \<Rightarrow> blktab \<Rightarrow> blockdev option" where
  "blockdev_get_by_index i b = (if i < 0 \<or> i \<ge> blockdev_count b then None else Some (bdevs b ! nat i))"

text \<open>Where the callback of a partition sends a read: the parent device and the sector there.\<close>

definition part_read_cb :: "int \<Rightarrow> u64 \<Rightarrow> blktab \<Rightarrow> (string \<times> u64) option" where
  "part_read_cb i lba b =
     (if i < 0 \<or> i \<ge> int (length (parts b)) then None
      else let p = parts b ! nat i in Some (parent_name p, ucast (lba_offset p) + lba))"

text \<open>The read follows the callbacks; \<open>None\<close> is a chain of partitions that never reaches a disk.\<close>

partial_function (option) blockdev_read ::
  "'s raw_read \<Rightarrow> blktab \<Rightarrow> string \<Rightarrow> u64 \<Rightarrow> u32 \<Rightarrow> 's \<Rightarrow> (int \<times> u8 list \<times> 's) option" where
  "blockdev_read raw b nm lba cnt s =
     (case blockdev_get nm b of
        None \<Rightarrow> Some (-1, [], s)
      | Some d \<Rightarrow>
          if bd_read d = Fn_part
          then (case part_read_cb (bd_id d) lba b of
                  None \<Rightarrow> Some (-1, [], s)
                | Some (up, lba) \<Rightarrow> blockdev_read raw b up lba cnt s)
          else Some (raw (bd_read d) (bd_id d) lba cnt s))"

definition blockdev_write :: "'s raw_write \<Rightarrow> blktab \<Rightarrow> string \<Rightarrow> u64 \<Rightarrow> u8 list \<Rightarrow> 's \<Rightarrow> int \<times> 's" where
  "blockdev_write raw b nm lba buf s =
     (case blockdev_get nm b of
        None \<Rightarrow> (-1, s)
      | Some d \<Rightarrow> (case bd_write d of None \<Rightarrow> (-1, s) | Some f \<Rightarrow> raw f (bd_id d) lba buf s))"

subsection \<open>Partitions\<close>

definition le32 :: "u8 list \<Rightarrow> nat \<Rightarrow> u32" where
  "le32 bs i = ucast (bs ! i) OR push_bit 8 (ucast (bs ! (i + 1))) OR push_bit 16 (ucast (bs ! (i + 2))) OR
     push_bit 24 (ucast (bs ! (i + 3)))"

definition le16 :: "u8 list \<Rightarrow> nat \<Rightarrow> u16" where
  "le16 bs i = ucast (bs ! i) OR push_bit 8 (ucast (bs ! (i + 1)))"

definition kmalloc_ok :: "bool list \<Rightarrow> bool \<times> bool list" where
  "kmalloc_ok ms = (case ms of [] \<Rightarrow> (True, []) | m # ms \<Rightarrow> (m, ms))"

definition part_name :: "string \<Rightarrow> nat \<Rightarrow> string" where
  "part_name nm n = snd (snprintf 16 ''%s%d'' [VA_str (Some nm), VA_num (of_nat n)])"

definition mbr_valid :: "u8 list \<Rightarrow> bool" where
  "mbr_valid mbr \<longleftrightarrow> mbr ! 510 = 0x55 \<and> mbr ! 511 = 0xAA"

text \<open>One entry of the table in the boot sector.\<close>

definition scan_entry :: "u8 list \<Rightarrow> string \<Rightarrow> nat \<Rightarrow> blktab \<Rightarrow> blktab" where
  "scan_entry mbr nm i b =
     (let e = 446 + 16 * i; ty = mbr ! (e + 4); lba = le32 mbr (e + 8); secs = le32 mbr (e + 12)
      in if \<not> length (parts b) < 32 then b
         else if ty = 0 \<or> secs = 0 then b
         else let n = length (parts b);
                  b = snd (blockdev_register (part_name nm (i + 1)) (int n) (ucast secs) Fn_part None b)
              in b\<lparr>parts := parts b @ [\<lparr>parent_name = take 15 nm, part_num = int i + 1, lba_offset = lba, total_sectors = secs,
                                         part_type = ty, part_present = True\<rparr>]\<rparr>)"

definition scan_table :: "u8 list \<Rightarrow> string \<Rightarrow> blktab \<Rightarrow> blktab" where
  "scan_table mbr nm b = fold (scan_entry mbr nm) [0 ..< MBR_PARTITION_COUNT] b"

definition scan_device :: "'s raw_read \<Rightarrow> nat \<Rightarrow> bool list \<times> blktab \<times> 's \<Rightarrow> (bool list \<times> blktab \<times> 's) option" where
  "scan_device raw d = (\<lambda>(ms, b, s).
     case blockdev_get_by_index (int d) b of
       None \<Rightarrow> Some (ms, b, s)
     | Some bd \<Rightarrow>
         (let (ok, ms) = kmalloc_ok ms
          in if \<not> ok then Some (ms, b, s)
             else case blockdev_read raw b (bd_name bd) 0 1 s of
                    None \<Rightarrow> None
                  | Some (rc, mbr, s) \<Rightarrow>
                      if rc \<noteq> 1 then Some (ms, b, s)
                      else if \<not> mbr_valid mbr then Some (ms, b, s)
                      else Some (ms, scan_table mbr (bd_name bd) b, s)))"

primrec scan_devices :: "'s raw_read \<Rightarrow> nat list \<Rightarrow> bool list \<times> blktab \<times> 's \<Rightarrow> (bool list \<times> blktab \<times> 's) option" where
  "scan_devices raw [] st = Some st"
| "scan_devices raw (d # ds) st = (case scan_device raw d st of None \<Rightarrow> None | Some st \<Rightarrow> scan_devices raw ds st)"

definition partition_init :: "'s raw_read \<Rightarrow> bool list \<times> blktab \<times> 's \<Rightarrow> (bool list \<times> blktab \<times> 's) option" where
  "partition_init raw = (\<lambda>(ms, b, s). scan_devices raw [0 ..< length (bdevs b)] (ms, b\<lparr>parts := []\<rparr>, s))"

definition partition_read_sectors ::
  "'s raw_read \<Rightarrow> blktab \<Rightarrow> string \<Rightarrow> u64 \<Rightarrow> u32 \<Rightarrow> 's \<Rightarrow> (int \<times> u8 list \<times> 's) option" where
  "partition_read_sectors raw b nm lba cnt s =
     (case find (\<lambda>p. part_present p \<and> part_name (parent_name p) (nat (part_num p)) = nm) (parts b) of
        Some p \<Rightarrow> blockdev_read raw b (parent_name p) (ucast (lba_offset p) + lba) cnt s
      | None \<Rightarrow> blockdev_read raw b nm lba cnt s)"

subsection \<open>Reads reach a disk\<close>

definition disks_only :: "blktab \<Rightarrow> bool" where
  "disks_only b \<longleftrightarrow> (\<forall>d \<in> set (bdevs b). bd_present d \<and> bd_read d \<noteq> Fn_part \<and> length (bd_name d) \<le> 15)"

text \<open>A table that arose from another by scanning: partitions were added behind its devices, and each hangs off one of them.\<close>

definition scanned :: "blktab \<Rightarrow> blktab \<Rightarrow> bool" where
  "scanned b0 b \<longleftrightarrow> (\<exists>ds. bdevs b = bdevs b0 @ ds \<and> (\<forall>d \<in> set ds. bd_read d = Fn_part)) \<and>
     (\<forall>p \<in> set (parts b). parent_name p \<in> bd_name ` set (bdevs b0))"

lemma scanned_refl: "scanned b (b\<lparr>parts := []\<rparr>)"
  by (simp add: scanned_def)

lemma scan_entry_scanned:
  assumes "scanned b0 b" "nm \<in> bd_name ` set (bdevs b0)" "length nm \<le> 15"
  shows "scanned b0 (scan_entry mbr nm i b)"
  using assms unfolding scanned_def by (auto simp: scan_entry_def blockdev_register_def Let_def)

lemma scan_table_scanned:
  assumes "scanned b0 b" "nm \<in> bd_name ` set (bdevs b0)" "length nm \<le> 15"
  shows "scanned b0 (scan_table mbr nm b)"
proof -
  have "scanned b0 (fold (scan_entry mbr nm) is b)" for "is"
    using assms by (induction "is" arbitrary: b) (simp_all add: scan_entry_scanned)
  then show ?thesis by (simp add: scan_table_def)
qed

lemma find_prefix: "find P xs = Some x \<Longrightarrow> find P (xs @ ys) = Some x"
  by (induction xs) auto

lemma disk_found:
  assumes "scanned b0 b" "disks_only b0" "nm \<in> bd_name ` set (bdevs b0)"
  shows "\<exists>d \<in> set (bdevs b0). blockdev_get nm b = Some d \<and> bd_name d = nm \<and> bd_read d \<noteq> Fn_part"
proof -
  let ?P = "\<lambda>d. bd_present d \<and> bd_name d = nm"
  have "\<exists>d. find ?P (bdevs b0) = Some d" using assms(2,3) by (auto simp: disks_only_def find_None_iff simp flip: not_None_eq)
  then obtain d where d: "find ?P (bdevs b0) = Some d" ..
  then have "d \<in> set (bdevs b0)" "bd_name d = nm" by (auto simp: find_Some_iff)
  moreover have "blockdev_get nm b = Some d" using assms(1) find_prefix [OF d] by (auto simp: scanned_def blockdev_get_def)
  ultimately show ?thesis using assms(2) by (auto simp: disks_only_def)
qed

lemma read_disk:
  "blockdev_get nm b = Some d \<Longrightarrow> bd_read d \<noteq> Fn_part \<Longrightarrow> blockdev_read raw b nm lba cnt s = Some (raw (bd_read d) (bd_id d) lba cnt s)"
  by (simp add: blockdev_read.simps)

lemma read_part:
  assumes "scanned b0 b" "disks_only b0" "p \<in> set (parts b)"
  shows "\<exists>d \<in> set (bdevs b0). bd_name d = parent_name p \<and>
    (\<forall>lba cnt s. blockdev_read raw b (parent_name p) lba cnt s = Some (raw (bd_read d) (bd_id d) lba cnt s))"
proof -
  have "parent_name p \<in> bd_name ` set (bdevs b0)" using assms(1,3) by (simp add: scanned_def)
  then show ?thesis using disk_found [OF assms(1,2)] read_disk by metis
qed

lemma read_total:
  assumes "scanned b0 b" "disks_only b0"
  shows "\<exists>r. blockdev_read raw b nm lba cnt s = Some r"
proof (cases "blockdev_get nm b")
  case (Some d)
  show ?thesis
  proof (cases "bd_read d = Fn_part")
    case True
    show ?thesis
    proof (cases "part_read_cb (bd_id d) lba b")
      case (Some r)
      then obtain p where p: "p \<in> set (parts b)" "r = (parent_name p, ucast (lba_offset p) + lba)"
        by (force simp: part_read_cb_def Let_def split: if_splits intro: that [of "parts b ! nat (bd_id d)"])
      obtain q where "blockdev_read raw b (parent_name p) (ucast (lba_offset p) + lba) cnt s = Some q"
        using read_part [OF assms p(1), of raw] by blast
      then show ?thesis using p(2) Some True \<open>blockdev_get nm b = Some d\<close> by (cases q, subst blockdev_read.simps) simp
    qed (use True Some in \<open>simp add: blockdev_read.simps\<close>)
  qed (use Some in \<open>simp add: read_disk del: split_paired_Ex\<close>)
qed (simp add: blockdev_read.simps)

lemma scan_devices_total:
  assumes "scanned b0 b" "disks_only b0" "\<forall>d \<in> set ds. d < length (bdevs b0)"
  shows "\<exists>ms' b' s'. scan_devices raw ds (ms, b, s) = Some (ms', b', s') \<and> scanned b0 b'"
  using assms(1,3)
proof (induction ds arbitrary: ms b s)
  case (Cons d ds)
  then have d: "blockdev_get_by_index (int d) b = Some (bdevs b0 ! d)" "bdevs b0 ! d \<in> set (bdevs b0)"
    by (auto simp: scanned_def blockdev_get_by_index_def blockdev_count_def nth_append)
  have "\<exists>ms' b' s'. scan_device raw d (ms, b, s) = Some (ms', b', s') \<and> scanned b0 b'"
  proof -
    obtain rc mbr t where "blockdev_read raw b (bd_name (bdevs b0 ! d)) 0 1 s = Some (rc, mbr, t)"
      using read_total [OF Cons.prems(1) assms(2), of raw "bd_name (bdevs b0 ! d)" 0 1 s] by auto
    moreover have "length (bd_name (bdevs b0 ! d)) \<le> 15" using d(2) assms(2) by (simp add: disks_only_def)
    moreover have "scanned b0 (scan_table m (bd_name (bdevs b0 ! d)) b)" for m
      using scan_table_scanned [OF Cons.prems(1)] d(2) calculation(2) by blast
    ultimately show ?thesis using d(1) Cons.prems(1) by (cases "kmalloc_ok ms") (simp add: scan_device_def)
  qed
  then show ?case using Cons by auto
qed simp


definition demo_mbr :: "u8 list" where
  "demo_mbr = replicate 450 0 @ [0x83, 0, 0, 0, 0, 8, 0, 0, 0, 1, 0, 0] @ replicate 48 0 @ [0x55, 0xAA]"

definition demo_raw :: "unit raw_read" where
  "demo_raw f i lba cnt s = (int (unat cnt), demo_mbr, s)"

definition demo_blk :: blktab where
  "demo_blk = snd (blockdev_register ''sda'' 0 0 Fn_ide (Some Fn_ide) \<lparr>bdevs = [], parts = []\<rparr>)"

lemma demo_mbr_bytes: "length demo_mbr = 512" "mbr_valid demo_mbr" "demo_mbr ! 450 = 0x83" "le32 demo_mbr 454 = 2048" "le32 demo_mbr 458 = 256"
  by (simp_all add: demo_mbr_def mbr_valid_def le32_def nth_append)


subsection \<open>The contract of a disk driver\<close>

text \<open>What the layers above rely on: a read that reports success has filled the buffer with whole sectors.\<close>

locale block_driver =
  fixes rd :: "int \<Rightarrow> u64 \<Rightarrow> u32 \<Rightarrow> 's \<Rightarrow> int \<times> u8 list \<times> 's"
  assumes read_result: "rd i lba cnt s = (n, bs, s') \<Longrightarrow> n = -1 \<or> n = c_int (unat cnt) \<and> length bs = BLOCK_SECTOR_SIZE * unat cnt"
begin

lemma read_one: "rd i lba 1 s = (1, bs, s') \<Longrightarrow> length bs = BLOCK_SECTOR_SIZE"
  using read_result by fastforce

lemma read_full:
  assumes "rd i lba cnt s = (n, bs, s')" "unat cnt < 2 ^ 31" "n \<ge> 0"
  shows "n = int (unat cnt)" "length bs = BLOCK_SECTOR_SIZE * nat n"
  using read_result [OF assms(1)] assms(2,3) by (auto simp: c_int_id)

end

end
