(* ===== verification/Ide.thy ===== *)
theory Ide
  imports Ports Block
begin

text \<open>
  The IDE driver, \<open>kernel/src/drivers/ide.c\<close>, over the ports: polling with its limits, reads and writes of sectors by
  programmed I/O, identification.  A buffer is a list of bytes.
\<close>

subsection \<open>Operations\<close>

abbreviation IDE_DATA :: u16 where "IDE_DATA \<equiv> 0x1F0"
abbreviation IDE_ERROR :: u16 where "IDE_ERROR \<equiv> 0x1F1"
abbreviation IDE_SECTOR :: u16 where "IDE_SECTOR \<equiv> 0x1F2"
abbreviation IDE_LBA_LOW :: u16 where "IDE_LBA_LOW \<equiv> 0x1F3"
abbreviation IDE_LBA_MID :: u16 where "IDE_LBA_MID \<equiv> 0x1F4"
abbreviation IDE_LBA_HIGH :: u16 where "IDE_LBA_HIGH \<equiv> 0x1F5"
abbreviation IDE_DRIVE_HEAD :: u16 where "IDE_DRIVE_HEAD \<equiv> 0x1F6"
abbreviation IDE_STATUS :: u16 where "IDE_STATUS \<equiv> 0x1F7"
abbreviation IDE_COMMAND :: u16 where "IDE_COMMAND \<equiv> 0x1F7"
abbreviation IDE_SR_BSY :: u8 where "IDE_SR_BSY \<equiv> 0x80"
abbreviation IDE_SR_DRDY :: u8 where "IDE_SR_DRDY \<equiv> 0x40"
abbreviation IDE_SR_DRQ :: u8 where "IDE_SR_DRQ \<equiv> 0x08"
abbreviation IDE_SR_ERR :: u8 where "IDE_SR_ERR \<equiv> 0x01"
abbreviation IDE_SR_DF :: u8 where "IDE_SR_DF \<equiv> 0x20"
abbreviation IDE_CMD_READ_PIO_EXT :: u8 where "IDE_CMD_READ_PIO_EXT \<equiv> 0x24"
abbreviation IDE_CMD_WRITE_PIO_EXT :: u8 where "IDE_CMD_WRITE_PIO_EXT \<equiv> 0x34"
abbreviation IDE_CMD_IDENTIFY :: u8 where "IDE_CMD_IDENTIFY \<equiv> 0xEC"

primrec poll_bsy :: "nat \<Rightarrow> ports \<Rightarrow> bool \<times> ports" where
  "poll_bsy 0 s = (False, s)"
| "poll_bsy (Suc i) s = (let (v, s) = inb IDE_STATUS s in if v AND IDE_SR_BSY = 0 then (True, s) else poll_bsy i s)"

definition ide_wait_bsy :: "ports \<Rightarrow> bool \<times> ports" where
  "ide_wait_bsy s = poll_bsy 100000 s"

primrec poll_drq :: "nat \<Rightarrow> ports \<Rightarrow> bool \<times> ports" where
  "poll_drq 0 s = (False, s)"
| "poll_drq (Suc i) s =
     (let (v, s) = inb IDE_STATUS s
      in if v AND IDE_SR_ERR \<noteq> 0 then (False, s)
         else if v AND IDE_SR_DF \<noteq> 0 then (False, s)
         else if v AND IDE_SR_DRQ \<noteq> 0 then (True, s)
         else poll_drq i s)"

definition ide_wait_drq :: "ports \<Rightarrow> bool \<times> ports" where
  "ide_wait_drq s = poll_drq 100000 s"

definition ide_select_drive :: "u8 \<Rightarrow> ports \<Rightarrow> ports" where
  "ide_select_drive drive s = io_wait (outb IDE_DRIVE_HEAD (0xA0 OR push_bit 4 drive) s)"

text \<open>The 256 words of a sector as bytes.\<close>

primrec read_words :: "nat \<Rightarrow> ports \<Rightarrow> u8 list \<times> ports" where
  "read_words 0 s = ([], s)"
| "read_words (Suc n) s =
     (let (w, s) = inw IDE_DATA s; (bs, s) = read_words n s in (ucast w # ucast (drop_bit 8 w) # bs, s))"

primrec read_sectors :: "nat \<Rightarrow> ports \<Rightarrow> (bool \<times> u8 list) \<times> ports" where
  "read_sectors 0 s = ((True, []), s)"
| "read_sectors (Suc n) s =
     (let (ok, s) = ide_wait_drq s
      in if \<not> ok then ((False, []), s)
         else let (bs, s) = read_words 256 s; ((ok, rest), s) = read_sectors n s in ((ok, bs @ rest), s))"

text \<open>On a failed sector the short form reads the status and error registers for its message.\<close>

definition read_lba28 :: "u64 \<Rightarrow> u32 \<Rightarrow> ports \<Rightarrow> (bool \<times> u8 list) \<times> ports" where
  "read_lba28 lba cnt s =
     (let s = ide_select_drive 0 s; (ok, s) = ide_wait_bsy s
      in if \<not> ok then ((False, []), s)
         else let (v, s) = inb IDE_STATUS s
              in if v AND IDE_SR_DRDY = 0 then ((False, []), s)
                 else let s = fold (\<lambda>(p, v). outb p v)
                                [(IDE_SECTOR, ucast cnt), (IDE_LBA_LOW, ucast lba), (IDE_LBA_MID, ucast (drop_bit 8 lba)),
                                 (IDE_LBA_HIGH, ucast (drop_bit 16 lba)),
                                 (IDE_DRIVE_HEAD, 0xE0 OR (ucast (drop_bit 24 lba) AND 0x0F)), (IDE_COMMAND, 0x20)] s;
                          ((ok, bs), s) = read_sectors (unat cnt) s
                      in ((ok, bs), if ok then s else snd (inb IDE_ERROR (snd (inb IDE_STATUS s)))))"

text \<open>Programming the registers for a long address, high halves first.\<close>

definition program_lba48 :: "u64 \<Rightarrow> u32 \<Rightarrow> u8 \<Rightarrow> ports \<Rightarrow> ports" where
  "program_lba48 lba cnt command s =
     fold (\<lambda>(p, v). outb p v)
       [(IDE_SECTOR, ucast (drop_bit 8 cnt)), (IDE_LBA_LOW, ucast (drop_bit 24 lba)), (IDE_LBA_MID, ucast (drop_bit 32 lba)),
        (IDE_LBA_HIGH, ucast (drop_bit 40 lba)),
        (IDE_SECTOR, ucast cnt), (IDE_LBA_LOW, ucast lba), (IDE_LBA_MID, ucast (drop_bit 8 lba)),
        (IDE_LBA_HIGH, ucast (drop_bit 16 lba)), (IDE_COMMAND, command)] s"

definition ide_read_lba48 :: "u64 \<Rightarrow> u32 \<Rightarrow> ports \<Rightarrow> (bool \<times> u8 list) \<times> ports" where
  "ide_read_lba48 lba cnt s =
     (if lba + ucast cnt \<le> 0x0FFFFFFF \<and> cnt \<le> 256 then read_lba28 lba cnt s
      else let s = ide_select_drive 0 s; (ok, s) = ide_wait_bsy s
           in if \<not> ok then ((False, []), s)
              else let (v, s) = inb IDE_STATUS s
                   in if v AND IDE_SR_DRDY = 0 then ((False, []), s)
                      else read_sectors (unat cnt) (program_lba48 lba cnt IDE_CMD_READ_PIO_EXT s))"

fun write_words :: "u8 list \<Rightarrow> ports \<Rightarrow> ports" where
  "write_words (a # b # r) s = write_words r (outw IDE_DATA (ucast a OR push_bit 8 (ucast b)) s)"
| "write_words _ s = s"

primrec write_sectors :: "nat \<Rightarrow> u8 list \<Rightarrow> ports \<Rightarrow> bool \<times> ports" where
  "write_sectors 0 src s = (True, s)"
| "write_sectors (Suc n) src s =
     (let (ok, s) = ide_wait_drq s
      in if \<not> ok then (False, s)
         else let s = write_words (take 512 src) s; s = outb IDE_COMMAND 0xE7 s; (ok, s) = ide_wait_bsy s
              in if \<not> ok then (False, s) else write_sectors n (drop 512 src) s)"

definition ide_write_lba48 :: "u64 \<Rightarrow> u32 \<Rightarrow> u8 list \<Rightarrow> ports \<Rightarrow> bool \<times> ports" where
  "ide_write_lba48 lba cnt src s =
     (let s = ide_select_drive 0 s; (ok, s) = ide_wait_bsy s
      in if \<not> ok then (False, s)
         else let (v, s) = inb IDE_STATUS s
              in if v AND IDE_SR_DRDY = 0 then (False, s)
                 else write_sectors (unat cnt) src (program_lba48 lba cnt IDE_CMD_WRITE_PIO_EXT s))"

definition ide_identify :: "u8 \<Rightarrow> ports \<Rightarrow> bool \<times> ports" where
  "ide_identify drive s =
     (let s = ide_select_drive drive s; (ok, s) = ide_wait_bsy s
      in if \<not> ok then (False, s)
         else let s = fold (\<lambda>(p, v). outb p v)
                        [(IDE_SECTOR, 0), (IDE_LBA_LOW, 0), (IDE_LBA_MID, 0), (IDE_LBA_HIGH, 0), (IDE_COMMAND, IDE_CMD_IDENTIFY)] s;
                  (ok, s) = ide_wait_bsy s
              in if \<not> ok then (False, s)
                 else let (status, s) = inb IDE_STATUS s
                      in if status = 0 then (False, s)
                         else let (ok, s) = ide_wait_drq s
                              in if \<not> ok then (False, s)
                                 else let (ident, s) = read_words 256 s in (le16 ident 0 \<noteq> 0, s))"

definition ide_block_read :: "int \<Rightarrow> u64 \<Rightarrow> u32 \<Rightarrow> ports \<Rightarrow> int \<times> u8 list \<times> ports" where
  "ide_block_read i lba cnt s =
     (let ((ok, bs), s) = ide_read_lba48 lba cnt s in (if ok then c_int (unat cnt) else -1, bs, s))"

definition ide_block_write :: "int \<Rightarrow> u64 \<Rightarrow> u32 \<Rightarrow> u8 list \<Rightarrow> ports \<Rightarrow> int \<times> ports" where
  "ide_block_write i lba cnt src s =
     (let (ok, s) = ide_write_lba48 lba cnt src s in (if ok then c_int (unat cnt) else -1, s))"

definition ide_init :: "ports \<times> blktab \<Rightarrow> bool \<times> ports \<times> blktab" where
  "ide_init = (\<lambda>(s, b).
     let (ok, s) = ide_identify 0 s
     in if \<not> ok then (False, s, b) else (True, s, snd (blockdev_register ''sda'' 0 0 Fn_ide (Some Fn_ide) b)))"

subsection \<open>The contract and the data\<close>

lemma read_words_length: "read_words n s = (bs, s') \<Longrightarrow> length bs = 2 * n"
  by (induction n arbitrary: s bs s') (auto simp: Let_def split: prod.splits)

lemma read_sectors_length: "read_sectors n s = ((True, bs), s') \<Longrightarrow> length bs = 512 * n"
  by (induction n arbitrary: s bs s') (auto simp: Let_def dest: read_words_length split: prod.splits if_splits)

lemma ide_read_length: "ide_read_lba48 lba cnt s = ((True, bs), s') \<Longrightarrow> length bs = 512 * unat cnt"
  by (auto simp: ide_read_lba48_def read_lba28_def Let_def dest: read_sectors_length split: prod.splits if_splits)

interpretation ide: block_driver ide_block_read
proof
  fix i lba cnt s n bs s' assume r: "ide_block_read i lba cnt s = (n, bs, s')"
  obtain ok b t where t: "ide_read_lba48 lba cnt s = ((ok, b), t)" by (metis prod.collapse)
  then show "n = -1 \<or> n = c_int (unat cnt) \<and> length bs = BLOCK_SECTOR_SIZE * unat cnt"
    using r ide_read_length [of lba cnt s b t] by (cases ok) (auto simp: ide_block_read_def)
qed

text \<open>A drive that is ready and delivers the sectors: the answers its registers give.\<close>

fun words_of :: "u8 list \<Rightarrow> u32 list" where
  "words_of (a # b # r) = (ucast a OR push_bit 8 (ucast b)) # words_of r"
| "words_of _ = []"

definition sector_answers :: "u8 list \<Rightarrow> u32 list" where
  "sector_answers sec = 0x58 # words_of sec"

lemma read_words_answers:
  "length sec = 2 * n \<Longrightarrow> ins s = words_of sec @ r \<Longrightarrow> read_words n s = (sec, s\<lparr>ins := r\<rparr>)"
proof (induction n arbitrary: sec s)
  case (Suc n)
  then obtain a b rest where sec: "sec = a # b # rest" "length rest = 2 * n" by (auto simp: length_Suc_conv)
  have "ucast (ucast (ucast a OR push_bit 8 (ucast b) :: u32) :: u16) = a" "ucast (drop_bit 8 (ucast (ucast a OR push_bit 8 (ucast b) :: u32) :: u16)) = b"
    by (rule bit_word_eqI; auto simp: bit_simps dest: bit_imp_le_length)+
  then show ?case using Suc.prems sec Suc.IH [of rest "s\<lparr>ins := words_of rest @ r\<rparr>"] by (simp add: inw_def port_in_def)
qed simp

lemma poll_answers:
  assumes "ins s = v # vs" shows "ucast v AND IDE_SR_BSY = 0 \<Longrightarrow> ide_wait_bsy s = (True, s\<lparr>ins := vs\<rparr>)"
    "ucast v AND IDE_SR_ERR = 0 \<Longrightarrow> ucast v AND IDE_SR_DF = 0 \<Longrightarrow> ucast v AND IDE_SR_DRQ \<noteq> 0 \<Longrightarrow> ide_wait_drq s = (True, s\<lparr>ins := vs\<rparr>)"
proof -
  have k: "(100000 :: nat) = Suc 99999" by simp
  show "ucast v AND IDE_SR_BSY = 0 \<Longrightarrow> ide_wait_bsy s = (True, s\<lparr>ins := vs\<rparr>)"
    unfolding ide_wait_bsy_def k using assms by (simp add: inb_def port_in_def del: Suc_numeral)
  show "ucast v AND IDE_SR_ERR = 0 \<Longrightarrow> ucast v AND IDE_SR_DF = 0 \<Longrightarrow> ucast v AND IDE_SR_DRQ \<noteq> 0 \<Longrightarrow> ide_wait_drq s = (True, s\<lparr>ins := vs\<rparr>)"
    unfolding ide_wait_drq_def k using assms by (simp add: inb_def port_in_def del: Suc_numeral)
qed

lemma ready_bits:
  "ucast (0x50 :: u32) AND IDE_SR_BSY = 0" "ucast (0x50 :: u32) AND IDE_SR_DRDY = 0x40" "ucast (0x58 :: u32) AND IDE_SR_ERR = 0"
  "ucast (0x58 :: u32) AND IDE_SR_DF = 0" "ucast (0x58 :: u32) AND IDE_SR_DRQ \<noteq> 0"
  by (code_simp, code_simp, code_simp, code_simp, simp)

lemma read_sectors_answers:
  "\<forall>sec \<in> set secs. length sec = 512 \<Longrightarrow> ins s = concat (map sector_answers secs) @ r \<Longrightarrow>
   read_sectors (length secs) s = ((True, concat secs), s\<lparr>ins := r\<rparr>)"
proof (induction secs arbitrary: s)
  case (Cons sec secs)
  let ?t = "s\<lparr>ins := words_of sec @ concat (map sector_answers secs) @ r\<rparr>"
  have "ins s = 0x58 # words_of sec @ concat (map sector_answers secs) @ r" using Cons.prems(2) by (simp add: sector_answers_def [of sec])
  then have "ide_wait_drq s = (True, ?t)" by (rule poll_answers(2)) (rule ready_bits)+
  moreover have "read_words 256 ?t = (sec, s\<lparr>ins := concat (map sector_answers secs) @ r\<rparr>)"
    using Cons.prems(1) read_words_answers [of sec 256 ?t "concat (map sector_answers secs) @ r"] by simp
  ultimately show ?case using Cons.prems(1) Cons.IH [of "s\<lparr>ins := concat (map sector_answers secs) @ r\<rparr>"] by simp
qed simp

text \<open>
  Reading within the first 128 GiB: the drive is programmed with the sector count and all 28 bits of the address before
  the command, and the buffer then holds the delivered sectors in order.
\<close>

lemma ide_reads_sectors:
  assumes "lba + ucast cnt \<le> 0x0FFFFFFF" "cnt \<le> 256" "length secs = unat cnt" "\<forall>sec \<in> set secs. length sec = 512"
    "ins s = 0x50 # 0x50 # concat (map sector_answers secs) @ r"
  shows "ide_block_read i lba cnt s =
    (int (unat cnt), concat secs, s\<lparr>ins := r, trace := trace s @ [(IDE_DRIVE_HEAD, 0xA0), (0x80, 0), (IDE_SECTOR, ucast (ucast cnt :: u8)),
       (IDE_LBA_LOW, ucast (ucast lba :: u8)), (IDE_LBA_MID, ucast (ucast (drop_bit 8 lba) :: u8)),
       (IDE_LBA_HIGH, ucast (ucast (drop_bit 16 lba) :: u8)),
       (IDE_DRIVE_HEAD, ucast (0xE0 OR (ucast (drop_bit 24 lba) AND 0x0F) :: u8)), (IDE_COMMAND, 0x20)]\<rparr>)"
proof -
  let ?s = "ide_select_drive 0 s"
  have i: "ins ?s = ins s" by (simp add: ide_select_drive_def io_wait_def outb_def port_out_def)
  have "ide_wait_bsy ?s = (True, ?s\<lparr>ins := 0x50 # concat (map sector_answers secs) @ r\<rparr>)"
    using i assms(5) ready_bits(1) by (intro poll_answers(1)) simp
  moreover have "c_int (unat cnt) = int (unat cnt)"
  proof -
    have "unat cnt \<le> 256" using assms(2) by (simp add: word_le_nat_alt)
    then show ?thesis by (simp add: c_int_id)
  qed
  ultimately show ?thesis using assms(1,2,4)
    by (simp add: assms(3) [symmetric] ide_block_read_def ide_read_lba48_def read_lba28_def inb_def port_in_def outb_def port_out_def
        ready_bits read_sectors_answers [where r = r] ide_select_drive_def io_wait_def)
qed

end
