(* ===== verification/Pci.thy ===== *)
theory Pci
  imports Ports
begin

text \<open>
  Enumeration of the PCI bus, \<open>kernel/src/drivers/pci.c\<close>, over the configuration ports.  The table of devices is the
  list of registered entries.
\<close>

subsection \<open>Configuration space\<close>

abbreviation PCI_CONFIG_ADDR :: u16 where "PCI_CONFIG_ADDR \<equiv> 0xCF8"
abbreviation PCI_CONFIG_DATA :: u16 where "PCI_CONFIG_DATA \<equiv> 0xCFC"
abbreviation PCI_MAX_DEVICES :: nat where "PCI_MAX_DEVICES \<equiv> 32"
abbreviation PCI_NO_DEVICE :: u16 where "PCI_NO_DEVICE \<equiv> 0xFFFF"

record pci_device =
  pci_bus :: u8
  pci_dev :: u8
  pci_func :: u8
  vendor_id :: u16
  device_id :: u16
  pci_class :: u8
  pci_subclass :: u8
  prog_if :: u8
  irq_line :: u8
  bar :: "u32 list"
  mmio :: "bool list"
  bar_size :: "u32 list"
  pci_present :: bool

definition config_addr :: "u8 \<Rightarrow> u8 \<Rightarrow> u8 \<Rightarrow> u8 \<Rightarrow> u32" where
  "config_addr bus dev func off =
     push_bit 31 1 OR push_bit 16 (ucast bus) OR push_bit 11 (ucast dev) OR push_bit 8 (ucast func) OR (ucast off AND 0xFC)"

definition pci_config_read32 :: "u8 \<Rightarrow> u8 \<Rightarrow> u8 \<Rightarrow> u8 \<Rightarrow> ports \<Rightarrow> u32 \<times> ports" where
  "pci_config_read32 bus dev func off s = inl PCI_CONFIG_DATA (outl PCI_CONFIG_ADDR (config_addr bus dev func off) s)"

definition pci_config_read16 :: "u8 \<Rightarrow> u8 \<Rightarrow> u8 \<Rightarrow> u8 \<Rightarrow> ports \<Rightarrow> u16 \<times> ports" where
  "pci_config_read16 bus dev func off s =
     (let (v, s) = pci_config_read32 bus dev func off s in (ucast (drop_bit (unat (off AND 2) * 8) v), s))"

definition pci_config_read8 :: "u8 \<Rightarrow> u8 \<Rightarrow> u8 \<Rightarrow> u8 \<Rightarrow> ports \<Rightarrow> u8 \<times> ports" where
  "pci_config_read8 bus dev func off s =
     (let (v, s) = pci_config_read32 bus dev func off s in (ucast (drop_bit (unat (off AND 3) * 8) v), s))"

definition pci_config_write32 :: "u8 \<Rightarrow> u8 \<Rightarrow> u8 \<Rightarrow> u8 \<Rightarrow> u32 \<Rightarrow> ports \<Rightarrow> ports" where
  "pci_config_write32 bus dev func off v s =
     outl PCI_CONFIG_DATA v (outl PCI_CONFIG_ADDR (config_addr bus dev func off) s)"

definition size_of_bar :: "u32 \<Rightarrow> u32 \<Rightarrow> u32" where
  "size_of_bar original sz =
     (if sz = 0 \<or> sz = 0xFFFFFFFF then 0
      else if original AND 1 \<noteq> 0 then NOT (sz AND 0xFFFFFFFC) + 1
      else NOT (sz AND 0xFFFFFFF0) + 1)"

definition pci_bar_size :: "u8 \<Rightarrow> u8 \<Rightarrow> u8 \<Rightarrow> nat \<Rightarrow> ports \<Rightarrow> u32 \<times> ports" where
  "pci_bar_size bus dev func i s =
     (let off = 0x10 + of_nat i * 4;
          (original, s) = pci_config_read32 bus dev func off s;
          s = pci_config_write32 bus dev func off 0xFFFFFFFF s;
          (sz, s) = pci_config_read32 bus dev func off s;
          s = pci_config_write32 bus dev func off original s
      in (size_of_bar original sz, s))"

subsection \<open>Scanning\<close>

definition read_bar :: "u8 \<Rightarrow> u8 \<Rightarrow> u8 \<Rightarrow> nat \<Rightarrow> (u32 \<times> u32) list \<times> ports \<Rightarrow> (u32 \<times> u32) list \<times> ports" where
  "read_bar bus dev func i = (\<lambda>(bs, s).
     let (b, s) = pci_config_read32 bus dev func (0x10 + of_nat i * 4) s; (sz, s) = pci_bar_size bus dev func i s
     in (bs @ [(b, sz)], s))"

text \<open>Recording one function; the flag tells whether a device was recorded.\<close>

definition scan_one :: "u8 \<Rightarrow> u8 \<Rightarrow> u8 \<Rightarrow> pci_device list \<times> ports \<Rightarrow> bool \<times> pci_device list \<times> ports" where
  "scan_one bus dev func = (\<lambda>(ds, s).
     let (vid, s) = pci_config_read16 bus dev func 0 s
     in if vid = PCI_NO_DEVICE then (False, ds, s)
        else if length ds \<ge> PCI_MAX_DEVICES then (False, ds, s)
        else let (did, s) = pci_config_read16 bus dev func 2 s;
                 (cw, s) = pci_config_read32 bus dev func 8 s;
                 (irq, s) = pci_config_read8 bus dev func 0x3C s;
                 (bs, s) = fold (read_bar bus dev func) [0 ..< 6] ([], s)
             in (True, ds @ [\<lparr>pci_bus = bus, pci_dev = dev, pci_func = func, vendor_id = vid, device_id = did,
                    pci_class = ucast (drop_bit 24 cw), pci_subclass = ucast (drop_bit 16 cw), prog_if = ucast (drop_bit 8 cw),
                    irq_line = irq, bar = map fst bs, mmio = map (\<lambda>(b, _). b AND 1 = 0) bs, bar_size = map snd bs,
                    pci_present = True\<rparr>], s))"

definition pci_scan_function :: "u8 \<Rightarrow> u8 \<Rightarrow> u8 \<Rightarrow> pci_device list \<times> ports \<Rightarrow> pci_device list \<times> ports" where
  "pci_scan_function bus dev func st =
     (let (added, ds, s) = scan_one bus dev func st
      in if added \<and> func = 0
         then let (ht, s) = pci_config_read8 bus dev func 0x0E s
              in if ht AND 0x80 \<noteq> 0 then fold (\<lambda>f st. snd (scan_one bus dev (of_nat f) st)) [1 ..< 8] (ds, s) else (ds, s)
         else (ds, s))"

definition pci_scan_device :: "u8 \<Rightarrow> u8 \<Rightarrow> pci_device list \<times> ports \<Rightarrow> pci_device list \<times> ports" where
  "pci_scan_device bus dev = (\<lambda>(ds, s).
     let (vid, s) = pci_config_read16 bus dev 0 0 s
     in if vid = PCI_NO_DEVICE then (ds, s) else pci_scan_function bus dev 0 (ds, s))"

definition pci_scan_bus :: "u8 \<Rightarrow> pci_device list \<times> ports \<Rightarrow> pci_device list \<times> ports" where
  "pci_scan_bus bus st = fold (\<lambda>dev. pci_scan_device bus (of_nat dev)) [0 ..< 32] st"

definition pci_init :: "ports \<Rightarrow> pci_device list \<times> ports" where
  "pci_init s = pci_scan_bus 1 (pci_scan_bus 0 ([], s))"

definition pci_find_device :: "u8 \<Rightarrow> u8 \<Rightarrow> pci_device list \<Rightarrow> pci_device option" where
  "pci_find_device cl sub ds = find (\<lambda>d. pci_class d = cl \<and> pci_subclass d = sub) ds"

definition pci_get_device :: "int \<Rightarrow> pci_device list \<Rightarrow> pci_device option" where
  "pci_get_device i ds = (if i < 0 \<or> i \<ge> int (length ds) then None else Some (ds ! nat i))"

subsection \<open>The table\<close>

text \<open>The devices stand in the order of their addresses on the bus, each address at most once.\<close>

definition pci_key :: "pci_device \<Rightarrow> nat" where
  "pci_key d = unat (pci_bus d) * 256 + unat (pci_dev d) * 8 + unat (pci_func d)"

definition table_ok :: "nat \<Rightarrow> pci_device list \<Rightarrow> bool" where
  "table_ok bound ds \<longleftrightarrow> length ds \<le> PCI_MAX_DEVICES \<and> sorted_wrt (<) (map pci_key ds) \<and>
     (\<forall>d \<in> set ds. pci_key d < bound \<and> pci_present d \<and> vendor_id d \<noteq> PCI_NO_DEVICE \<and> length (bar d) = 6 \<and> length (bar_size d) = 6 \<and> length (mmio d) = 6)"

lemma table_ok_mono: "table_ok b ds \<Longrightarrow> b \<le> b' \<Longrightarrow> table_ok b' ds"
  by (auto simp: table_ok_def)

lemma read_bars_length: "length (fst (fold (read_bar bus dev func) is st)) = length (fst st) + length is"
  by (induction "is" arbitrary: st) (auto simp: read_bar_def split: prod.splits)

lemma scan_one_ok:
  assumes "table_ok k (fst st)" "k = unat bus * 256 + unat dev * 8 + unat func"
  shows "table_ok (k + 1) (fst (snd (scan_one bus dev func st)))"
proof (cases "fst (scan_one bus dev func st)")
  case True
  obtain ds s where st: "st = (ds, s)" by (cases st)
  obtain vid s1 where 1: "pci_config_read16 bus dev func 0 s = (vid, s1)" by (metis prod.collapse)
  obtain did s2 where 2: "pci_config_read16 bus dev func 2 s1 = (did, s2)" by (metis prod.collapse)
  obtain cw s3 where 3: "pci_config_read32 bus dev func 8 s2 = (cw, s3)" by (metis prod.collapse)
  obtain irq s4 where 4: "pci_config_read8 bus dev func 0x3C s3 = (irq, s4)" by (metis prod.collapse)
  obtain bs s5 where 5: "fold (read_bar bus dev func) [0 ..< 6] ([], s4) = (bs, s5)" by (metis prod.collapse)
  have 6: "length bs = 6" using read_bars_length [of bus dev func "[0 ..< 6]" "([], s4)"] unfolding 5 by simp
  have g: "vid \<noteq> PCI_NO_DEVICE" "length ds < PCI_MAX_DEVICES"
    using True by (auto simp: st scan_one_def 1 split: if_splits)
  define d where "d = \<lparr>pci_bus = bus, pci_dev = dev, pci_func = func, vendor_id = vid, device_id = did,
    pci_class = ucast (drop_bit 24 cw), pci_subclass = ucast (drop_bit 16 cw), prog_if = ucast (drop_bit 8 cw),
    irq_line = irq, bar = map fst bs, mmio = map (\<lambda>(b, _). b AND 1 = 0) bs, bar_size = map snd bs, pci_present = True\<rparr>"
  have "fst (snd (scan_one bus dev func st)) = ds @ [d]"
    using g by (simp add: st scan_one_def 1 2 3 4 5 d_def del: upt_rec_numeral)
  moreover have "pci_key d = k" "pci_present d" "vendor_id d \<noteq> PCI_NO_DEVICE" "length (bar d) = 6" "length (bar_size d) = 6" "length (mmio d) = 6"
    using g 6 by (simp_all add: d_def pci_key_def assms(2))
  ultimately show ?thesis using g using assms(1) by (auto simp: st table_ok_def sorted_wrt_append)
next
  case False
  then have "fst (snd (scan_one bus dev func st)) = fst st"
    by (auto simp: scan_one_def Let_def split: prod.splits if_splits)
  then show ?thesis using table_ok_mono [OF assms(1)] by simp
qed

lemma scan_functions_ok:
  assumes "table_ok (k + a) (fst st)" "k = unat bus * 256 + unat dev * 8" "a \<le> b" "b \<le> 8"
  shows "table_ok (k + b) (fst (fold (\<lambda>f st. snd (scan_one bus dev (of_nat f) st)) [a ..< b] st))"
  using assms(3,4)
proof (induction b)
  case (Suc b)
  show ?case
  proof (cases "a \<le> b")
    case True
    have "unat (of_nat b :: u8) = b" using Suc.prems by (simp add: unsigned_of_nat take_bit_nat_eq_self)
    then show ?thesis using Suc True scan_one_ok [of "k + b" "fold (\<lambda>f st. snd (scan_one bus dev (of_nat f) st)) [a ..< b] st" bus dev "of_nat b"] assms(2)
      by simp
  qed (use assms(1) Suc.prems in \<open>simp add: le_Suc_eq\<close>)
qed (use assms(1) in simp)

lemma scan_device_ok:
  assumes "table_ok k (fst st)" "k = unat bus * 256 + unat dev * 8"
  shows "table_ok (k + 8) (fst (pci_scan_device bus dev st))"
proof -
  obtain ds s where st: "st = (ds, s)" by (cases st)
  obtain vid t where t: "pci_config_read16 bus dev 0 0 s = (vid, t)" by (metis prod.collapse)
  obtain added ds1 s1 where one: "scan_one bus dev 0 (ds, t) = (added, ds1, s1)" by (metis prod.collapse)
  have ok: "table_ok (k + 1) ds1" using scan_one_ok [of k "(ds, t)" bus dev 0] assms one by (simp add: st)
  obtain ht s2 where h: "pci_config_read8 bus dev 0 0x0E s1 = (ht, s2)" by (metis prod.collapse)
  have "table_ok (k + 8) (fst (fold (\<lambda>f st. snd (scan_one bus dev (of_nat f) st)) [1 ..< 8] (ds1, s2)))"
    using scan_functions_ok [of k 1 "(ds1, s2)" bus dev 8] ok assms(2) by simp
  moreover have "table_ok (k + 8) ds" "table_ok (k + 8) ds1" using assms(1) ok by (auto simp: st intro: table_ok_mono)
  moreover have "pci_scan_device bus dev st = (if vid = PCI_NO_DEVICE then (ds, t)
      else if added then (if ht AND 0x80 \<noteq> 0 then fold (\<lambda>f st. snd (scan_one bus dev (of_nat f) st)) [1 ..< 8] (ds1, s2) else (ds1, s2))
      else (ds1, s1))"
    unfolding pci_scan_device_def pci_scan_function_def st prod.case t one Let_def h by simp
  ultimately show ?thesis by (simp only: fst_conv split: if_split) simp
qed

lemma scan_bus_ok:
  assumes "table_ok (unat bus * 256) (fst st)"
  shows "table_ok (unat bus * 256 + 256) (fst (pci_scan_bus bus st))"
proof -
  have "n \<le> 32 \<Longrightarrow> table_ok (unat bus * 256 + 8 * n) (fst (fold (\<lambda>dev. pci_scan_device bus (of_nat dev)) [0 ..< n] st))" for n
  proof (induction n)
    case (Suc n)
    have "unat (of_nat n :: u8) = n" using Suc.prems by (simp add: unsigned_of_nat take_bit_nat_eq_self)
    then show ?case using Suc scan_device_ok [of "unat bus * 256 + 8 * n" "fold (\<lambda>dev. pci_scan_device bus (of_nat dev)) [0 ..< n] st" bus "of_nat n"]
      by (simp add: algebra_simps)
  qed (use assms in simp)
  from this [of 32] show ?thesis by (simp add: pci_scan_bus_def)
qed

lemma pci_init_table: "table_ok 512 (fst (pci_init s))"
proof -
  have "table_ok 0 []" by (simp add: table_ok_def)
  then have "table_ok 256 (fst (pci_scan_bus 0 ([], s)))" using scan_bus_ok [of 0 "([], s)"] by simp
  then show ?thesis using scan_bus_ok [of 1 "pci_scan_bus 0 ([], s)"] by (simp add: pci_init_def)
qed

text \<open>A memory window of a power of two that answers the probe with its mask is measured exactly.\<close>

lemma memory_bar_size:
  assumes "4 \<le> n" "n < 32" "original AND 1 = 0" "m AND 0xE = m"
  shows "size_of_bar original (NOT (mask n) OR m) = 2 ^ n"
proof -
  have m: "bit m k \<Longrightarrow> 1 \<le> k \<and> k < 4" for k
  proof -
    assume "bit m k"
    then have "bit (0xE :: u32) k" using assms(4) by (metis bit_and_iff)
    then have "bit (mask 4 AND NOT 1 :: u32) k" by (simp add: mask_eq_exp_minus_1)
    then show "1 \<le> k \<and> k < 4" by (auto simp: bit_simps)
  qed
  have f0: "bit (0xFFFFFFF0 :: u32) k \<longleftrightarrow> 4 \<le> k \<and> k < 32" for k
  proof -
    have "(0xFFFFFFF0 :: u32) = NOT (mask 4)" by code_simp
    then show ?thesis by (simp only: bit_simps) auto
  qed
  have "\<not> bit (NOT (mask n) OR m :: u32) 0" using m [of 0] assms(1) by (auto simp: bit_simps)
  moreover have "bit (0xFFFFFFFF :: u32) 0" by simp
  ultimately have a: "NOT (mask n) OR m \<noteq> (0xFFFFFFFF :: u32)" by metis
  have "bit (NOT (mask n) OR m :: u32) 31" using assms(2) by (simp add: bit_simps)
  then have b: "NOT (mask n) OR m \<noteq> (0 :: u32)" by (metis bit_0_eq bot_apply bot_bool_def)
  have "(NOT (mask n) OR m) AND 0xFFFFFFF0 = (NOT (mask n) :: u32)"
  proof (rule bit_word_eqI)
    fix k assume "k < LENGTH(32)"
    then show "bit ((NOT (mask n) OR m) AND 0xFFFFFFF0) k = bit (NOT (mask n) :: u32) k"
      using m [of k] assms(1) by (simp only: bit_and_iff bit_or_iff f0) (auto simp: bit_simps)
  qed
  then show ?thesis using a b assms(3) by (simp add: size_of_bar_def mask_eq_exp_minus_1)
qed

end
