(* ===== verification/Ext2.thy ===== *)
theory Ext2
  imports Block "HOL-Library.Monad_Syntax"
begin

text \<open>
  The read-only Ext2 driver, \<open>kernel/src/fs/ext2.c\<close>, over the partition layer.  The on-disk structures carry the fields
  the code reads.  A result \<open>None\<close> means that the call does not return: a loop without end or a division by zero, which
  the processor answers with an exception.  Bytes outside a buffer are unspecified.  As in \<open>Block\<close> a list says which of the
  next calls of \<open>kmalloc\<close> succeed.
\<close>

subsection \<open>Structures\<close>

abbreviation EXT2_SUPER_MAGIC :: u16 where "EXT2_SUPER_MAGIC \<equiv> 0xEF53"
abbreviation EXT2_ROOT_INO :: u32 where "EXT2_ROOT_INO \<equiv> 2"
abbreviation EXT2_FT_DIR :: u8 where "EXT2_FT_DIR \<equiv> 2"
abbreviation EXT2_S_IFDIR :: u16 where "EXT2_S_IFDIR \<equiv> 0x4000"
abbreviation EXT2_S_IFMT :: u16 where "EXT2_S_IFMT \<equiv> 0xF000"
abbreviation DIRENT_SIZE :: nat where "DIRENT_SIZE \<equiv> 8"
abbreviation BGD_SIZE :: nat where "BGD_SIZE \<equiv> 32"

record ext2_superblock =
  s_inodes_count :: u32
  s_blocks_count :: u32
  s_first_data_block :: u32
  s_log_block_size :: u32
  s_blocks_per_group :: u32
  s_inodes_per_group :: u32
  s_magic :: u16
  s_inode_size :: u16

record ext2_inode =
  i_mode :: u16
  i_size :: u32
  i_block :: "u32 list"

record ext2_dirent =
  d_inode :: u32
  rec_len :: u16
  name_len :: u8
  file_type :: u8

record 's ext2 =
  disks :: blktab
  dsk :: 's
  mallocs :: "bool list"
  dev_name :: string
  super :: ext2_superblock
  bgd :: "u8 list"
  block_size :: u32
  blocks_per_group :: u32
  inodes_per_group :: u32
  inode_size :: u32
  bgd_count :: u32
  mounted :: bool

definition superblock_of :: "u8 list \<Rightarrow> ext2_superblock" where
  "superblock_of b = \<lparr>s_inodes_count = le32 b 0, s_blocks_count = le32 b 4, s_first_data_block = le32 b 20,
     s_log_block_size = le32 b 24, s_blocks_per_group = le32 b 32, s_inodes_per_group = le32 b 40, s_magic = le16 b 56,
     s_inode_size = le16 b 88\<rparr>"

definition inode_of :: "u8 list \<Rightarrow> nat \<Rightarrow> ext2_inode" where
  "inode_of b i = \<lparr>i_mode = le16 b i, i_size = le32 b (i + 4), i_block = map (\<lambda>k. le32 b (i + 40 + 4 * k)) [0 ..< 15]\<rparr>"

definition dirent_of :: "u8 list \<Rightarrow> ext2_dirent" where
  "dirent_of b = \<lparr>d_inode = le32 b 0, rec_len = le16 b 4, name_len = b ! 6, file_type = b ! 7\<rparr>"

definition udiv :: "u32 \<Rightarrow> u32 \<Rightarrow> u32 option" where
  "udiv a b = (if b = 0 then None else Some (a div b))"

definition kmalloc_next :: "nat \<Rightarrow> 's ext2 \<Rightarrow> bool \<times> 's ext2" where
  "kmalloc_next n e = (if n = 0 then (False, e) else let (ok, ms) = kmalloc_ok (mallocs e) in (ok, e\<lparr>mallocs := ms\<rparr>))"

subsection \<open>Blocks\<close>

definition read_sectors_at :: "'s raw_read \<Rightarrow> u64 \<Rightarrow> u32 \<Rightarrow> 's ext2 \<Rightarrow> ((int \<times> u8 list) \<times> 's ext2) option" where
  "read_sectors_at raw lba cnt e =
     do { (n, bs, s) \<leftarrow> partition_read_sectors raw (disks e) (dev_name e) lba cnt (dsk e);
          Some ((n, bs), e\<lparr>dsk := s\<rparr>) }"

definition sectors_per :: "'s ext2 \<Rightarrow> u32" where
  "sectors_per e = block_size e div 512"

definition read_block :: "'s raw_read \<Rightarrow> u32 \<Rightarrow> 's ext2 \<Rightarrow> ((int \<times> u8 list) \<times> 's ext2) option" where
  "read_block raw b e = read_sectors_at raw (ucast b * ucast (sectors_per e)) (sectors_per e) e"

primrec read_blocks :: "'s raw_read \<Rightarrow> nat \<Rightarrow> u32 \<Rightarrow> 's ext2 \<Rightarrow> (u8 list option \<times> 's ext2) option" where
  "read_blocks raw 0 start e = Some (Some [], e)"
| "read_blocks raw (Suc n) start e =
     do { ((rc, bs), e) \<leftarrow> read_block raw start e;
          if rc \<noteq> c_int (unat (sectors_per e)) then Some (None, e)
          else do { (rest, e) \<leftarrow> read_blocks raw n (start + 1) e; Some (map_option (\<lambda>r. bs @ r) rest, e) } }"

text \<open>A block in a fresh buffer, as the routines below read it; \<open>None\<close> inside when memory or the disk fails.\<close>

definition load_block :: "'s raw_read \<Rightarrow> u32 \<Rightarrow> 's ext2 \<Rightarrow> (u8 list option \<times> 's ext2) option" where
  "load_block raw b e =
     (let (ok, e) = kmalloc_next (unat (block_size e)) e
      in if \<not> ok then Some (None, e)
         else do { ((rc, bs), e) \<leftarrow> read_block raw b e;
                   Some (if rc \<noteq> c_int (unat (sectors_per e)) then None else Some bs, e) })"

subsection \<open>Mounting\<close>

definition ext2_read_superblock :: "'s raw_read \<Rightarrow> 's ext2 \<Rightarrow> (bool \<times> 's ext2) option" where
  "ext2_read_superblock raw e =
     (let (ok, e) = kmalloc_next 1024 e
      in if \<not> ok then Some (False, e)
         else do { ((rc, bs), e) \<leftarrow> read_sectors_at raw 2 2 e;
                   if rc \<noteq> 2 then Some (False, e)
                   else (let sb = superblock_of bs; e = e\<lparr>super := sb\<rparr>
                        in if s_magic sb \<noteq> EXT2_SUPER_MAGIC then Some (False, e)
                           else (let e = e\<lparr>block_size := push_bit (unat (s_log_block_size sb)) 1024,
                                          blocks_per_group := s_blocks_per_group sb, inodes_per_group := s_inodes_per_group sb,
                                          inode_size := if s_inode_size sb \<noteq> 0 then ucast (s_inode_size sb) else 128\<rparr>
                                in do { n \<leftarrow> udiv (s_blocks_count sb + blocks_per_group e - 1) (blocks_per_group e);
                                        Some (True, e\<lparr>bgd_count := n\<rparr>) })) })"

definition ext2_read_bgd :: "'s raw_read \<Rightarrow> 's ext2 \<Rightarrow> (bool \<times> 's ext2) option" where
  "ext2_read_bgd raw e =
     (if block_size e = 0 then None
      else let n = ucast ((ucast (bgd_count e) * of_nat BGD_SIZE + ucast (block_size e) - 1) div ucast (block_size e) :: u64) :: u32;
               (ok, e) = kmalloc_next (unat (n * block_size e)) e
           in if \<not> ok then Some (False, e\<lparr>bgd := []\<rparr>)
              else do { (r, e) \<leftarrow> read_blocks raw (unat n) (s_first_data_block (super e) + 1) e;
                        (case r of None \<Rightarrow> Some (False, e\<lparr>bgd := []\<rparr>) | Some bs \<Rightarrow> Some (True, e\<lparr>bgd := bs\<rparr>)) })"

definition ext2_mount :: "'s raw_read \<Rightarrow> string \<Rightarrow> 's ext2 \<Rightarrow> (bool \<times> 's ext2) option" where
  "ext2_mount raw nm e =
     (if mounted e then Some (False, e)
      else do { (ok, e) \<leftarrow> ext2_read_superblock raw (e\<lparr>dev_name := take 15 nm\<rparr>);
                if \<not> ok then Some (False, e)
                else do { (ok, e) \<leftarrow> ext2_read_bgd raw e;
                          if \<not> ok then Some (False, e) else Some (True, e\<lparr>mounted := True\<rparr>) } })"

subsection \<open>Inodes\<close>

definition read_inode :: "'s raw_read \<Rightarrow> u32 \<Rightarrow> 's ext2 \<Rightarrow> (ext2_inode option \<times> 's ext2) option" where
  "read_inode raw ino e =
     (if ino = 0 then Some (None, e)
      else do { group \<leftarrow> udiv (ino - 1) (inodes_per_group e);
                (let index = (ino - 1) mod inodes_per_group e
                in if group \<ge> bgd_count e then Some (None, e)
                   else let table = le32 (bgd e) (BGD_SIZE * unat group + 8);
                            offset = ucast index * ucast (inode_size e) :: u64
                        in if block_size e = 0 then None
                           else do { (r, e) \<leftarrow> load_block raw (table + ucast (offset div ucast (block_size e))) e;
                                     Some (map_option (\<lambda>bs. inode_of bs (unat (offset mod ucast (block_size e)))) r, e) }) })"

definition get_inode_block :: "'s raw_read \<Rightarrow> ext2_inode \<Rightarrow> u32 \<Rightarrow> 's ext2 \<Rightarrow> (u32 \<times> 's ext2) option" where
  "get_inode_block raw inode logical e =
     (let ptrs = block_size e div 4
      in if logical < 12 then Some (i_block inode ! unat logical, e)
         else let logical = logical - 12
              in if logical < ptrs
                 then do { (r, e) \<leftarrow> load_block raw (i_block inode ! 12) e;
                           Some (case r of None \<Rightarrow> 0 | Some bs \<Rightarrow> le32 bs (4 * unat logical), e) }
                 else let logical = logical - ptrs
                      in do { di_idx \<leftarrow> udiv logical ptrs;
                              (let di_off = logical mod ptrs
                              in do { (r, e) \<leftarrow> load_block raw (i_block inode ! 13) e;
                                      (case r of
                                        None \<Rightarrow> Some (0, e)
                                      | Some dind \<Rightarrow>
                                          let next_block = le32 dind (4 * unat di_idx)
                                          in if next_block = 0 then Some (0, e)
                                             else do { (r, e) \<leftarrow> load_block raw next_block e;
                                                       Some (case r of None \<Rightarrow> 0 | Some bs \<Rightarrow> le32 bs (4 * unat di_off), e) }) }) })"

text \<open>What one round of the copying loop stores: \<open>None\<close> inside when the read stops there.\<close>

definition read_piece :: "'s raw_read \<Rightarrow> ext2_inode \<Rightarrow> u64 \<Rightarrow> u32 \<Rightarrow> 's ext2 \<Rightarrow> (u8 list option \<times> 's ext2) option" where
  "read_piece raw inode offset to_copy e =
     do { (phys, e) \<leftarrow> get_inode_block raw inode (ucast (offset div ucast (block_size e))) e;
          if phys = 0 then Some (Some (replicate (unat to_copy) 0), e)
          else do { (r, e) \<leftarrow> load_block raw phys e;
                    Some (map_option (\<lambda>bs. map (\<lambda>i. bs ! (unat (offset mod ucast (block_size e)) + i)) [0 ..< unat to_copy]) r, e) } }"

definition piece_len :: "u32 \<Rightarrow> u64 \<Rightarrow> u32 \<Rightarrow> u32" where
  "piece_len bs offset cnt = (let n = bs - ucast (offset mod ucast bs) in if n > cnt then cnt else n)"

lemma mod_word_less: "b \<noteq> 0 \<Longrightarrow> ucast (a mod ucast b :: u64) < (b :: u32)"
proof -
  assume b: "b \<noteq> 0"
  have u: "unat (ucast b :: u64) = unat b" using unat_u32_less [of b] by (simp add: unsigned_ucast_eq take_bit_nat_eq_self)
  have "unat (a mod ucast b) < unat b" using b by (simp add: unat_mod u mod_less_divisor unat_gt_0)
  moreover have "unat (ucast (a mod ucast b :: u64) :: u32) \<le> unat (a mod ucast b :: u64)"
    by (simp add: unsigned_ucast_eq)
  ultimately show ?thesis by (simp add: word_less_nat_alt)
qed

lemma piece_len_pos: "bs \<noteq> 0 \<Longrightarrow> cnt \<noteq> 0 \<Longrightarrow> 0 < unat (piece_len bs offset cnt)" "piece_len bs offset cnt \<le> cnt"
proof -
  show "piece_len bs offset cnt \<le> cnt" by (auto simp: piece_len_def Let_def)
  show "0 < unat (piece_len bs offset cnt)" if "bs \<noteq> 0" "cnt \<noteq> 0"
    using mod_word_less [OF that(1), of offset] that by (auto simp: piece_len_def Let_def unat_gt_0)
qed

function read_data_loop :: "'s raw_read \<Rightarrow> ext2_inode \<Rightarrow> u64 \<Rightarrow> u32 \<Rightarrow> u8 list \<Rightarrow> 's ext2 \<Rightarrow> (u8 list \<times> 's ext2) option" where
  "read_data_loop raw inode offset cnt acc e =
     (if cnt = 0 then Some (acc, e)
      else if block_size e = 0 then None
      else let to_copy = piece_len (block_size e) offset cnt
           in case read_piece raw inode offset to_copy e of
                None \<Rightarrow> None
              | Some (None, e) \<Rightarrow> Some (acc, e)
              | Some (Some bs, e) \<Rightarrow> read_data_loop raw inode (offset + ucast to_copy) (cnt - to_copy) (acc @ bs) e)"
  by pat_completeness auto
termination
proof (relation "measure (\<lambda>(raw, inode, offset, cnt, acc, e). unat cnt)", simp)
  fix offset cnt and e :: "'s ext2" and n
  assume "cnt \<noteq> 0" "block_size e \<noteq> 0" "n = piece_len (block_size e) offset cnt"
  then have "0 < unat n" "n \<le> cnt" using piece_len_pos by blast+
  then have "unat (cnt - n) < unat cnt" by (simp add: unat_sub word_le_nat_alt)
  then show "((raw, inode, offset + ucast n, cnt - n, acc, e'), raw, inode, offset, cnt, acc', e)
      \<in> measure (\<lambda>(raw, inode, offset, cnt, acc, e). unat cnt)" for raw inode acc acc' and e' :: "'s ext2" by simp
qed

declare read_data_loop.simps [simp del]

text \<open>The bytes stored; the C function returns their number.\<close>

definition read_inode_data :: "'s raw_read \<Rightarrow> ext2_inode \<Rightarrow> u64 \<Rightarrow> u32 \<Rightarrow> 's ext2 \<Rightarrow> (u8 list \<times> 's ext2) option" where
  "read_inode_data raw inode offset cnt e =
     (let sz = i_size inode
      in if ucast offset \<ge> sz then Some ([], e)
         else read_data_loop raw inode offset (if offset + ucast cnt > ucast sz then sz - ucast offset else cnt) [] e)"

subsection \<open>Directories\<close>

definition is_dir :: "ext2_inode \<Rightarrow> bool" where
  "is_dir n \<longleftrightarrow> i_mode n AND EXT2_S_IFMT = EXT2_S_IFDIR"

text \<open>The text up to the first null byte.\<close>

definition text_of :: "u8 list \<Rightarrow> string" where
  "text_of bs = map (\<lambda>b. char_of (unat b)) (takeWhile (\<lambda>b. b \<noteq> 0) bs)"

datatype 'a lookup = Found 'a | Not_found | Broken

text \<open>The scan of a directory from an offset.\<close>

partial_function (option) dir_scan ::
  "'s raw_read \<Rightarrow> ext2_inode \<Rightarrow> string \<Rightarrow> u64 \<Rightarrow> 's ext2 \<Rightarrow> (ext2_dirent lookup \<times> 's ext2) option" where
  "dir_scan raw dinode nm offset e =
     (if \<not> offset < ucast (i_size dinode) then Some (Not_found, e)
      else case read_inode_data raw dinode offset 8 e of
             None \<Rightarrow> None
           | Some (bs, e) \<Rightarrow>
               if length bs \<noteq> DIRENT_SIZE then Some (Not_found, e)
               else let ent = dirent_of bs
                    in if d_inode ent = 0 then dir_scan raw dinode nm (offset + ucast (rec_len ent)) e
                       else case read_inode_data raw dinode (offset + 8) (ucast (name_len ent)) e of
                              None \<Rightarrow> None
                            | Some (nb, e) \<Rightarrow>
                                if length nb \<noteq> unat (name_len ent) then Some (Not_found, e)
                                else if text_of nb = nm then Some (Found ent, e)
                                else dir_scan raw dinode nm (offset + ucast (rec_len ent)) e)"

definition dir_lookup_callback :: "'s raw_read \<Rightarrow> u32 \<Rightarrow> string \<Rightarrow> 's ext2 \<Rightarrow> (ext2_dirent lookup \<times> 's ext2) option" where
  "dir_lookup_callback raw ino nm e =
     do { (r, e) \<leftarrow> read_inode raw ino e;
          (case r of
             None \<Rightarrow> Some (Broken, e)
           | Some dinode \<Rightarrow> if \<not> is_dir dinode then Some (Broken, e) else dir_scan raw dinode nm 0 e) }"

text \<open>The next component of a path, at most 255 characters, and what is left.\<close>

definition component :: "string \<Rightarrow> string \<times> string" where
  "component p = (let c = take 255 (takeWhile (\<lambda>x. x \<noteq> slash) p) in (c, drop (length c) p))"

lemma component_shorter:
  assumes "p' = dropWhile (\<lambda>x. x = slash) p" "p' \<noteq> []" "(c, rest) = component p'"
  shows "length rest < length p"
proof -
  obtain x q where p: "p' = x # q" using assms(2) by (cases p') auto
  moreover have "hd p' \<noteq> slash" using assms(1,2) hd_dropWhile [of "\<lambda>x. x = slash" p] by simp
  ultimately have p: "p' = x # q" "x \<noteq> slash" by simp_all
  then have "c \<noteq> []" using assms(3) by (auto simp: component_def Let_def)
  moreover have "rest = drop (length c) p'" using assms(3) by (auto simp: component_def Let_def)
  moreover have "length p' \<le> length p" using assms(1) by (simp add: length_dropWhile_le)
  moreover have "length p' - length c < length p'" using assms(2) calculation(1) by (intro diff_less) simp_all
  ultimately show ?thesis by simp
qed

function walk_path :: "'s raw_read \<Rightarrow> u32 \<Rightarrow> string \<Rightarrow> 's ext2 \<Rightarrow> (u32 \<times> 's ext2) option" where
  "walk_path raw cur path e =
     (let p = dropWhile (\<lambda>x. x = slash) path
      in if p = [] then Some (cur, e)
         else case component p of
                (c, rest) \<Rightarrow>
                  if c = ''.'' then walk_path raw cur rest e
                  else if c = ''..''
                  then (case read_inode raw cur e of
                          None \<Rightarrow> None
                        | Some (None, e) \<Rightarrow> Some (0, e)
                        | Some (Some _, e) \<Rightarrow> walk_path raw EXT2_ROOT_INO rest e)
                  else (case dir_lookup_callback raw cur c e of
                          None \<Rightarrow> None
                        | Some (Found ent, e) \<Rightarrow> walk_path raw (d_inode ent) rest e
                        | Some (_, e) \<Rightarrow> Some (0, e)))"
  by pat_completeness auto
termination
  by (relation "measure (\<lambda>(raw, cur, path, e). length path)") (simp, (drule (2) component_shorter, simp)+)

declare walk_path.simps [simp del]

definition resolve_path :: "'s raw_read \<Rightarrow> string \<Rightarrow> 's ext2 \<Rightarrow> (u32 \<times> 's ext2) option" where
  "resolve_path raw path e =
     (case path of
        c # rest \<Rightarrow> if c \<noteq> slash then Some (0, e) else walk_path raw EXT2_ROOT_INO rest e
      | [] \<Rightarrow> Some (0, e))"

record ext2_dir_entry =
  de_name :: string
  de_inode :: u32
  de_type :: u8

partial_function (option) count_entries :: "'s raw_read \<Rightarrow> ext2_inode \<Rightarrow> u64 \<Rightarrow> nat \<Rightarrow> 's ext2 \<Rightarrow> (nat \<times> 's ext2) option" where
  "count_entries raw dinode off n e =
     (if \<not> off < ucast (i_size dinode) then Some (n, e)
      else case read_inode_data raw dinode off 8 e of
             None \<Rightarrow> None
           | Some (bs, e) \<Rightarrow>
               if length bs \<noteq> DIRENT_SIZE then Some (n, e)
               else let ent = dirent_of bs
                    in count_entries raw dinode (off + ucast (rec_len ent)) (if d_inode ent \<noteq> 0 then n + 1 else n) e)"

text \<open>A name that could not be read keeps the old contents of the new memory, \<open>fresh\<close>.\<close>

partial_function (option) collect_entries ::
  "'s raw_read \<Rightarrow> u8 list \<Rightarrow> ext2_inode \<Rightarrow> u64 \<Rightarrow> nat \<Rightarrow> ext2_dir_entry list \<Rightarrow> 's ext2 \<Rightarrow> (ext2_dir_entry list \<times> 's ext2) option" where
  "collect_entries raw fresh dinode off n acc e =
     (if \<not> (off < ucast (i_size dinode) \<and> length acc < n) then Some (acc, e)
      else case read_inode_data raw dinode off 8 e of
             None \<Rightarrow> None
           | Some (bs, e) \<Rightarrow>
               if length bs \<noteq> DIRENT_SIZE then Some (acc, e)
               else let ent = dirent_of bs
                    in if d_inode ent = 0 then collect_entries raw fresh dinode (off + ucast (rec_len ent)) n acc e
                       else let nlen = (if name_len ent > 63 then 63 else name_len ent)
                            in case read_inode_data raw dinode (off + 8) (ucast nlen) e of
                                 None \<Rightarrow> None
                               | Some (nb, e) \<Rightarrow>
                                   collect_entries raw fresh dinode (off + ucast (rec_len ent)) n
                                     (acc @ [\<lparr>de_name = text_of (take (unat nlen) (nb @ drop (length nb) fresh)), de_inode = d_inode ent,
                                              de_type = file_type ent\<rparr>]) e)"

definition ext2_list_dir_internal ::
  "'s raw_read \<Rightarrow> u8 list \<Rightarrow> string \<Rightarrow> 's ext2 \<Rightarrow> (ext2_dir_entry list option \<times> 's ext2) option" where
  "ext2_list_dir_internal raw fresh path e =
     do { (ino, e) \<leftarrow> resolve_path raw path e;
          if ino = 0 then Some (None, e)
          else do { (r, e) \<leftarrow> read_inode raw ino e;
                    (case r of
                       None \<Rightarrow> Some (None, e)
                     | Some dinode \<Rightarrow>
                         if \<not> is_dir dinode then Some (None, e)
                         else do { (n, e) \<leftarrow> count_entries raw dinode 0 0 e;
                                   (let (ok, e) = kmalloc_next (n * 72) e
                                    in if \<not> ok then Some (None, e)
                                       else do { (es, e) \<leftarrow> collect_entries raw fresh dinode 0 n [] e; Some (Some es, e) }) }) } }"

subsection \<open>Interface\<close>

text \<open>The result and, on success, the size of the file and the bytes stored.\<close>

definition ext2_read_file :: "'s raw_read \<Rightarrow> string \<Rightarrow> u64 \<Rightarrow> 's ext2 \<Rightarrow> ((u32 \<times> u8 list) option \<times> 's ext2) option" where
  "ext2_read_file raw path max_size e =
     (if \<not> mounted e then Some (None, e)
      else do { (ino, e) \<leftarrow> resolve_path raw path e;
                if ino = 0 then Some (None, e)
                else do { (r, e) \<leftarrow> read_inode raw ino e;
                          (case r of
                             None \<Rightarrow> Some (None, e)
                           | Some inode \<Rightarrow>
                               if is_dir inode then Some (None, e)
                               else let sz = i_size inode; n = (if ucast sz > max_size then ucast max_size else sz)
                                    in do { (bs, e) \<leftarrow> read_inode_data raw inode 0 n e; Some (Some (sz, bs), e) }) } })"

text \<open>The listing is printed; its entries are the result here.\<close>

definition ext2_list_dir :: "'s raw_read \<Rightarrow> u8 list \<Rightarrow> string \<Rightarrow> 's ext2 \<Rightarrow> (ext2_dir_entry list option \<times> 's ext2) option" where
  "ext2_list_dir raw fresh path e = (if \<not> mounted e then Some (None, e) else ext2_list_dir_internal raw fresh path e)"

definition ext2_exists :: "'s raw_read \<Rightarrow> string \<Rightarrow> 's ext2 \<Rightarrow> (bool \<times> 's ext2) option" where
  "ext2_exists raw path e =
     (if \<not> mounted e then Some (False, e) else do { (ino, e) \<leftarrow> resolve_path raw path e; Some (ino \<noteq> 0, e) })"

definition ext2_get_dir_entries :: "'s raw_read \<Rightarrow> u8 list \<Rightarrow> string \<Rightarrow> 's ext2 \<Rightarrow> (ext2_dir_entry list option \<times> 's ext2) option" where
  "ext2_get_dir_entries raw fresh path e = ext2_list_dir_internal raw fresh path e"

subsection \<open>A disk image\<close>

text \<open>
  The partition delivers the bytes of an image, and memory suffices.  The abstract file system below is read off the image.
\<close>

definition serves :: "'s raw_read \<Rightarrow> (nat \<Rightarrow> u8) \<Rightarrow> 's ext2 \<Rightarrow> bool" where
  "serves raw img e \<longleftrightarrow> mallocs e = [] \<and> block_size e \<noteq> 0 \<and> 512 dvd unat (block_size e) \<and>
     (\<forall>lba cnt s. \<exists>s'. partition_read_sectors raw (disks e) (dev_name e) lba cnt s =
        Some (c_int (unat cnt), map (\<lambda>i. img (512 * unat lba + i)) [0 ..< 512 * unat cnt], s'))"

abbreviation bsz :: "'s ext2 \<Rightarrow> nat" where "bsz e \<equiv> unat (block_size e)"

definition block_bytes :: "(nat \<Rightarrow> u8) \<Rightarrow> nat \<Rightarrow> u32 \<Rightarrow> u8 list" where
  "block_bytes img bs b = map (\<lambda>i. img (bs * unat b + i)) [0 ..< bs]"

definition same_fs :: "'s ext2 \<Rightarrow> 's ext2 \<Rightarrow> bool" where
  "same_fs e e' \<longleftrightarrow> (\<exists>s. e' = e\<lparr>dsk := s\<rparr>)"

lemma same_fs_refl [simp]: "same_fs e e" unfolding same_fs_def by (rule exI [of _ "dsk e"]) simp

lemma same_fs_trans: "same_fs e e' \<Longrightarrow> same_fs e' e'' \<Longrightarrow> same_fs e e''"
  unfolding same_fs_def by auto

lemma same_fs_fields:
  "same_fs e e' \<Longrightarrow> block_size e' = block_size e" "same_fs e e' \<Longrightarrow> bgd e' = bgd e" "same_fs e e' \<Longrightarrow> inodes_per_group e' = inodes_per_group e"
  "same_fs e e' \<Longrightarrow> bgd_count e' = bgd_count e" "same_fs e e' \<Longrightarrow> inode_size e' = inode_size e" "same_fs e e' \<Longrightarrow> mounted e' = mounted e"
  by (auto simp: same_fs_def)

lemma serves_same: "serves raw img e \<Longrightarrow> same_fs e e' \<Longrightarrow> serves raw img e'"
  by (auto simp: same_fs_def serves_def)

lemma sectors_per_bytes:
  fixes b :: u32
  assumes "512 dvd bsz e"
  shows "512 * unat (sectors_per e) = bsz e" "unat (ucast b * ucast (sectors_per e) :: u64) = unat b * unat (sectors_per e)"
proof -
  show k: "512 * unat (sectors_per e) = bsz e" using assms by (simp add: sectors_per_def unat_div)
  have u: "unat (ucast x :: u64) = unat x" for x :: u32 using unat_u32_less [of x] by (simp add: unsigned_ucast_eq take_bit_nat_eq_self)
  have "unat b * unat (sectors_per e) < 2 ^ 32 * 2 ^ 32"
    using unat_u32_less [of b] unat_u32_less [of "sectors_per e"] by (intro mult_strict_mono) simp_all
  then show "unat (ucast b * ucast (sectors_per e) :: u64) = unat b * unat (sectors_per e)" by (simp add: unat_word_ariths u)
qed

lemma load_block_image:
  assumes "serves raw img e"
  shows "\<exists>e'. load_block raw b e = Some (Some (block_bytes img (bsz e) b), e') \<and> same_fs e e'"
proof -
  note d = sectors_per_bytes [of e, OF assms [unfolded serves_def, THEN conjunct2, THEN conjunct2, THEN conjunct1]]
  let ?lba = "ucast b * ucast (sectors_per e) :: u64"
  obtain s where "partition_read_sectors raw (disks e) (dev_name e) ?lba (sectors_per e) (dsk e) =
      Some (c_int (unat (sectors_per e)), map (\<lambda>i. img (512 * unat ?lba + i)) [0 ..< 512 * unat (sectors_per e)], s)"
    using assms unfolding serves_def by blast
  moreover have "512 * unat ?lba = bsz e * unat b" using d(1) by (simp add: d(2))
  ultimately have "read_block raw b e = Some ((c_int (unat (sectors_per e)), block_bytes img (bsz e) b), e\<lparr>dsk := s\<rparr>)"
    by (simp add: read_block_def read_sectors_at_def block_bytes_def d(1))
  moreover have "sectors_per (e\<lparr>dsk := s\<rparr>) = sectors_per e" by (simp add: sectors_per_def)
  moreover have "kmalloc_next (bsz e) e = (True, e)"
    using assms by (simp add: kmalloc_next_def kmalloc_ok_def serves_def unat_eq_0)
  ultimately show ?thesis by (auto simp: load_block_def same_fs_def)
qed

subsection \<open>The abstract file\<close>

definition ptr :: "(nat \<Rightarrow> u8) \<Rightarrow> nat \<Rightarrow> u32 \<Rightarrow> nat \<Rightarrow> u32" where
  "ptr img bs b k = (if b = 0 then 0 else le32 (block_bytes img bs b) (4 * k))"

text \<open>The block that holds a logical block of a file: direct, indirect or doubly indirect; 0 is a hole.\<close>

definition file_block :: "(nat \<Rightarrow> u8) \<Rightarrow> nat \<Rightarrow> ext2_inode \<Rightarrow> nat \<Rightarrow> u32" where
  "file_block img bs n l =
     (let p = bs div 4
      in if l < 12 then i_block n ! l
         else if l < 12 + p then ptr img bs (i_block n ! 12) (l - 12)
         else ptr img bs (ptr img bs (i_block n ! 13) ((l - 12 - p) div p)) ((l - 12 - p) mod p))"

definition file_byte :: "(nat \<Rightarrow> u8) \<Rightarrow> nat \<Rightarrow> ext2_inode \<Rightarrow> nat \<Rightarrow> u8" where
  "file_byte img bs n i = (let b = file_block img bs n (i div bs) in if b = 0 then 0 else img (bs * unat b + i mod bs))"

text \<open>The file reaches into an indirect block only if that block exists, and not beyond the doubly indirect ones.\<close>

definition blocks_ok :: "nat \<Rightarrow> ext2_inode \<Rightarrow> bool" where
  "blocks_ok bs n \<longleftrightarrow>
     (let p = bs div 4; sz = unat (i_size n)
      in sz \<le> 12 * bs \<or> i_block n ! 12 \<noteq> 0 \<and> (sz \<le> (12 + p) * bs \<or> i_block n ! 13 \<noteq> 0 \<and> sz \<le> (12 + p + p * p) * bs))"

definition reaches :: "nat \<Rightarrow> ext2_inode \<Rightarrow> nat \<Rightarrow> bool" where
  "reaches bs n l \<longleftrightarrow> l < 12 \<or> i_block n ! 12 \<noteq> 0 \<and> (l < 12 + bs div 4 \<or> i_block n ! 13 \<noteq> 0)"

lemma blocks_ok_reaches:
  assumes "blocks_ok bs n" "i < unat (i_size n)" "0 < bs"
  shows "reaches bs n (i div bs)"
proof -
  have lt: "i div bs < k" if "unat (i_size n) \<le> k * bs" for k
    using assms(2) that by (simp add: less_mult_imp_div_less)
  show ?thesis using assms(1) lt [of 12] lt [of "12 + bs div 4"] by (auto simp: blocks_ok_def reaches_def Let_def)
qed

lemma image_sizes:
  assumes "serves raw img e"
  shows "unat (block_size e div 4) = bsz e div 4" "0 < bsz e div 4" "0 < bsz e" "block_size e \<noteq> 0"
proof -
  show z: "block_size e \<noteq> 0" using assms by (simp add: serves_def)
  then show pos: "0 < bsz e" by (simp add: unat_gt_0)
  show "unat (block_size e div 4) = bsz e div 4" by (simp add: unat_div)
  have "512 dvd bsz e" using assms by (simp add: serves_def)
  then have "512 \<le> bsz e" using pos by (rule dvd_imp_le)
  then show "0 < bsz e div 4" by simp
qed

lemma get_inode_block_image:
  assumes "serves raw img e" "reaches (bsz e) n (unat l)"
  shows "\<exists>e'. get_inode_block raw n l e = Some (file_block img (bsz e) n (unat l), e') \<and> same_fs e e'"
proof -
  note sz = image_sizes [OF assms(1)]
  let ?p = "block_size e div 4"
  have p: "?p \<noteq> 0" using sz(1,2) by (metis unat_0 less_irrefl)
  consider (dir) "l < 12" | (ind) "\<not> l < 12" "l - 12 < ?p" | (dind) "\<not> l < 12" "\<not> l - 12 < ?p" by blast
  then show ?thesis
  proof cases
    case dir
    then show ?thesis by (auto simp: get_inode_block_def file_block_def Let_def word_less_nat_alt intro: exI [of _ e])
  next
    case ind
    have u: "unat (l - 12) = unat l - 12" using ind(1) by (simp add: unat_sub not_less)
    then have r: "12 \<le> unat l" "unat l < 12 + bsz e div 4" using ind sz(1) by (simp_all add: word_less_nat_alt not_less)
    then have "i_block n ! 12 \<noteq> 0" using assms(2) by (simp add: reaches_def)
    moreover obtain e' where "load_block raw (i_block n ! 12) e = Some (Some (block_bytes img (bsz e) (i_block n ! 12)), e')" "same_fs e e'"
      using load_block_image [OF assms(1)] by blast
    ultimately show ?thesis using ind u r by (auto simp: get_inode_block_def file_block_def Let_def ptr_def)
  next
    case dind
    have u: "unat (l - 12) = unat l - 12" using dind(1) by (simp add: unat_sub not_less)
    have v: "unat (l - 12 - ?p) = unat l - 12 - bsz e div 4" using dind u sz(1) by (simp add: unat_sub not_less)
    have r: "12 \<le> unat l" "\<not> unat l < 12 + bsz e div 4" using dind sz(1) u by (simp_all add: word_less_nat_alt not_less)
    then have nz: "i_block n ! 13 \<noteq> 0" using assms(2) by (simp add: reaches_def)
    obtain e1 where e1: "load_block raw (i_block n ! 13) e = Some (Some (block_bytes img (bsz e) (i_block n ! 13)), e1)" "same_fs e e1"
      using load_block_image [OF assms(1)] by blast
    let ?b = "le32 (block_bytes img (bsz e) (i_block n ! 13)) (4 * ((unat l - 12 - bsz e div 4) div (bsz e div 4)))"
    obtain e2 where e2: "load_block raw ?b e1 = Some (Some (block_bytes img (bsz e) ?b), e2)" "same_fs e1 e2"
      using load_block_image [OF serves_same [OF assms(1) e1(2)]] same_fs_fields(1) [OF e1(2)] by fastforce
    have f: "file_block img (bsz e) n (unat l) =
        (if ?b = 0 then 0 else le32 (block_bytes img (bsz e) ?b) (4 * ((unat l - 12 - bsz e div 4) mod (bsz e div 4))))"
      using r nz by (simp add: file_block_def Let_def ptr_def)
    have g: "get_inode_block raw n l e =
        (if ?b = 0 then Some (0, e1) else Some (le32 (block_bytes img (bsz e) ?b) (4 * ((unat l - 12 - bsz e div 4) mod (bsz e div 4))), e2))"
      using dind p e1(1) e2(1) sz(1) v by (simp add: get_inode_block_def Let_def udiv_def unat_div unat_mod)
    show ?thesis unfolding f g using e1(2) same_fs_trans [OF e1(2) e2(2)] by auto
  qed
qed

lemma unat_ucast_u32 [simp]: "unat (ucast x :: u64) = unat x" for x :: u32
  using unat_u32_less [of x] by (simp add: unsigned_ucast_eq take_bit_nat_eq_self)

lemma unat_ucast_low: "unat x < 2 ^ 32 \<Longrightarrow> unat (ucast x :: u32) = unat x" for x :: u64
  by (simp add: unsigned_ucast_eq take_bit_nat_eq_self)

lemma piece_len_value:
  assumes "bs \<noteq> 0"
  shows "unat (piece_len bs off cnt) = min (unat cnt) (unat bs - unat off mod unat bs)"
proof -
  have lt: "unat off mod unat bs < unat bs" using assms by (simp add: unat_gt_0)
  have m: "unat (ucast (off mod ucast bs :: u64) :: u32) = unat off mod unat bs"
    using lt unat_u32_less [of bs] by (subst unat_ucast_low) (simp_all add: unat_mod)
  then have "unat (bs - ucast (off mod ucast bs)) = unat bs - unat off mod unat bs"
    using lt by (simp add: unat_sub word_le_nat_alt)
  then show ?thesis by (auto simp: piece_len_def Let_def word_less_nat_alt)
qed

lemma read_piece_image:
  assumes "serves raw img e" "unat off < 2 ^ 32" "reaches (bsz e) n (unat off div bsz e)"
    "unat c \<le> bsz e - unat off mod bsz e"
  shows "\<exists>e'. read_piece raw n off c e = Some (Some (map (file_byte img (bsz e) n) [unat off ..< unat off + unat c]), e') \<and> same_fs e e'"
proof -
  note sz = image_sizes [OF assms(1)]
  let ?l = "ucast (off div ucast (block_size e)) :: u32" and ?bs = "bsz e"
  have l: "unat ?l = unat off div ?bs"
    using assms(2) by (subst unat_ucast_low) (simp_all add: unat_div order_le_less_trans [OF div_le_dividend])
  obtain e1 where e1: "get_inode_block raw n ?l e = Some (file_block img ?bs n (unat off div ?bs), e1)" "same_fs e e1"
    using get_inode_block_image [OF assms(1), of n ?l] assms(3) l by auto
  have same: "(unat off + i) div ?bs = unat off div ?bs" "(unat off + i) mod ?bs = unat off mod ?bs + i" if "i < unat c" for i
  proof -
    have lt: "unat off mod ?bs + i < ?bs" using that assms(4) by linarith
    have eq: "unat off + i = (unat off mod ?bs + i) + (unat off div ?bs) * ?bs" by simp
    show "(unat off + i) div ?bs = unat off div ?bs" by (subst eq, subst div_mult_self1) (use lt sz(3) in simp_all)
    show "(unat off + i) mod ?bs = unat off mod ?bs + i" by (subst eq, subst mod_mult_self1) (use lt in simp)
  qed
  have shift: "map f [unat off ..< unat off + unat c] = map (\<lambda>i. f (unat off + i)) [0 ..< unat c]" for f :: "nat \<Rightarrow> u8"
    by (rule nth_equalityI) simp_all
  show ?thesis
  proof (cases "file_block img ?bs n (unat off div ?bs) = 0")
    case True
    then have "map (file_byte img ?bs n) [unat off ..< unat off + unat c] = replicate (unat c) 0"
      unfolding shift by (intro nth_equalityI) (simp_all add: file_byte_def same)
    then show ?thesis using True e1 by (auto simp: read_piece_def)
  next
    case False
    let ?b = "file_block img ?bs n (unat off div ?bs)"
    obtain e2 where e2: "load_block raw ?b e1 = Some (Some (block_bytes img ?bs ?b), e2)" "same_fs e1 e2"
      using load_block_image [OF serves_same [OF assms(1) e1(2)]] same_fs_fields(1) [OF e1(2)] by fastforce
    have "same_fs e e2" using e1(2) e2(2) by (rule same_fs_trans)
    moreover have "map (\<lambda>i. block_bytes img ?bs ?b ! (unat off mod ?bs + i)) [0 ..< unat c] = map (file_byte img ?bs n) [unat off ..< unat off + unat c]"
      unfolding shift using False assms(4) by (intro nth_equalityI) (auto simp: file_byte_def same block_bytes_def add.assoc)
    ultimately show ?thesis using False e1(1) e2(1) same_fs_fields(1) [of e e2] by (auto simp: read_piece_def unat_mod)
  qed
qed

lemma read_data_loop_image:
  assumes "serves raw img e" "blocks_ok (bsz e) n" "unat off + unat cnt \<le> unat (i_size n)"
  shows "\<exists>e'. read_data_loop raw n off cnt acc e = Some (acc @ map (file_byte img (bsz e) n) [unat off ..< unat off + unat cnt], e') \<and> same_fs e e'"
  using assms
proof (induction "unat cnt" arbitrary: off cnt acc e rule: less_induct)
  case less
  show ?case
  proof (cases "cnt = 0")
    case True
    then show ?thesis by (subst read_data_loop.simps) (auto intro: exI [of _ e])
  next
    case False
    note sz = image_sizes [OF less.prems(1)]
    let ?c = "piece_len (block_size e) off cnt" and ?f = "file_byte img (bsz e) n"
    have c: "unat ?c = min (unat cnt) (bsz e - unat off mod bsz e)" using piece_len_value sz(4) by simp
    have pos: "0 < unat ?c" "?c \<le> cnt" using piece_len_pos sz(4) False by blast+
    have lim: "unat off < unat (i_size n)" using less.prems(3) False by (simp add: unat_gt_0 [symmetric])
    then have off: "unat off < 2 ^ 32" using unat_u32_less [of "i_size n"] by linarith
    obtain e1 where e1: "read_piece raw n off ?c e = Some (Some (map ?f [unat off ..< unat off + unat ?c]), e1)" "same_fs e e1"
      using read_piece_image [OF less.prems(1) off blocks_ok_reaches [OF less.prems(2) lim sz(3)], of ?c] c by auto
    have next_off: "unat (off + ucast ?c) = unat off + unat ?c"
      using off unat_u32_less [of ?c] by (subst unat_word_ariths) simp
    have rest: "unat (cnt - ?c) = unat cnt - unat ?c" using pos(2) by (simp add: unat_sub)
    have "\<exists>e'. read_data_loop raw n (off + ucast ?c) (cnt - ?c) (acc @ map ?f [unat off ..< unat off + unat ?c]) e1 =
        Some ((acc @ map ?f [unat off ..< unat off + unat ?c]) @ map ?f [unat off + unat ?c ..< unat off + unat cnt], e') \<and> same_fs e1 e'"
      using less.hyps [of "cnt - ?c" e1 "off + ucast ?c" "acc @ map ?f [unat off ..< unat off + unat ?c]"] serves_same [OF less.prems(1) e1(2)] less.prems(2,3) same_fs_fields(1) [OF e1(2)]
        rest next_off pos by (simp add: word_le_nat_alt)
    then obtain e2 where e2: "read_data_loop raw n (off + ucast ?c) (cnt - ?c) (acc @ map ?f [unat off ..< unat off + unat ?c]) e1 =
        Some ((acc @ map ?f [unat off ..< unat off + unat ?c]) @ map ?f [unat off + unat ?c ..< unat off + unat cnt], e2)" "same_fs e1 e2" by blast
    have "[unat off ..< unat off + unat cnt] = [unat off ..< unat off + unat ?c] @ [unat off + unat ?c ..< unat off + unat cnt]"
      using pos(2) upt_add_eq_append [of "unat off" "unat off + unat ?c" "unat cnt - unat ?c"] by (simp add: word_le_nat_alt)
    then show ?thesis using False sz(4) e1(1) e2(1) same_fs_trans [OF e1(2) e2(2)]
      by (subst read_data_loop.simps) (auto simp: Let_def)
  qed
qed

text \<open>A read delivers the bytes of the file that lie in the requested range, and only these.\<close>

lemma read_inode_data_image:
  assumes "serves raw img e" "blocks_ok (bsz e) n" "unat off < 2 ^ 32"
  shows "\<exists>e'. read_inode_data raw n off cnt e =
    Some (map (file_byte img (bsz e) n) [unat off ..< min (unat off + unat cnt) (unat (i_size n))], e') \<and> same_fs e e'"
proof (cases "unat off < unat (i_size n)")
  case True
  have o: "unat (ucast off :: u32) = unat off" using assms(3) by (rule unat_ucast_low)
  let ?c = "if off + ucast cnt > ucast (i_size n) then i_size n - ucast off else cnt"
  have s: "unat (off + ucast cnt) = unat off + unat cnt" using assms(3) unat_u32_less [of cnt] by (subst unat_word_ariths) simp
  have "unat (i_size n - ucast off) = unat (i_size n) - unat off" using True o by (simp add: unat_sub word_le_nat_alt)
  then have c: "unat off + unat ?c = min (unat off + unat cnt) (unat (i_size n))" using True s by (auto simp: word_less_nat_alt)
  have g: "\<not> ucast off \<ge> i_size n" using True o by (simp add: word_le_nat_alt)
  show ?thesis using read_data_loop_image [OF assms(1,2), of off ?c "[]"] c g by (simp add: read_inode_data_def Let_def)
next
  case False
  then have "ucast off \<ge> i_size n" using unat_ucast_low [OF assms(3)] by (simp add: word_le_nat_alt)
  then show ?thesis using False by (auto simp: read_inode_data_def Let_def intro: exI [of _ e])
qed

subsection \<open>The abstract directory tree\<close>

definition inode_exists :: "'s ext2 \<Rightarrow> u32 \<Rightarrow> bool" where
  "inode_exists e ino \<longleftrightarrow> ino \<noteq> 0 \<and> inodes_per_group e \<noteq> 0 \<and> (ino - 1) div inodes_per_group e < bgd_count e"

definition inode_at :: "(nat \<Rightarrow> u8) \<Rightarrow> 's ext2 \<Rightarrow> u32 \<Rightarrow> ext2_inode" where
  "inode_at img e ino =
     (let i = unat (ino - 1); ipg = unat (inodes_per_group e); pos = i mod ipg * unat (inode_size e);
          b = le32 (bgd e) (BGD_SIZE * (i div ipg) + 8) + of_nat (pos div bsz e)
      in inode_of (block_bytes img (bsz e) b) (pos mod bsz e))"

lemma read_inode_image:
  assumes "serves raw img e" "inode_exists e ino"
  shows "\<exists>e'. read_inode raw ino e = Some (Some (inode_at img e ino), e') \<and> same_fs e e'"
proof -
  note sz = image_sizes [OF assms(1)]
  let ?ix = "(ino - 1) mod inodes_per_group e"
  let ?o = "ucast ?ix * ucast (inode_size e) :: u64"
  have "unat ?ix * unat (inode_size e) < 2 ^ 32 * 2 ^ 32"
    using unat_u32_less [of ?ix] unat_u32_less [of "inode_size e"] by (intro mult_strict_mono) simp_all
  moreover have ix: "unat ?ix = unat (ino - 1) mod unat (inodes_per_group e)" by (rule unat_mod)
  ultimately have o: "unat ?o = unat (ino - 1) mod unat (inodes_per_group e) * unat (inode_size e)"
    by (subst unat_word_ariths) simp
  let ?b = "le32 (bgd e) (BGD_SIZE * unat ((ino - 1) div inodes_per_group e) + 8) + ucast (?o div ucast (block_size e))"
  obtain e' where e': "load_block raw ?b e = Some (Some (block_bytes img (bsz e) ?b), e')" "same_fs e e'"
    using load_block_image [OF assms(1)] by blast
  have "ucast (?o div ucast (block_size e)) = (of_nat (unat ?o div bsz e) :: u32)"
    by (rule unsigned_word_eqI [where ?'a = nat]) (simp add: unsigned_ucast_eq unsigned_of_nat unat_div)
  then have "inode_at img e ino = inode_of (block_bytes img (bsz e) ?b) (unat (?o mod ucast (block_size e)))"
    by (simp add: inode_at_def Let_def o unat_div unat_mod)
  then show ?thesis using assms(2) e' sz(4) same_fs_fields(1) [OF e'(2)]
    by (auto simp: read_inode_def inode_exists_def udiv_def Let_def not_le)
qed

text \<open>A directory of a given size holds a list of entries with their names from an offset on.\<close>

fun dir_ok :: "(nat \<Rightarrow> u8) \<Rightarrow> nat \<Rightarrow> nat \<Rightarrow> (ext2_dirent \<times> string) list \<Rightarrow> bool" where
  "dir_ok f sz off [] \<longleftrightarrow> off = sz"
| "dir_ok f sz off ((d, nm) # es) \<longleftrightarrow>
     dirent_of (map f [off ..< off + 8]) = d \<and> text_of (map f [off + 8 ..< off + 8 + unat (name_len d)]) = nm \<and>
     8 + unat (name_len d) \<le> unat (rec_len d) \<and> off + unat (rec_len d) \<le> sz \<and> dir_ok f sz (off + unat (rec_len d)) es"

definition entry_named :: "string \<Rightarrow> (ext2_dirent \<times> string) list \<Rightarrow> (ext2_dirent \<times> string) option" where
  "entry_named nm es = find (\<lambda>(d, s). d_inode d \<noteq> 0 \<and> s = nm) es"

lemma unat_u16_less: "unat (x :: u16) < 65536"
  using unsigned_less [of x, where ?'a = nat] by simp

lemma dir_scan_image:
  assumes "serves raw img e" "blocks_ok (bsz e) n" "dir_ok (file_byte img (bsz e) n) (unat (i_size n)) (unat off) es" "unat off < 2 ^ 33"
  shows "\<exists>e'. dir_scan raw n nm off e =
    Some (case entry_named nm es of None \<Rightarrow> Not_found | Some (d, s) \<Rightarrow> Found d, e') \<and> same_fs e e'"
  using assms
proof (induction es arbitrary: off e)
  case Nil
  then show ?case by (subst dir_scan.simps) (auto simp: word_less_nat_alt entry_named_def intro: exI [of _ e])
next
  case (Cons x es)
  obtain d s where x: "x = (d, s)" by (cases x)
  let ?f = "file_byte img (bsz e) n" and ?sz = "unat (i_size n)"
  have d: "dirent_of (map ?f [unat off ..< unat off + 8]) = d" "text_of (map ?f [unat off + 8 ..< unat off + 8 + unat (name_len d)]) = s"
    "8 + unat (name_len d) \<le> unat (rec_len d)" "unat off + unat (rec_len d) \<le> ?sz" "dir_ok ?f ?sz (unat off + unat (rec_len d)) es"
    using Cons.prems(3) x by simp_all
  have off: "unat off < ?sz" "unat off < 2 ^ 32" "unat (off + 8) = unat off + 8" "unat (off + 8) < 2 ^ 32"
    using d(3,4) unat_u32_less [of "i_size n"] by (auto simp: unat_word_ariths)
  have rl: "unat (ucast (rec_len d) :: u64) = unat (rec_len d)" "unat (ucast (name_len d) :: u32) = unat (name_len d)"
    using unat_u16_less [of "rec_len d"] unat_u8_less [of "name_len d"]
    by (simp_all add: unsigned_ucast_eq take_bit_nat_eq_self del: unat_u8_less)
  have nxt: "unat (off + ucast (rec_len d)) = unat off + unat (rec_len d)"
    using d(4) unat_u32_less [of "i_size n"] by (subst unat_word_ariths) (simp add: rl)
  obtain e1 where e1: "read_inode_data raw n off 8 e = Some (map ?f [unat off ..< unat off + 8], e1)" "same_fs e e1"
    using read_inode_data_image [OF Cons.prems(1,2) off(2), of 8] d(3,4) by auto
  have s1: "serves raw img e1" "bsz e1 = bsz e" using serves_same [OF Cons.prems(1) e1(2)] same_fs_fields(1) [OF e1(2)] by simp_all
  obtain e2 where e2: "read_inode_data raw n (off + 8) (ucast (name_len d)) e1 =
      Some (map ?f [unat off + 8 ..< unat off + 8 + unat (name_len d)], e2)" "same_fs e1 e2"
    using read_inode_data_image [OF s1(1) _ off(4), of n "ucast (name_len d)"] Cons.prems(2) d(3,4) s1(2) off(3) rl(2) by auto
  have s2: "serves raw img e2" "bsz e2 = bsz e" using serves_same [OF s1(1) e2(2)] same_fs_fields(1) [OF e2(2)] s1(2) by simp_all
  have ih: "serves raw img e' \<Longrightarrow> bsz e' = bsz e \<Longrightarrow> \<exists>e''. dir_scan raw n nm (off + ucast (rec_len d)) e' =
      Some (case entry_named nm es of None \<Rightarrow> Not_found | Some (d, s) \<Rightarrow> Found d, e'') \<and> same_fs e' e''" for e'
    using Cons.IH [of e' "off + ucast (rec_len d)"] Cons.prems(2) d(4,5) nxt unat_u32_less [of "i_size n"] by simp
  show ?case
  proof (cases "d_inode d = 0")
    case True
    then show ?thesis using ih [OF s1] off(1) e1 d(1) x same_fs_trans [OF e1(2)]
      by (subst dir_scan.simps) (auto simp: word_less_nat_alt entry_named_def)
  next
    case False
    then show ?thesis using ih [OF s2] off(1) e1 e2 d(1,2) x same_fs_trans [OF e1(2) e2(2)] same_fs_trans [of e e2]
      by (subst dir_scan.simps) (auto simp: word_less_nat_alt entry_named_def)
  qed
qed

text \<open>A sequence of names leads from one inode to another when each is an entry of the directory reached so far.\<close>

fun leads :: "(nat \<Rightarrow> u8) \<Rightarrow> 's ext2 \<Rightarrow> u32 \<Rightarrow> string list \<Rightarrow> u32 \<Rightarrow> bool" where
  "leads img e ino [] ino' \<longleftrightarrow> ino' = ino"
| "leads img e ino (c # cs) ino' \<longleftrightarrow>
     (let n = inode_at img e ino
      in inode_exists e ino \<and> is_dir n \<and> blocks_ok (bsz e) n \<and>
         (\<exists>es d. dir_ok (file_byte img (bsz e) n) (unat (i_size n)) 0 es \<and> entry_named c es = Some (d, c) \<and> leads img e (d_inode d) cs ino'))"

definition plain_name :: "string \<Rightarrow> bool" where
  "plain_name c \<longleftrightarrow> c \<noteq> [] \<and> c \<noteq> ''.'' \<and> c \<noteq> ''..'' \<and> slash \<notin> set c \<and> length c \<le> 255"

definition path_text :: "string list \<Rightarrow> string" where
  "path_text cs = concat (map (\<lambda>c. slash # c) cs)"

lemma leads_same: "same_fs e e' \<Longrightarrow> leads img e' ino cs ino' = leads img e ino cs ino'"
proof (induction cs arbitrary: ino)
  case (Cons c cs)
  then have "inode_at img e' i = inode_at img e i" "inode_exists e' i = inode_exists e i" for i
    by (simp_all add: inode_at_def inode_exists_def same_fs_fields)
  then show ?case using Cons by (simp add: same_fs_fields)
qed simp

lemma walk_path_slash: "walk_path raw cur (slash # p) e = walk_path raw cur p e"
  by (subst (1 2) walk_path.simps) simp

lemma component_plain:
  assumes "plain_name c" "r = [] \<or> hd r = slash"
  shows "dropWhile (\<lambda>x. x = slash) (c @ r) = c @ r" "component (c @ r) = (c, r)"
proof -
  have "hd c \<noteq> slash" "c \<noteq> []" using assms(1) unfolding plain_name_def by (metis hd_in_set)+
  then show "dropWhile (\<lambda>x. x = slash) (c @ r) = c @ r" by (cases c) auto
  have "takeWhile (\<lambda>x. x \<noteq> slash) (c @ r) = c"
    using assms by (cases r) (auto simp: plain_name_def takeWhile_append takeWhile_eq_all_conv)
  then show "component (c @ r) = (c, r)" using assms(1) by (simp add: component_def Let_def plain_name_def)
qed

lemma lookup_image:
  assumes "serves raw img e" "leads img e ino (c # cs) ino'"
  shows "\<exists>d e'. dir_lookup_callback raw ino c e = Some (Found d, e') \<and> same_fs e e' \<and> leads img e (d_inode d) cs ino' \<and> d_inode d \<noteq> 0"
proof -
  let ?n = "inode_at img e ino"
  obtain es d where es: "inode_exists e ino" "is_dir ?n" "blocks_ok (bsz e) ?n"
    "dir_ok (file_byte img (bsz e) ?n) (unat (i_size ?n)) 0 es" "entry_named c es = Some (d, c)" "leads img e (d_inode d) cs ino'"
    using assms(2) by (auto simp: Let_def)
  obtain e1 where e1: "read_inode raw ino e = Some (Some ?n, e1)" "same_fs e e1" using read_inode_image [OF assms(1) es(1)] by blast
  have s1: "serves raw img e1" "bsz e1 = bsz e" using serves_same [OF assms(1) e1(2)] same_fs_fields(1) [OF e1(2)] by simp_all
  obtain e2 where e2: "dir_scan raw ?n c 0 e1 = Some (Found d, e2)" "same_fs e1 e2"
    using dir_scan_image [OF s1(1), of ?n 0 es c] es(3,4,5) s1(2) by auto
  have "d_inode d \<noteq> 0" using es(5) by (auto simp: entry_named_def find_Some_iff)
  then show ?thesis using es(2,6) e1(1) e2(1) same_fs_trans [OF e1(2) e2(2)] by (auto simp: dir_lookup_callback_def)
qed

lemma walk_path_image:
  assumes "serves raw img e" "\<forall>c \<in> set cs. plain_name c" "leads img e ino cs ino'"
  shows "\<exists>e'. walk_path raw ino (path_text cs) e = Some (ino', e') \<and> same_fs e e'"
  using assms
proof (induction cs arbitrary: ino e)
  case Nil
  then show ?case by (subst walk_path.simps) (auto simp: path_text_def intro: exI [of _ e])
next
  case (Cons c cs)
  obtain d e1 where l: "dir_lookup_callback raw ino c e = Some (Found d, e1)" "same_fs e e1" "leads img e (d_inode d) cs ino'"
    using lookup_image [OF Cons.prems(1,3)] by blast
  have p: "path_text cs = [] \<or> hd (path_text cs) = slash" by (cases cs) (simp_all add: path_text_def)
  have c: "plain_name c" using Cons.prems(2) by simp
  note k = component_plain [OF c p]
  have "walk_path raw ino (path_text (c # cs)) e = walk_path raw ino (c @ path_text cs) e"
    by (simp add: path_text_def walk_path_slash)
  also have "\<dots> = walk_path raw (d_inode d) (path_text cs) e1"
    using c l(1) by (subst walk_path.simps) (simp add: k plain_name_def)
  finally have w: "walk_path raw ino (path_text (c # cs)) e = walk_path raw (d_inode d) (path_text cs) e1" .
  obtain e2 where "walk_path raw (d_inode d) (path_text cs) e1 = Some (ino', e2)" "same_fs e1 e2"
    using Cons.IH [of e1 "d_inode d"] serves_same [OF Cons.prems(1) l(2)] Cons.prems(2) l(3) leads_same [OF l(2)] by auto
  then show ?case using w same_fs_trans [OF l(2)] by auto
qed

text \<open>
  An unused entry with a record length of zero stops the scan of its directory for ever: the offset does not move.
\<close>

definition stuck :: "'s raw_read \<Rightarrow> ext2_inode \<Rightarrow> u64 \<Rightarrow> 's ext2 \<Rightarrow> bool" where
  "stuck raw n off e \<longleftrightarrow> off < ucast (i_size n) \<and>
     (\<exists>bs. read_inode_data raw n off 8 e = Some (bs, e) \<and> length bs = DIRENT_SIZE \<and> d_inode (dirent_of bs) = 0 \<and> rec_len (dirent_of bs) = 0)"

lemma dir_scan_stuck: "stuck raw n off e \<Longrightarrow> dir_scan raw n nm off e = None"
proof -
  have "dir_scan raw n nm off e = Some y \<Longrightarrow> \<not> stuck raw n off e" for y
    by (rule dir_scan.raw_induct [where P = "\<lambda>raw n nm off e y. \<not> stuck raw n off e"]) (auto simp: stuck_def Let_def)
  then show "stuck raw n off e \<Longrightarrow> dir_scan raw n nm off e = None" by (cases "dir_scan raw n nm off e") auto
qed

subsection \<open>Reading a file\<close>


text \<open>A small file system: the root directory has the one entry \<open>a\<close>, a file of two bytes.\<close>

definition demo_img :: "nat \<Rightarrow> u8" where
  "demo_img i = (case map_of
     [(5249, 0x40), (5252, 12), (5288, 6), (5377, 0x80), (5380, 2), (5416, 7), (6144, 3), (6148, 12), (6150, 1), (6151, 1), (6152, 97),
      (7168, 104), (7169, 105)] i of None \<Rightarrow> 0 | Some b \<Rightarrow> b)"

definition img_raw :: "unit raw_read" where
  "img_raw f i lba cnt s = (c_int (unat cnt), map (\<lambda>i. demo_img (512 * unat lba + i)) [0 ..< 512 * unat cnt], s)"

definition demo_ext2 :: "unit ext2" where
  "demo_ext2 = \<lparr>disks = demo_blk, dsk = (), mallocs = [], dev_name = ''sda'', super = superblock_of (replicate 1024 0),
     bgd = replicate 8 0 @ [5] @ replicate 23 0, block_size = 1024, blocks_per_group = 8192, inodes_per_group = 8, inode_size = 128,
     bgd_count = 1, mounted = True\<rparr>"

lemma demo_serves: "serves img_raw demo_img demo_ext2"
proof -
  have g: "blockdev_get ''sda'' demo_blk = Some \<lparr>bd_name = ''sda'', bd_id = 0, bd_sectors = 0, bd_read = Fn_ide, bd_write = Some Fn_ide, bd_present = True\<rparr>"
    "parts demo_blk = []"
    by (simp_all add: blockdev_get_def demo_blk_def blockdev_register_def)
  have "partition_read_sectors img_raw demo_blk ''sda'' lba cnt s = Some (img_raw Fn_ide 0 lba cnt s)" for lba cnt s
    using read_disk [OF g(1)] by (simp add: partition_read_sectors_def g(2))
  then show ?thesis by (simp add: serves_def demo_ext2_def img_raw_def)
qed

lemma block_bytes_nth: "i < bs \<Longrightarrow> block_bytes img bs b ! i = img (bs * unat b + i)"
  by (simp add: block_bytes_def)

lemma demo_lists: "[0 ..< 15] = [0, 1, 2, 3, 4, 5, 6, 7, 8, 9, 10, 11, 12, 13, 14 :: nat]"
  "replicate 14 (0 :: u32) = [0, 0, 0, 0, 0, 0, 0, 0, 0, 0, 0, 0, 0, 0]"
  by (simp add: upt_rec) (simp add: numeral_eq_Suc)

lemma demo_inodes:
  "inode_at demo_img demo_ext2 2 = \<lparr>i_mode = 0x4000, i_size = 12, i_block = 6 # replicate 14 0\<rparr>"
  "inode_at demo_img demo_ext2 3 = \<lparr>i_mode = 0x8000, i_size = 2, i_block = 7 # replicate 14 0\<rparr>"
  by (simp_all add: inode_at_def inode_of_def demo_ext2_def le32_def le16_def block_bytes_nth nth_append demo_img_def Let_def demo_lists)

lemma demo_leads: "leads demo_img demo_ext2 2 [''a''] 3"
proof -
  let ?f = "file_byte demo_img 1024 \<lparr>i_mode = 0x4000, i_size = 12, i_block = 6 # replicate 14 0\<rparr>"
  have f: "?f i = demo_img (6144 + i)" if "i < 12" for i using that by (simp add: file_byte_def file_block_def)
  have d: "dirent_of (map ?f [0 ..< 8]) = \<lparr>d_inode = 3, rec_len = 12, name_len = 1, file_type = 1\<rparr>"
    by (simp add: dirent_of_def f le32_def le16_def demo_img_def)
  have t: "text_of (map ?f [8 ..< 9]) = ''a''"
  proof -
    have "char_of (97 :: nat) = CHR ''a''" by code_simp
    then show ?thesis by (simp add: text_of_def f demo_img_def)
  qed
  have "dir_ok ?f 12 0 [(\<lparr>d_inode = 3, rec_len = 12, name_len = 1, file_type = 1\<rparr>, ''a'')]" using d t by simp
  moreover have "inode_exists demo_ext2 2" "bsz demo_ext2 = 1024" by (simp_all add: inode_exists_def demo_ext2_def)
  ultimately show ?thesis
    by (auto simp: demo_inodes is_dir_def blocks_ok_def entry_named_def Let_def
        intro!: exI [of _ "[(\<lparr>d_inode = 3, rec_len = 12, name_len = 1, file_type = 1\<rparr>, ''a'')]"])
qed


end
