(* ===== verification/Paging.thy ===== *)
theory Paging
  imports Pmap
begin

text \<open>
  Isolation of address spaces: over a set of page-table trees whose tables are distinct frames, mapping a page in one
  space changes what that one page resolves to and nothing else.
\<close>

subsection \<open>Walks\<close>

definition user_va :: "u64 \<Rightarrow> bool" where
  "user_va va \<longleftrightarrow> unat va < 2 ^ 47"

text \<open>The table reached from a root after some levels, and the leaf entry for an address, 0 if there is none.\<close>

primrec table_of :: "'a sched_scheme \<Rightarrow> u64 \<Rightarrow> u64 \<Rightarrow> nat \<Rightarrow> u64 option" where
  "table_of k r va 0 = Some r"
| "table_of k r va (Suc d) =
     (case table_of k r va d of
        None \<Rightarrow> None
      | Some t \<Rightarrow> let e = pt_entry k t (idx va (3 - d)) in if e AND PTE_PRESENT = 0 then None else Some (e AND PTE_ADDR_MASK))"

definition leaf :: "'a sched_scheme \<Rightarrow> u64 \<Rightarrow> u64 \<Rightarrow> u64" where
  "leaf k r va = (case table_of k r va 3 of None \<Rightarrow> 0 | Some t \<Rightarrow> pt_entry k t (idx va 0))"

lemma pte_walk_table: "pte_walk 3 r va k = table_of k r va 3"
  by (simp add: numeral_3_eq_3 Let_def)

lemma pmap_resolve_leaf:
  "pmap_resolve r va k = (if leaf k r va AND PTE_PRESENT = 0 then 0 else (leaf k r va AND PTE_ADDR_MASK) OR (va AND 0xFFF))"
  by (simp add: pmap_resolve_def pmap_pte_def pte_walk_table leaf_def Let_def split: option.split)

text \<open>Two addresses that agree on the indices of the first levels reach the same table.\<close>

definition same_path :: "u64 \<Rightarrow> u64 \<Rightarrow> nat \<Rightarrow> bool" where
  "same_path va va' d \<longleftrightarrow> (\<forall>j < d. idx va (3 - j) = idx va' (3 - j))"

lemma same_path_Suc: "same_path va va' (Suc d) \<longleftrightarrow> same_path va va' d \<and> idx va (3 - d) = idx va' (3 - d)"
  by (auto simp: same_path_def less_Suc_eq)

lemma same_path_sym: "same_path va va' d \<Longrightarrow> same_path va' va d"
  by (simp add: same_path_def)

lemma same_path_le: "same_path va va' d \<Longrightarrow> d' \<le> d \<Longrightarrow> same_path va va' d'"
  by (simp add: same_path_def)

lemma table_of_path: "same_path va va' d \<Longrightarrow> table_of k r va d = table_of k r va' d"
  by (induction d) (auto simp: same_path_Suc split: option.split)

lemma table_of_aligned: "page_aligned r \<Longrightarrow> table_of k r va d = Some t \<Longrightarrow> page_aligned t"
  by (cases d) (auto simp: Let_def split: option.splits if_splits)

lemma table_of_cong:
  assumes "\<And>d' t. d' < d \<Longrightarrow> table_of k r va d' = Some t \<Longrightarrow> pt_entry k' t (idx va (3 - d')) = pt_entry k t (idx va (3 - d'))"
  shows "table_of k' r va d = table_of k r va d"
  using assms
proof (induction d)
  case (Suc d)
  then have "table_of k' r va d = table_of k r va d" by simp
  then show ?case using Suc.prems [of d] by (auto split: option.split)
qed simp

subsection \<open>The invariant\<close>

definition tables_ok :: "'a sched_scheme \<Rightarrow> u64 set \<Rightarrow> bool" where
  "tables_ok k R \<longleftrightarrow> pmm_inv (frames k) \<and> unat (total_pages (frames k)) \<le> 2 ^ 40 \<and> bitmap_test (frames k) 0 \<and>
     (\<forall>r \<in> R. page_aligned r) \<and>
     (\<forall>r \<in> R. \<forall>va d t. user_va va \<longrightarrow> d \<le> 3 \<longrightarrow> table_of k r va d = Some t \<longrightarrow> bitmap_test (frames k) (unat t div 4096)) \<and>
     (\<forall>r \<in> R. \<forall>r' \<in> R. \<forall>va va' d d' t. user_va va \<longrightarrow> user_va va' \<longrightarrow> d \<le> 3 \<longrightarrow> d' \<le> 3 \<longrightarrow>
        table_of k r va d = Some t \<longrightarrow> table_of k r' va' d' = Some t \<longrightarrow> r = r' \<and> d = d' \<and> same_path va va' d)"

lemma tables_okD:
  assumes "tables_ok k R"
  shows "pmm_inv (frames k)" "unat (total_pages (frames k)) \<le> 2 ^ 40" "bitmap_test (frames k) 0"
    "r \<in> R \<Longrightarrow> page_aligned r"
    "r \<in> R \<Longrightarrow> user_va va \<Longrightarrow> d \<le> 3 \<Longrightarrow> table_of k r va d = Some t \<Longrightarrow> bitmap_test (frames k) (unat t div 4096)"
    "r \<in> R \<Longrightarrow> r' \<in> R \<Longrightarrow> user_va va \<Longrightarrow> user_va va' \<Longrightarrow> d \<le> 3 \<Longrightarrow> d' \<le> 3 \<Longrightarrow> table_of k r va d = Some t \<Longrightarrow>
       table_of k r' va' d' = Some t \<Longrightarrow> r = r' \<and> d = d' \<and> same_path va va' d"
  using assms unfolding tables_ok_def by blast+

lemma tables_okI:
  assumes "pmm_inv (frames k)" "unat (total_pages (frames k)) \<le> 2 ^ 40" "bitmap_test (frames k) 0" "\<And>r. r \<in> R \<Longrightarrow> page_aligned r"
    "\<And>r va d t. r \<in> R \<Longrightarrow> user_va va \<Longrightarrow> d \<le> 3 \<Longrightarrow> table_of k r va d = Some t \<Longrightarrow> bitmap_test (frames k) (unat t div 4096)"
    "\<And>r r' va va' d d' t. r \<in> R \<Longrightarrow> r' \<in> R \<Longrightarrow> user_va va \<Longrightarrow> user_va va' \<Longrightarrow> d \<le> 3 \<Longrightarrow> d' \<le> 3 \<Longrightarrow>
       table_of k r va d = Some t \<Longrightarrow> table_of k r' va' d' = Some t \<Longrightarrow> r = r' \<and> d = d' \<and> same_path va va' d"
  shows "tables_ok k R"
proof -
  have "\<forall>r \<in> R. \<forall>va d t. user_va va \<longrightarrow> d \<le> 3 \<longrightarrow> table_of k r va d = Some t \<longrightarrow> bitmap_test (frames k) (unat t div 4096)"
    using assms(5) by blast
  moreover have "\<forall>r \<in> R. \<forall>r' \<in> R. \<forall>va va' d d' t. user_va va \<longrightarrow> user_va va' \<longrightarrow> d \<le> 3 \<longrightarrow> d' \<le> 3 \<longrightarrow>
      table_of k r va d = Some t \<longrightarrow> table_of k r' va' d' = Some t \<longrightarrow> r = r' \<and> d = d' \<and> same_path va va' d"
    using assms(6) by blast
  ultimately show ?thesis using assms(1-4) unfolding tables_ok_def by blast
qed

subsection \<open>A fresh table\<close>

lemma frame_address:
  assumes "0 < s" "s < 2 ^ 40"
  shows "of_nat (s * PAGE_SIZE) \<noteq> (0 :: u64)" "page_aligned (of_nat (s * PAGE_SIZE))" "unat (of_nat (s * PAGE_SIZE) :: u64) div 4096 = s"
proof -
  have u: "unat (of_nat (s * PAGE_SIZE) :: u64) = s * 4096" using assms(2) by (subst unat_of_nat_u64) (simp_all add: PAGE_SIZE_def)
  then show "unat (of_nat (s * PAGE_SIZE) :: u64) div 4096 = s" by simp
  show "of_nat (s * PAGE_SIZE) \<noteq> (0 :: u64)" using u assms(1) by (metis mult_is_0 unat_0 neq0_conv zero_neq_numeral)
  have "take_bit 40 s = s" using assms(2) by (simp add: take_bit_nat_eq_self)
  then have b: "bit s j \<Longrightarrow> j < 40" for j by (metis bit_take_bit_iff)
  have "of_nat (s * PAGE_SIZE) = (push_bit 12 (of_nat s) :: u64)" by (simp add: push_bit_eq_mult PAGE_SIZE_def)
  then show "page_aligned (of_nat (s * PAGE_SIZE))"
    unfolding page_aligned_def by (intro bit_word_eqI) (use b in \<open>fastforce simp: bit_simps bit_addr_mask\<close>)
qed

text \<open>A frame from the allocator: it was not in use, and its address is that of a frame.\<close>

lemma alloc_page_frame:
  assumes "pmm_inv (frames k)" "unat (total_pages (frames k)) \<le> 2 ^ 40" "bitmap_test (frames k) 0" "alloc_page k = (page, k')"
  shows "page = 0 \<and> k' = k \<and> free_pages (frames k) = 0 \<or>
    page \<noteq> 0 \<and> (\<exists>p. page = hhdm_of k p \<and> p \<noteq> 0 \<and> page_aligned p \<and> \<not> bitmap_test (frames k) (unat p div 4096) \<and>
       (\<exists>f. k' = k\<lparr>frames := f\<rparr> \<and> pmm_inv f \<and> total_pages f = total_pages (frames k) \<and> hhdm_offset f = hhdm_offset (frames k) \<and>
          (\<forall>i. bitmap_test f i \<longleftrightarrow> bitmap_test (frames k) i \<or> i = unat p div 4096) \<and> free_pages f = free_pages (frames k) - 1))"
using assms(1)
proof (cases rule: pmm_alloc_cases [where n = 1 and p = "frames k"])
  case Fail
  have "\<not> page_free (frames k) i" for i
  proof
    assume "page_free (frames k) i"
    then have "run_free (frames k) (unat (total_pages (frames k))) i 1" by (auto simp: page_free_def run_free_def less_Suc_eq le_less)
    then show False using Fail(2) by auto
  qed
  then have "free_count (frames k) = 0" by (auto simp: free_count_def count_upto_def page_free_def)
  then show ?thesis using Fail(1) assms(1,4) by (auto simp: alloc_page_def pmm_inv_def)
next
  case (Run s)
  let ?p = "of_nat (s * PAGE_SIZE) :: u64"
  have "s < unat (total_pages (frames k))" "\<not> bitmap_test (frames k) s" using Run(5) by (auto simp: run_free_def)
  moreover from this have "s \<noteq> 0" using assms(3) by (cases s) auto
  ultimately have s: "0 < s" "s < 2 ^ 40" "\<not> bitmap_test (frames k) s" using assms(2) by auto
  note f = frame_address [OF s(1,2)]
  have "page = hhdm_of k ?p" "k' = k\<lparr>frames := take_run s 1 (frames k)\<rparr>"
    using Run(2) assms(4) by (auto simp: alloc_page_def hhdm_of_def)
  moreover have "bitmap_test (take_run s 1 (frames k)) i \<longleftrightarrow> bitmap_test (frames k) i \<or> i = s" for i
    using frames.alloc_marks [OF assms(1), of 1 i] Run(2,3,4) by auto
  moreover define p f' where "p = ?p" and "f' = take_run s 1 (frames k)"
  moreover have "pmm_inv f'" "total_pages f' = total_pages (frames k)" "hhdm_offset f' = hhdm_offset (frames k)" "free_pages f' = free_pages (frames k) - 1"
    using take_run_inv [OF assms(1) Run(5)] by (simp_all add: f'_def take_run_def)
  ultimately have "page \<noteq> 0 \<and> page = hhdm_of k p \<and> p \<noteq> 0 \<and> page_aligned p \<and> \<not> bitmap_test (frames k) (unat p div 4096) \<and>
      k' = k\<lparr>frames := f'\<rparr> \<and> pmm_inv f' \<and> total_pages f' = total_pages (frames k) \<and> hhdm_offset f' = hhdm_offset (frames k) \<and>
      (\<forall>i. bitmap_test f' i \<longleftrightarrow> bitmap_test (frames k) i \<or> i = unat p div 4096) \<and> free_pages f' = free_pages (frames k) - 1"
    using f s(3) Run(3) by (simp add: hhdm_of_def del: of_nat_mult)
  then show ?thesis by blast
qed

subsection \<open>Installing a table\<close>

lemma entry_of_table:
  assumes "page_aligned p" "flags AND PTE_ADDR_MASK = 0"
  shows "(p OR PTE_PRESENT OR PTE_WRITE OR flags) AND PTE_ADDR_MASK = p" "(p OR PTE_PRESENT OR flags) AND PTE_ADDR_MASK = p"
    "(p OR PTE_PRESENT OR PTE_WRITE OR flags) AND PTE_PRESENT \<noteq> 0" "(p OR PTE_PRESENT OR flags) AND PTE_PRESENT \<noteq> 0"
proof -

  have "PTE_PRESENT AND PTE_ADDR_MASK = 0" "PTE_WRITE AND PTE_ADDR_MASK = 0" by (simp_all add: PTE_ADDR_MASK_def)
  then show "(p OR PTE_PRESENT OR PTE_WRITE OR flags) AND PTE_ADDR_MASK = p" "(p OR PTE_PRESENT OR flags) AND PTE_ADDR_MASK = p"
    using assms by (simp_all add: bit.conj_disj_distrib2 page_aligned_def)
  have "bit ((p OR PTE_PRESENT OR PTE_WRITE OR flags) AND PTE_PRESENT) 0" "bit ((p OR PTE_PRESENT OR flags) AND PTE_PRESENT) 0"
    by (simp_all add: bit_and_iff bit_or_iff)
  then show "(p OR PTE_PRESENT OR PTE_WRITE OR flags) AND PTE_PRESENT \<noteq> 0" "(p OR PTE_PRESENT OR flags) AND PTE_PRESENT \<noteq> 0"
    by (metis bit_0_eq bot_apply bot_bool_def)+
qed

text \<open>
  The effect of writing an entry of a table that one walk reaches: other walks see it only when they go through the same table
  and the same index.
\<close>

lemma set_entry_seen:
  assumes "tables_ok k R" "r \<in> R" "user_va va" "d \<le> 3" "table_of k r va d = Some t"
    "r' \<in> R" "user_va va'" "d' \<le> 3" "table_of k r' va' d' = Some t'"
  shows "pt_entry (set_entry t (idx va (3 - d)) v k) t' (idx va' (3 - d')) =
    (if r' = r \<and> d' = d \<and> same_path va va' (Suc d) then v else pt_entry k t' (idx va' (3 - d')))"
proof -
  have al: "page_aligned t" "page_aligned t'" using table_of_aligned tables_okD(4) [OF assms(1)] assms by blast+
  show ?thesis
  proof (cases "t' = t")
    case True
    then have u: "r = r'" "d = d'" "same_path va va' d" using tables_okD(6) [OF assms(1,2,6,3,7,4,8,5)] assms(9) by blast+
    then show ?thesis using True al by (auto simp: pt_entry_set same_path_Suc)
  next
    case False
    moreover have "\<not> (r' = r \<and> d' = d \<and> same_path va va' (Suc d))"
    proof
      assume "r' = r \<and> d' = d \<and> same_path va va' (Suc d)"
      then have "table_of k r' va' d' = table_of k r va d" using table_of_path same_path_le by (metis le_SucI order_refl)
      then show False using assms(5,9) False by simp
    qed
    ultimately show ?thesis using al by (auto simp: pt_entry_set)
  qed
qed

text \<open>A frame outside all tables that is filled with zeros: no walk notices.\<close>

lemma fresh_table:
  assumes ok: "tables_ok k R" and a: "table_alloc k = (p, k')" "p \<noteq> 0"
  shows "tables_ok k' R" "page_aligned p" "bitmap_test (frames k') (unat p div 4096)" "unat i < 512 \<Longrightarrow> pt_entry k' p i = 0"
    "r \<in> R \<Longrightarrow> user_va va \<Longrightarrow> d \<le> 3 \<Longrightarrow> table_of k' r va d = table_of k r va d"
    "r \<in> R \<Longrightarrow> user_va va \<Longrightarrow> d \<le> 3 \<Longrightarrow> table_of k r va d = Some t \<Longrightarrow> t \<noteq> p \<and> (unat i < 512 \<longrightarrow> pt_entry k' t i = pt_entry k t i)"
    "free_pages (frames k') = free_pages (frames k) - 1" "\<And>j. bitmap_test (frames k) j \<Longrightarrow> bitmap_test (frames k') j"
proof -
  obtain page k1 where al: "alloc_page k = (page, k1)" by (cases "alloc_page k")
  have "page \<noteq> 0" using a al by (auto simp: table_alloc_def split: if_splits)
  then obtain q f where q: "page = hhdm_of k q" "q \<noteq> 0" "page_aligned q" "\<not> bitmap_test (frames k) (unat q div 4096)"
    and f: "k1 = k\<lparr>frames := f\<rparr>" "pmm_inv f" "total_pages f = total_pages (frames k)" "hhdm_offset f = hhdm_offset (frames k)"
      "\<And>i. bitmap_test f i \<longleftrightarrow> bitmap_test (frames k) i \<or> i = unat q div 4096" "free_pages f = free_pages (frames k) - 1"
    using alloc_page_frame [OF tables_okD(1,2,3) [OF ok] al] by auto
  have h: "hhdm_of k1 q = hhdm_of k q" by (simp add: f(1,4) hhdm_of_def)
  have pk: "p = q" "k' = zero_page (hhdm_of k1 q) k1"
    using a al \<open>page \<noteq> 0\<close> q(1) f(4) by (auto simp: table_alloc_def h) (auto simp: hhdm_of_def f(1))
  have fr: "frames k' = f" by (simp add: pk zero_page_def f(1))
  show p: "page_aligned p" "bitmap_test (frames k') (unat p div 4096)" using q(3) by (simp_all add: pk(1) fr f(5))
  show "unat i < 512 \<Longrightarrow> pt_entry k' p i = 0" using pt_entry_zero [OF p(1)] by (simp add: pk)
  have only: "only_page p k k'"
    using zero_page_only [of p k1] by (simp add: pk only_page_def f(1,4) hhdm_of_def)
  have other: "t \<noteq> p \<and> (unat i < 512 \<longrightarrow> pt_entry k' t i = pt_entry k t i)"
    if "r \<in> R" "user_va va" "d \<le> 3" "table_of k r va d = Some t" for r va d t i
  proof -
    have "t \<noteq> p" using tables_okD(5) [OF ok that] q(4) by (auto simp: pk(1))
    then show ?thesis using pt_entry_other [OF only p(1) table_of_aligned [OF tables_okD(4) [OF ok that(1)] that(4)]] by simp
  qed
  then show "r \<in> R \<Longrightarrow> user_va va \<Longrightarrow> d \<le> 3 \<Longrightarrow> table_of k r va d = Some t \<Longrightarrow> t \<noteq> p \<and> (unat i < 512 \<longrightarrow> pt_entry k' t i = pt_entry k t i)" .
  have same: "table_of k' r va d = table_of k r va d" if "r \<in> R" "user_va va" "d \<le> 3" for r va d
    using that(3) by (intro table_of_cong) (use other [OF that(1,2)] in \<open>metis idx_less less_imp_le_nat order_trans\<close>)
  then show "r \<in> R \<Longrightarrow> user_va va \<Longrightarrow> d \<le> 3 \<Longrightarrow> table_of k' r va d = table_of k r va d" .
  show "tables_ok k' R" using ok f(2,3,5) unfolding tables_ok_def fr by (simp add: same)
  show "free_pages (frames k') = free_pages (frames k) - 1" "\<And>j. bitmap_test (frames k) j \<Longrightarrow> bitmap_test (frames k') j"
    by (simp_all add: fr f(5,6))
qed

text \<open>Entering an empty table below a table that had no entry there.\<close>

lemma install_walks:
  assumes ok: "tables_ok k R" and at: "r \<in> R" "user_va va" "d < 3" "table_of k r va d = Some t" "table_of k r va (Suc d) = None"
    and e: "e AND PTE_ADDR_MASK = p" "e AND PTE_PRESENT \<noteq> 0" "page_aligned p" "\<forall>i. unat i < 512 \<longrightarrow> pt_entry k p i = 0"
    and fresh: "\<forall>r' \<in> R. \<forall>va' d'. user_va va' \<longrightarrow> d' \<le> 3 \<longrightarrow> table_of k r' va' d' \<noteq> Some p"
    and w: "r' \<in> R" "user_va va'" "d' \<le> 3"
  shows "table_of (set_entry t (idx va (3 - d)) e k) r' va' d' =
    (if r' = r \<and> Suc d \<le> d' \<and> same_path va va' (Suc d) then (if d' = Suc d then Some p else None) else table_of k r' va' d')"
  using w(3)
proof (induction d')
  case (Suc d')
  let ?k = "set_entry t (idx va (3 - d)) e k"
  have IH: "table_of ?k r' va' d' = (if r' = r \<and> Suc d \<le> d' \<and> same_path va va' (Suc d) then (if d' = Suc d then Some p else None) else table_of k r' va' d')"
    using Suc by simp
  show ?case
  proof (cases "r' = r \<and> Suc d \<le> d' \<and> same_path va va' (Suc d)")
    case True
    have "t \<noteq> p" using fresh at(1,2,3,4) by (metis less_imp_le_nat)
    then have "pt_entry ?k p (idx va' (3 - d')) = 0"
      using pt_entry_set [OF table_of_aligned [OF tables_okD(4) [OF ok at(1)] at(4)] e(3), of "idx va (3 - d)" "idx va' (3 - d')" e k]
        e(4) by simp
    then show ?thesis using True IH by (auto split: if_splits)
  next
    case False
    show ?thesis
    proof (cases "table_of k r' va' d'")
      case None
      then have "\<not> (r' = r \<and> d' = d \<and> same_path va va' (Suc d))"
        using at(4) table_of_path [of va va' d k r] by (auto simp: same_path_Suc)
      then show ?thesis using False IH None by auto
    next
      case (Some t')
      then have "pt_entry ?k t' (idx va' (3 - d')) = (if r' = r \<and> d' = d \<and> same_path va va' (Suc d) then e else pt_entry k t' (idx va' (3 - d')))"
        using set_entry_seen [OF ok at(1,2) _ at(4) w(1,2) _ Some, of e] at(3) Suc.prems by simp
      then show ?thesis using False IH Some e(1,2) by (auto simp: Let_def)
    qed
  qed
qed (use at in simp)

lemma table_of_None: "table_of k r va a = None \<Longrightarrow> a \<le> b \<Longrightarrow> table_of k r va b = None"
  by (induction b) (auto simp: le_Suc_eq)

lemma same_path_trans: "same_path a b d \<Longrightarrow> same_path b c d \<Longrightarrow> same_path a c d"
  by (simp add: same_path_def)

lemma install_ok:
  assumes ok: "tables_ok k R" and at: "r \<in> R" "user_va va" "d < 3" "table_of k r va d = Some t" "table_of k r va (Suc d) = None"
    and e: "e AND PTE_ADDR_MASK = p" "e AND PTE_PRESENT \<noteq> 0" "page_aligned p" "\<forall>i. unat i < 512 \<longrightarrow> pt_entry k p i = 0"
    and fresh: "\<forall>r' \<in> R. \<forall>va' d'. user_va va' \<longrightarrow> d' \<le> 3 \<longrightarrow> table_of k r' va' d' \<noteq> Some p"
    and used: "bitmap_test (frames k) (unat p div 4096)"
  shows "tables_ok (set_entry t (idx va (3 - d)) e k) R" "table_of (set_entry t (idx va (3 - d)) e k) r va (Suc d) = Some p"
    "r' \<in> R \<Longrightarrow> user_va va' \<Longrightarrow> leaf (set_entry t (idx va (3 - d)) e k) r' va' = leaf k r' va'"
proof -
  let ?k = "set_entry t (idx va (3 - d)) e k"
  note walks = install_walks [OF ok at e fresh]
  have fr: "frames ?k = frames k" by (simp add: set_entry_def)
  show "table_of ?k r va (Suc d) = Some p" using walks [OF at(1,2), of "Suc d"] at(3) by (simp add: same_path_def)
  have split: "r' = r \<and> d' = Suc d \<and> same_path va va' (Suc d) \<and> x = p \<or> table_of k r' va' d' = Some x"
    if "r' \<in> R" "user_va va'" "d' \<le> 3" "table_of ?k r' va' d' = Some x" for r' va' d' x
    using walks [OF that(1-3)] that(4) by (auto split: if_splits)
  have "bitmap_test (frames k) (unat x div 4096)" if "r' \<in> R" "user_va va'" "d' \<le> 3" "table_of ?k r' va' d' = Some x" for r' va' d' x
    using split [OF that] used tables_okD(5) [OF ok that(1-3)] by blast
  moreover have "r1 = r2 \<and> d1 = d2 \<and> same_path va1 va2 d1"
    if "r1 \<in> R" "r2 \<in> R" "user_va va1" "user_va va2" "d1 \<le> 3" "d2 \<le> 3" "table_of ?k r1 va1 d1 = Some x" "table_of ?k r2 va2 d2 = Some x"
    for r1 r2 va1 va2 d1 d2 x
  proof -
    have "table_of k r1 va1 d1 \<noteq> Some p" "table_of k r2 va2 d2 \<noteq> Some p" using fresh that(1-6) by blast+
    then show ?thesis using split [OF that(1,3,5,7)] split [OF that(2,4,6,8)]
      tables_okD(6) [OF ok that(1-6), of x] same_path_trans [OF same_path_sym, of va va1 "Suc d" va2] by auto
  qed
  ultimately show "tables_ok ?k R" using tables_okD(1-4) [OF ok] by (intro tables_okI) (simp_all only: fr)
  show "leaf ?k r' va' = leaf k r' va'" if "r' \<in> R" "user_va va'"
  proof (cases "r' = r \<and> same_path va va' (Suc d)")
    case True
    then have "table_of k r' va' 3 = None" using at(3,5) table_of_path [of va va' "Suc d" k r] table_of_None [of k r va' "Suc d" 3] by auto
    moreover have "pt_entry ?k p (idx va' 0) = 0"
      using pt_entry_set [OF table_of_aligned [OF tables_okD(4) [OF ok at(1)] at(4)] e(3), of "idx va (3 - d)" "idx va' 0" e k]
        e(4) fresh at(1,2,3,4) by (metis idx_less less_imp_le_nat)
    ultimately show ?thesis using True walks [OF that, of 3] at(3) by (auto simp: leaf_def)
  next
    case False
    then have w: "table_of ?k r' va' 3 = table_of k r' va' 3" using walks [OF that, of 3] by auto
    show ?thesis
    proof (cases "table_of k r' va' 3")
      case (Some x)
      then show ?thesis using set_entry_seen [OF ok at(1,2) _ at(4) that _ Some, of e] at(3) w by (simp add: leaf_def)
    qed (simp add: leaf_def w)
  qed
qed

lemma no_table:
  assumes "tables_ok k R" "table_alloc k = (0, k')"
  shows "k' = k" "free_pages (frames k) = 0"
proof -
  obtain page k1 where al: "alloc_page k = (page, k1)" by (cases "alloc_page k")
  have "page = 0"
  proof (rule ccontr)
    assume "page \<noteq> 0"
    then obtain q f where "page = hhdm_of k q" "q \<noteq> 0" "k1 = k\<lparr>frames := f\<rparr>" "hhdm_offset f = hhdm_offset (frames k)"
      using alloc_page_frame [OF tables_okD(1,2,3) [OF assms(1)] al] by auto
    then show False using assms(2) al \<open>page \<noteq> 0\<close> by (auto simp: table_alloc_def hhdm_of_def)
  qed
  then show "k' = k" "free_pages (frames k) = 0"
    using alloc_page_frame [OF tables_okD(1,2,3) [OF assms(1)] al] assms(2) al by (auto simp: table_alloc_def)
qed

subsection \<open>Frames that are no tables\<close>

text \<open>A frame in use that no walk passes through, and states that agree on what a frame holds.\<close>

definition spare :: "'a sched_scheme \<Rightarrow> u64 set \<Rightarrow> u64 \<Rightarrow> bool" where
  "spare k R f \<longleftrightarrow> page_aligned f \<and> bitmap_test (frames k) (unat f div 4096) \<and>
     (\<forall>r \<in> R. \<forall>va d. user_va va \<longrightarrow> d \<le> 3 \<longrightarrow> table_of k r va d \<noteq> Some f)"

definition page_same :: "'a sched_scheme \<Rightarrow> 'a sched_scheme \<Rightarrow> u64 \<Rightarrow> bool" where
  "page_same k k' f \<longleftrightarrow> hhdm_offset (frames k') = hhdm_offset (frames k) \<and> (\<forall>x. unat (x - hhdm_of k f) < 4096 \<longrightarrow> kmem k' x = kmem k x)"

definition mem_step :: "'a sched_scheme \<Rightarrow> 'a sched_scheme \<Rightarrow> bool" where
  "mem_step k k' \<longleftrightarrow> k' = k\<lparr>frames := frames k', kmem := kmem k'\<rparr>"

lemma page_same_trans: "page_same k k' f \<Longrightarrow> page_same k' k'' f \<Longrightarrow> page_same k k'' f"
  by (simp add: page_same_def hhdm_of_def)

lemma mem_step_refl [simp]: "mem_step k k"
  by (simp add: mem_step_def)

lemma mem_stepI: "k' = k\<lparr>frames := f, kmem := m\<rparr> \<Longrightarrow> mem_step k k'"
  by (simp add: mem_step_def)

lemma mem_step_trans: "mem_step k k' \<Longrightarrow> mem_step k' k'' \<Longrightarrow> mem_step k k''"
proof -
  assume a: "mem_step k k'" "mem_step k' k''"
  have "k'' = (k\<lparr>frames := frames k', kmem := kmem k'\<rparr>)\<lparr>frames := frames k'', kmem := kmem k''\<rparr>"
    using a unfolding mem_step_def by metis
  then show ?thesis by (intro mem_stepI [where f = "frames k''" and m = "kmem k''"]) simp
qed

text \<open>Writing one frame leaves the others as they are.\<close>

lemma only_page_same:
  assumes "only_page t k k'" "page_aligned t" "page_aligned f" "f \<noteq> t" shows "page_same k k' f"
proof -
  have "kmem k' x = kmem k x" if "unat (x - hhdm_of k f) < 4096" for x
  proof -
    define off where "off = unat (x - hhdm_of k f)"
    have "x = hhdm_of k f + of_nat off" by (simp add: off_def)
    then have "x - hhdm_of k t = f + of_nat off - t" by (simp add: hhdm_of_def)
    moreover have "4096 \<le> unat (f + of_nat off - t)" using page_gap [OF assms(2,3), of off] that assms(4) by (simp add: off_def not_less)
    ultimately have "4096 \<le> unat (x - hhdm_of k t)" by (simp only:)
    then show ?thesis using assms(1) by (simp add: only_page_def)
  qed
  then show ?thesis using assms(1) by (simp add: page_same_def only_page_def)
qed

lemma set_entry_only:
  assumes "unat i < 512" shows "only_page t k (set_entry t i v k)"
proof -
  have "8 \<le> unat (x - (hhdm_of k t + 8 * i))" if "4096 \<le> unat (x - hhdm_of k t)" for x
  proof -
    have u: "unat (8 * i) = 8 * unat i" using assms by (simp add: unat_word_ariths)
    have "x - (hhdm_of k t + 8 * i) = (x - hhdm_of k t) - 8 * i" by simp
    moreover have "unat ((x - hhdm_of k t) - 8 * i) = unat (x - hhdm_of k t) - 8 * unat i"
      using that assms u by (subst unat_sub_u64) (simp_all add: word_le_nat_alt)
    ultimately have "unat (x - (hhdm_of k t + 8 * i)) = unat (x - hhdm_of k t) - 8 * unat i" by (simp only:)
    then show ?thesis using that assms by simp
  qed
  then show ?thesis by (simp add: only_page_def set_entry_def store_other)
qed

lemma fresh_table_step:
  assumes ok: "tables_ok k R" and a: "table_alloc k = (p, k')" "p \<noteq> 0"
  shows "mem_step k k'" "only_page p k k'" "\<not> bitmap_test (frames k) (unat p div 4096)" "spare k R f \<Longrightarrow> f \<noteq> p \<and> spare k' R f \<and> page_same k k' f"
proof -
  obtain page k1 where al: "alloc_page k = (page, k1)" by (cases "alloc_page k")
  have "page \<noteq> 0" using a al by (auto simp: table_alloc_def split: if_splits)
  then obtain q f where q: "page = hhdm_of k q" "\<not> bitmap_test (frames k) (unat q div 4096)"
    and f: "k1 = k\<lparr>frames := f\<rparr>" "hhdm_offset f = hhdm_offset (frames k)"
    using alloc_page_frame [OF tables_okD(1,2,3) [OF ok] al] by auto
  have h: "hhdm_of k1 q = hhdm_of k q" by (simp add: f hhdm_of_def)
  have pk: "p = q" "k' = zero_page (hhdm_of k1 q) k1"
    using a al \<open>page \<noteq> 0\<close> q(1) f(2) by (auto simp: table_alloc_def h) (auto simp: hhdm_of_def f(1))
  show n: "\<not> bitmap_test (frames k) (unat p div 4096)" using q(2) pk(1) by simp
  show "mem_step k k'" by (rule mem_stepI [where f = f and m = "kmem k'"]) (simp add: pk(2) zero_page_def f(1))
  show only: "only_page p k k'" using zero_page_only [of p k1] by (simp add: pk only_page_def f hhdm_of_def)
  show "f \<noteq> p \<and> spare k' R f \<and> page_same k k' f" if "spare k R f" for f
  proof -
    have "f \<noteq> p" using that n by (auto simp: spare_def)
    moreover have "spare k' R f" using that fresh_table(5,8) [OF ok a] by (simp add: spare_def)
    ultimately show ?thesis using only_page_same [OF only fresh_table(2) [OF ok a]] that by (simp add: spare_def)
  qed
qed

subsection \<open>Walking down\<close>

text \<open>Adding the table that is missing on the next level.\<close>

lemma descend_step:
  assumes ok: "tables_ok k R" and at: "r \<in> R" "user_va va" "Suc l \<le> 3" "table_of k r va (3 - Suc l) = Some t" and fl: "flags AND PTE_ADDR_MASK = 0"
    and e: "pt_entry k t (idx va (Suc l)) AND PTE_PRESENT = 0" and a: "table_alloc k = (p, k1)" "p \<noteq> 0"
  defines "k2 \<equiv> set_entry t (idx va (Suc l)) (p OR PTE_PRESENT OR PTE_WRITE OR flags) k1"
  shows "descend (Suc l) t va flags k = descend l p va flags k2" "tables_ok k2 R" "table_of k2 r va (3 - l) = Some p"
    "r' \<in> R \<Longrightarrow> user_va va' \<Longrightarrow> leaf k2 r' va' = leaf k r' va'" "free_pages (frames k2) = free_pages (frames k) - 1"
    "bitmap_test (frames k) j \<Longrightarrow> bitmap_test (frames k2) j" "mem_step k k2" "spare k R f \<Longrightarrow> spare k2 R f \<and> page_same k k2 f"
proof -
  let ?d = "3 - Suc l"
  have d: "Suc ?d = 3 - l" "?d < 3" "3 - ?d = Suc l" using at(3) by auto
  note f = fresh_table [OF ok a] and g = fresh_table_step [OF ok a] and e' = entry_of_table [OF fresh_table(2) [OF ok a] fl]
  have none: "table_of k r va (Suc ?d) = None" using at(4) e unfolding table_of.simps d(3) by simp
  have t1: "table_of k1 r va ?d = Some t" "table_of k1 r va (Suc ?d) = None"
    using f(5) [OF at(1,2), of ?d] f(5) [OF at(1,2), of "Suc ?d"] d(2) at(4) none by simp_all
  have fresh: "\<forall>r' \<in> R. \<forall>va' d'. user_va va' \<longrightarrow> d' \<le> 3 \<longrightarrow> table_of k1 r' va' d' \<noteq> Some p" using f(5,6) by metis
  have zero: "\<forall>i. unat i < 512 \<longrightarrow> pt_entry k1 p i = 0" using f(4) by blast
  note ins = install_ok [OF f(1) at(1,2) d(2) t1 e'(1,3) f(2) zero fresh f(3), unfolded d(3), folded k2_def]
  have fr: "frames k2 = frames k1" by (simp add: k2_def set_entry_def)
  show "descend (Suc l) t va flags k = descend l p va flags k2" using a e e'(1) by (simp add: k2_def)
  show "tables_ok k2 R" "table_of k2 r va (3 - l) = Some p" using ins(1,2) unfolding d(1) by blast+
  show "leaf k2 r' va' = leaf k r' va'" if "r' \<in> R" "user_va va'"
  proof -
    have "leaf k1 r' va' = leaf k r' va'" using f(5) [OF that, of 3] f(6) [OF that, of 3] by (auto simp: leaf_def split: option.split)
    then show ?thesis using ins(3) [OF that] by simp
  qed
  show "free_pages (frames k2) = free_pages (frames k) - 1" "bitmap_test (frames k) j \<Longrightarrow> bitmap_test (frames k2) j" using f(7,8) fr by simp_all
  show "mem_step k k2"
    by (rule mem_step_trans [OF g(1)], rule mem_stepI [where f = "frames k1" and m = "kmem k2"]) (simp add: k2_def set_entry_def)
  show "spare k2 R f \<and> page_same k k2 f" if s: "spare k R f"
  proof -
    note s1 = g(4) [OF s]
    have tf: "t \<noteq> f" using at s by (auto simp: spare_def)
    have ta: "page_aligned t" using table_of_aligned [OF tables_okD(4) [OF ok at(1)] at(4)] .
    have "table_of k2 r' va' d' \<noteq> Some f" if "r' \<in> R" "user_va va'" "d' \<le> 3" for r' va' d'
      using install_walks [OF f(1) at(1,2) d(2) t1 e'(1,3) f(2) zero fresh that, unfolded d(3), folded k2_def] s1 that by (auto simp: spare_def)
    then have "spare k2 R f" using s1 by (simp add: spare_def fr)
    moreover have "page_same k1 k2 f" unfolding k2_def
      by (rule only_page_same [OF set_entry_only [OF idx_less] ta]) (use s tf in \<open>auto simp: spare_def\<close>)
    ultimately show ?thesis using s1 page_same_trans by blast
  qed
qed

lemma descend_ok:
  assumes "tables_ok k R" "r \<in> R" "user_va va" "l \<le> 3" "table_of k r va (3 - l) = Some t" "flags AND PTE_ADDR_MASK = 0"
    "descend l t va flags k = (res, k')"
  shows "tables_ok k' R \<and> (\<forall>r' va'. r' \<in> R \<longrightarrow> user_va va' \<longrightarrow> leaf k' r' va' = leaf k r' va') \<and>
    (\<forall>t'. res = Some t' \<longrightarrow> table_of k' r va 3 = Some t') \<and> (l \<le> unat (free_pages (frames k)) \<longrightarrow> res \<noteq> None) \<and>
    (\<forall>j. bitmap_test (frames k) j \<longrightarrow> bitmap_test (frames k') j) \<and> unat (free_pages (frames k)) \<le> unat (free_pages (frames k')) + l \<and>
    mem_step k k' \<and> (\<forall>f. spare k R f \<longrightarrow> spare k' R f \<and> page_same k k' f)"
  using assms(1,4,5,7)
proof (induction l arbitrary: t k)
  case 0
  then have "res = Some t" "k' = k" by simp_all
  then show ?case using 0 by (simp add: page_same_def)
next
  case (Suc l)
  let ?d = "3 - Suc l" and ?e = "pt_entry k t (idx va (Suc l))"
  have d: "Suc ?d = 3 - l" "3 - ?d = Suc l" using Suc.prems(2) by auto
  show ?case
  proof (cases "?e AND PTE_PRESENT = 0")
    case False
    then have "table_of k r va (Suc ?d) = Some (?e AND PTE_ADDR_MASK)" using Suc.prems(3) unfolding table_of.simps d(2) by simp
    then show ?thesis using Suc.IH [OF Suc.prems(1), of "?e AND PTE_ADDR_MASK"] Suc.prems(2,4) False unfolding d(1) by (auto simp: le_SucI)
  next
    case True
    obtain p k1 where a: "table_alloc k = (p, k1)" by (cases "table_alloc k")
    show ?thesis
    proof (cases "p = 0")
      case True
      then have "k1 = k" "free_pages (frames k) = 0" using no_table Suc.prems(1) a by auto
      then show ?thesis using Suc.prems(1,4) a True \<open>?e AND PTE_PRESENT = 0\<close> by (auto simp: page_same_def)
    next
      case False
      note s = descend_step [OF Suc.prems(1) assms(2,3) Suc.prems(2,3) assms(6) True a False]
      let ?k = "set_entry t (idx va (Suc l)) (p OR PTE_PRESENT OR PTE_WRITE OR flags) k1"
      have "descend l p va flags ?k = (res, k')" using s(1) Suc.prems(4) by (simp only:)
      note ih = Suc.IH [OF s(2) Suc_leD [OF Suc.prems(2)] s(3) this]
      have fp: "unat (free_pages (frames k)) \<le> unat (free_pages (frames ?k)) + 1" using s(5) by (simp add: unat_sub_cases split: if_splits)
      show ?thesis
      proof (intro conjI)
        show "\<forall>f. spare k R f \<longrightarrow> spare k' R f \<and> page_same k k' f"
        proof (intro allI impI)
          fix f assume "spare k R f"
          then have a: "spare ?k R f" "page_same k ?k f" using s(8) by blast+
          then have "spare k' R f" "page_same ?k k' f" using ih by blast+
          then show "spare k' R f \<and> page_same k k' f" using page_same_trans [OF a(2)] by blast
        qed
        show "mem_step k k'" by (rule mem_step_trans [OF s(7)]) (use ih in blast)
      qed (use ih s(4,6) fp in auto)
    qed
  qed
qed

subsection \<open>Mapping a page\<close>

definition same_page :: "u64 \<Rightarrow> u64 \<Rightarrow> bool" where
  "same_page va va' \<longleftrightarrow> unat va div 4096 = unat va' div 4096"

lemma idx_value: "unat (idx va l) = unat va div 2 ^ (12 + l * 9) mod 512"
proof -
  have "idx va l = take_bit 9 (drop_bit (12 + l * 9) va)" by (simp add: idx_def take_bit_eq_mask mask_eq_exp_minus_1)
  moreover have "take_bit 64 (unat va) = unat va" by (simp add: take_bit_nat_eq_self)
  ultimately have "unat (idx va l) = take_bit 9 (drop_bit (12 + l * 9) (unat va))"
    by (simp add: unsigned_take_bit_eq unsigned_drop_bit_eq)
  then show ?thesis by (simp add: take_bit_eq_mod drop_bit_eq_div)
qed

lemma path_page:
  assumes "user_va va" "user_va va'" "same_path va va' 3" "idx va 0 = idx va' 0" shows "same_page va va'"
proof -
  have j: "idx va (3 - j) = idx va' (3 - j)" if "j < 3" for j using assms(3) that by (simp add: same_path_def)
  have i: "unat (idx va i) = unat (idx va' i)" if "i \<le> 3" for i
    using j [of "3 - i"] assms(4) that by (cases "i = 0") auto
  have digits: "n div 4096 = n div 4096 mod 512 + 512 * (n div 2097152 mod 512 + 512 * (n div 1073741824 mod 512 + 512 * (n div 549755813888 mod 512)))"
    if "n < 2 ^ 47" for n :: nat
  proof -
    have "n div 549755813888 < 512" using that by (simp add: less_mult_imp_div_less)
    then have "n div 549755813888 mod 512 = n div 549755813888" by simp
    moreover have "n div 1073741824 = n div 1073741824 mod 512 + 512 * (n div 549755813888)" by (simp add: div_mult2_eq [of n 1073741824 512, simplified])
    moreover have "n div 2097152 = n div 2097152 mod 512 + 512 * (n div 1073741824)" by (simp add: div_mult2_eq [of n 2097152 512, simplified])
    moreover have "n div 4096 = n div 4096 mod 512 + 512 * (n div 2097152)" by (simp add: div_mult2_eq [of n 4096 512, simplified])
    ultimately show ?thesis by simp
  qed
  have e: "unat va div 4096 mod 512 = unat va' div 4096 mod 512" using i [of 0] by (simp add: idx_value)
  have e1: "unat va div 2097152 mod 512 = unat va' div 2097152 mod 512" using i [of 1] by (simp add: idx_value)
  have e2: "unat va div 1073741824 mod 512 = unat va' div 1073741824 mod 512" using i [of 2] by (simp add: idx_value)
  have e3: "unat va div 549755813888 mod 512 = unat va' div 549755813888 mod 512" using i [of 3] by (simp add: idx_value)
  note e = e e1 e2 e3
  show ?thesis unfolding same_page_def
    using digits [of "unat va", unfolded e] digits [of "unat va'"] assms(1,2) unfolding user_va_def by (metis e)
qed

lemma page_path: "same_page va va' \<Longrightarrow> idx va l = idx va' l"
proof -
  assume p: "same_page va va'"
  have "n div 2 ^ (12 + l * 9) = n div 4096 div 2 ^ (l * 9)" for n :: nat by (simp add: power_add div_mult2_eq)
  then have "unat (idx va l) = unat (idx va' l)" using p by (simp add: idx_value same_page_def)
  then show ?thesis by (simp add: word_unat_eq_iff)
qed

lemma same_page_iff:
  assumes "user_va va" "user_va va'" shows "same_path va va' (Suc 3) \<longleftrightarrow> same_page va va'"
proof
  assume "same_path va va' (Suc 3)"
  then show "same_page va va'" using path_page [OF assms] unfolding same_path_Suc [of va va' 3] by simp
qed (simp add: page_path same_path_def)

text \<open>Writing the leaf entry of an address whose tables exist.\<close>

lemma set_leaf_tables:
  assumes ok: "tables_ok k R" and at: "r \<in> R" "user_va va" "table_of k r va 3 = Some t" and w: "r' \<in> R" "user_va va'" "d' \<le> 3"
  shows "table_of (set_entry t (idx va 0) v k) r' va' d' = table_of k r' va' d'"
proof (rule table_of_cong)
  fix d t' assume "d < d'" "table_of k r' va' d = Some t'"
  then show "pt_entry (set_entry t (idx va 0) v k) t' (idx va' (3 - d)) = pt_entry k t' (idx va' (3 - d))"
    using set_entry_seen [OF ok at(1,2) order_refl at(3) w(1,2), of d t' v] w(3) by simp
qed

lemma set_leaf:
  assumes ok: "tables_ok k R" and at: "r \<in> R" "user_va va" "table_of k r va 3 = Some t"
  shows "tables_ok (set_entry t (idx va 0) v k) R"
    "r' \<in> R \<Longrightarrow> user_va va' \<Longrightarrow> leaf (set_entry t (idx va 0) v k) r' va' = (if r' = r \<and> same_page va va' then v else leaf k r' va')"
proof -
  let ?k = "set_entry t (idx va 0) v k"
  have fr: "frames ?k = frames k" by (simp add: set_entry_def)
  note seen = set_entry_seen [OF ok at(1,2) order_refl at(3), of _ _ _ _ v, simplified diff_self_eq_0]
  note same = set_leaf_tables [OF ok at, of _ _ _ v]
  show "tables_ok ?k R" using tables_okD(1-4) [OF ok] tables_okD(5) [OF ok] tables_okD(6) [OF ok]
    by (intro tables_okI) (simp_all only: fr same)
  show "leaf ?k r' va' = (if r' = r \<and> same_page va va' then v else leaf k r' va')" if "r' \<in> R" "user_va va'"
  proof (cases "table_of k r' va' 3")
    case None
    moreover have "\<not> (r' = r \<and> same_page va va')"
      using None at(3) table_of_path [of va va' 3 k r] page_path [of va va'] by (auto simp: same_path_def)
    ultimately show ?thesis using same [OF that, of 3] by (auto simp: leaf_def)
  next
    case (Some t')
    then show ?thesis using seen [OF that order_refl Some] same [OF that, of 3] same_page_iff [OF at(2) that(2)] by (auto simp: leaf_def)
  qed
qed

lemma pmap_map_leaf:
  assumes "tables_ok k R" "r \<in> R" "user_va va" "flags AND PTE_ADDR_MASK = 0" "page_aligned pa" "3 \<le> unat (free_pages (frames k))"
  shows "tables_ok (pmap_map r va pa flags k) R"
    "r' \<in> R \<Longrightarrow> user_va va' \<Longrightarrow>
      leaf (pmap_map r va pa flags k) r' va' = (if r' = r \<and> same_page va va' then pa OR PTE_PRESENT OR flags else leaf k r' va')"
proof -
  obtain res k1 where d: "descend 3 r va flags k = (res, k1)" by (cases "descend 3 r va flags k")
  have ok: "tables_ok k1 R" "\<forall>r' va'. r' \<in> R \<longrightarrow> user_va va' \<longrightarrow> leaf k1 r' va' = leaf k r' va'"
    "\<forall>t'. res = Some t' \<longrightarrow> table_of k1 r va 3 = Some t'" "res \<noteq> None"
    using descend_ok [OF assms(1-3) order_refl _ assms(4) d] assms(6) by simp_all
  then obtain t where t: "res = Some t" "table_of k1 r va 3 = Some t" by auto
  have m: "pmap_map r va pa flags k = set_entry t (idx va 0) (pa OR PTE_PRESENT OR flags) k1"
    using assms(5) by (simp add: pmap_map_def d t(1) page_aligned_def)
  show "tables_ok (pmap_map r va pa flags k) R"
    "r' \<in> R \<Longrightarrow> user_va va' \<Longrightarrow> leaf (pmap_map r va pa flags k) r' va' = (if r' = r \<and> same_page va va' then pa OR PTE_PRESENT OR flags else leaf k r' va')"
    unfolding m using set_leaf [OF ok(1) assms(2,3) t(2)] ok(2) by simp_all
qed

lemma pmap_unmap_leaf:
  assumes "tables_ok k R" "r \<in> R" "user_va va"
  shows "tables_ok (pmap_unmap r va k) R"
    "r' \<in> R \<Longrightarrow> user_va va' \<Longrightarrow> leaf (pmap_unmap r va k) r' va' = (if r' = r \<and> same_page va va' then 0 else leaf k r' va')"
proof -
  have "tables_ok (pmap_unmap r va k) R \<and>
      (\<forall>r' va'. r' \<in> R \<longrightarrow> user_va va' \<longrightarrow> leaf (pmap_unmap r va k) r' va' = (if r' = r \<and> same_page va va' then 0 else leaf k r' va'))"
  proof (cases "table_of k r va 3")
    case None
    have "leaf k r va' = 0" if "same_page va va'" for va'
    proof -
      have "table_of k r va' 3 = None" using None table_of_path [of va va' 3 k r] page_path [OF that] by (simp add: same_path_def)
      then show ?thesis by (simp add: leaf_def)
    qed
    then show ?thesis using None assms(1) by (simp add: pmap_unmap_def pmap_pte_def pte_walk_table)
  next
    case (Some t)
    then show ?thesis using set_leaf [OF assms Some, where v = 0] by (simp add: pmap_unmap_def pmap_pte_def pte_walk_table)
  qed
  then show "tables_ok (pmap_unmap r va k) R"
    "r' \<in> R \<Longrightarrow> user_va va' \<Longrightarrow> leaf (pmap_unmap r va k) r' va' = (if r' = r \<and> same_page va va' then 0 else leaf k r' va')" by blast+
qed

text \<open>
  (C35) Isolation of address spaces.  Over any set of address spaces with separate page tables, and with three free frames for
  missing tables, mapping a user page in one space makes exactly the addresses of that page resolve to the frame, and unmapping
  makes exactly them resolve to nothing; every other address of that space and every address of every other space resolves as before,
  and the page tables stay separate.
\<close>

theorem address_spaces_isolated:
  assumes "tables_ok k R" "r \<in> R" "user_va va" "flags AND PTE_ADDR_MASK = 0" "page_aligned pa" "3 \<le> unat (free_pages (frames k))"
  shows "tables_ok (pmap_map r va pa flags k) R \<and> tables_ok (pmap_unmap r va k) R \<and>
    (\<forall>r' \<in> R. \<forall>va'. user_va va' \<longrightarrow>
       pmap_resolve r' va' (pmap_map r va pa flags k) = (if r' = r \<and> same_page va va' then pa OR (va' AND 0xFFF) else pmap_resolve r' va' k) \<and>
       pmap_resolve r' va' (pmap_unmap r va k) = (if r' = r \<and> same_page va va' then 0 else pmap_resolve r' va' k))"
  using pmap_map_leaf [OF assms] pmap_unmap_leaf [OF assms(1-3)] entry_of_table(2,4) [OF assms(5,4)]
  by (auto simp: pmap_resolve_leaf)

text \<open>Two empty address spaces, in the frames 1 and 2 of a small memory.\<close>

definition two_spaces :: sched where
  "two_spaces = two_sched\<lparr>kmem := (\<lambda>_. 0), frames := free3_pmm\<lparr>bitmap := (\<lambda>_. 7), total_pages := 8, free_pages := 5\<rparr>\<rparr>"

lemma two_spaces_entry: "pt_entry two_spaces t i = 0"
  unfolding pt_entry_def by (rule bit_word_eqI) (simp add: bit_load two_spaces_def)

lemma two_spaces_ok: "tables_ok two_spaces {0x1000, 0x2000}"
proof -
  have t: "table_of two_spaces r va d = (if d = 0 then Some r else None)" for r va d
    by (induction d) (simp_all add: two_spaces_entry)
  have f: "bitmap_test (frames two_spaces) 0" "bitmap_test (frames two_spaces) 1" "bitmap_test (frames two_spaces) 2"
    by (simp_all add: two_spaces_def bitmap_test_bit bit_numeral_rec)
  have "pmm_inv (frames two_spaces)"
    by (simp add: two_spaces_def free3_pmm_def pmm_inv_def hhdm_ok_def free_count_def count_upto_code PAGE_SIZE_def bitmap_test_bit upt_rec)
  moreover have "page_aligned 0x1000" "page_aligned 0x2000" by (simp_all add: page_aligned_def PTE_ADDR_MASK_def)
  moreover have "unat (total_pages (frames two_spaces)) \<le> 2 ^ 40" by (simp add: two_spaces_def)
  ultimately show ?thesis using f by (intro tables_okI) (auto simp: t same_path_def split: if_splits)
qed

theorem address_spaces_isolated_witness:
  "pmap_resolve 0x1000 0x400123 (pmap_map 0x1000 0x400000 0x5000 (PTE_USER OR PTE_WRITE) two_spaces) = 0x5123 \<and>
   pmap_resolve 0x2000 0x400123 (pmap_map 0x1000 0x400000 0x5000 (PTE_USER OR PTE_WRITE) two_spaces) = 0"
proof -
  have "user_va 0x400000" "user_va 0x400123" "same_page 0x400000 0x400123" "page_aligned 0x5000" "(PTE_USER OR PTE_WRITE) AND PTE_ADDR_MASK = 0"
    "3 \<le> unat (free_pages (frames two_spaces))"
    by (simp_all add: user_va_def same_page_def page_aligned_def PTE_ADDR_MASK_def two_spaces_def)
  moreover have "pmap_resolve 0x2000 0x400123 two_spaces = 0"
    by (simp add: pmap_resolve_def pmap_pte_def numeral_3_eq_3 two_spaces_entry)
  ultimately show ?thesis using address_spaces_isolated [OF two_spaces_ok, where r = "0x1000" and va = "0x400000" and flags = "PTE_USER OR PTE_WRITE" and pa = "0x5000"] by simp
qed

end
