(* ===== verification/Elf.thy ===== *)
theory Elf
  imports Paging Devfs Block
begin

text \<open>
  The program loader, \<open>kernel/src/proc/elf.c\<close>: a new address space is filled with the segments of an executable and with the
  initial stack.  The file is the data of its node, a list of bytes; bytes outside it are unspecified.
\<close>

subsection \<open>Headers\<close>

abbreviation ELF_MAGIC_VAL :: u32 where "ELF_MAGIC_VAL \<equiv> 0x464C457F"
abbreviation ELF_EXEC :: u16 where "ELF_EXEC \<equiv> 2"
abbreviation ELF_X86_64 :: u16 where "ELF_X86_64 \<equiv> 62"
abbreviation PT_LOAD :: u32 where "PT_LOAD \<equiv> 1"
abbreviation USER_STACK_TOP :: u64 where "USER_STACK_TOP \<equiv> 0x70000000"
abbreviation USER_STACK_PAGES :: u64 where "USER_STACK_PAGES \<equiv> 16"
abbreviation EXEC_MAX_ARGS :: nat where "EXEC_MAX_ARGS \<equiv> 32"
abbreviation EXEC_MAX_ARG_LEN :: nat where "EXEC_MAX_ARG_LEN \<equiv> 256"
abbreviation EHDR_SIZE :: nat where "EHDR_SIZE \<equiv> 64"
abbreviation PHDR_SIZE :: nat where "PHDR_SIZE \<equiv> 56"

definition le64 :: "u8 list \<Rightarrow> nat \<Rightarrow> u64" where
  "le64 bs i = ucast (le32 bs i) OR push_bit 32 (ucast (le32 bs (i + 4)))"

record elf64_ehdr =
  e_magic :: u32
  e_type :: u16
  e_machine :: u16
  e_entry :: u64
  e_phoff :: u64
  e_phnum :: u16

record elf64_phdr =
  p_type :: u32
  p_offset :: u64
  p_vaddr :: u64
  p_filesz :: u64
  p_memsz :: u64

record exec_image =
  img_pml4 :: u64
  img_entry :: u64
  img_rsp :: u64
  img_brk :: u64

definition ehdr_of :: "u8 list \<Rightarrow> elf64_ehdr" where
  "ehdr_of d = \<lparr>e_magic = le32 d 0, e_type = le16 d 16, e_machine = le16 d 18, e_entry = le64 d 24, e_phoff = le64 d 32, e_phnum = le16 d 56\<rparr>"

definition phdr_of :: "u8 list \<Rightarrow> nat \<Rightarrow> elf64_phdr" where
  "phdr_of d b = \<lparr>p_type = le32 d b, p_offset = le64 d (b + 8), p_vaddr = le64 d (b + 16), p_filesz = le64 d (b + 32), p_memsz = le64 d (b + 40)\<rparr>"

definition phdrs :: "u8 list \<Rightarrow> elf64_phdr list" where
  "phdrs d = (let h = ehdr_of d in map (\<lambda>i. phdr_of d (unat (e_phoff h) + PHDR_SIZE * i)) [0 ..< unat (e_phnum h)])"

subsection \<open>Memory of the new space\<close>

text \<open>Storing bytes at a kernel address.\<close>

definition poke :: "u64 \<Rightarrow> u8 list \<Rightarrow> 'a sched_scheme \<Rightarrow> 'a sched_scheme" where
  "poke a bs k = k\<lparr>kmem := (\<lambda>x. if unat (x - a) < length bs then bs ! unat (x - a) else kmem k x)\<rparr>"

definition page_room :: "u64 \<Rightarrow> nat" where
  "page_room va = 4096 - unat (va AND 0xFFF)"

lemma page_room_pos: "0 < page_room va"
proof -
  have "va AND 0xFFF = take_bit 12 va" by (simp add: take_bit_eq_mask mask_eq_exp_minus_1)
  then have "unat (va AND 0xFFF) < 4096" by (simp add: take_bit_eq_mod unat_mod)
  then show ?thesis by (simp add: page_room_def)
qed

function copy_to_va :: "u64 \<Rightarrow> u64 \<Rightarrow> u8 list \<Rightarrow> 'a sched_scheme \<Rightarrow> bool \<times> 'a sched_scheme" where
  "copy_to_va pml4 va bs k =
     (if bs = [] then (True, k)
      else let pa = pmap_resolve pml4 (va AND NOT 0xFFF) k
           in if pa = 0 then (False, k)
              else let n = min (length bs) (page_room va)
                   in copy_to_va pml4 (va + of_nat n) (drop n bs) (poke (pa + hhdm_offset (frames k) + (va AND 0xFFF)) (take n bs) k))"
  by pat_completeness auto
termination
  by (relation "measure (\<lambda>(pml4, va, bs, k). length bs)") (auto simp: page_room_pos min_def)

declare copy_to_va.simps [simp del]

definition map_zeroed_page :: "u64 \<Rightarrow> u64 \<Rightarrow> nat \<Rightarrow> bool \<times> 'a sched_scheme \<Rightarrow> bool \<times> 'a sched_scheme" where
  "map_zeroed_page pml4 va i = (\<lambda>(ok, k).
     if \<not> ok then (ok, k)
     else let (frame, k) = alloc_page k
          in if frame = 0 then (False, k)
             else let k = zero_page frame k
                  in (True, pmap_map pml4 (va + of_nat i * 4096) (frame - hhdm_offset (frames k)) (PTE_USER OR PTE_WRITE) k))"

definition map_zeroed_range :: "u64 \<Rightarrow> u64 \<Rightarrow> u64 \<Rightarrow> 'a sched_scheme \<Rightarrow> bool \<times> 'a sched_scheme" where
  "map_zeroed_range pml4 va bytes k =
     (let pages = (bytes + 4096 - 1) div 4096 in fold (map_zeroed_page pml4 va) [0 ..< unat pages] (True, k))"

text \<open>Filling a segment; what an address resolves to is not checked here.\<close>

function fill_segment :: "u64 \<Rightarrow> u64 \<Rightarrow> u8 list \<Rightarrow> 'a sched_scheme \<Rightarrow> 'a sched_scheme" where
  "fill_segment pml4 va bs k =
     (if bs = [] then k
      else let pa = pmap_resolve pml4 va k; n = min (length bs) (page_room va)
           in fill_segment pml4 (va + of_nat n) (drop n bs) (poke (pa + hhdm_offset (frames k)) (take n bs) k))"
  by pat_completeness auto
termination
  by (relation "measure (\<lambda>(pml4, va, bs, k). length bs)") (auto simp: page_room_pos min_def)

declare fill_segment.simps [simp del]

subsection \<open>The initial stack\<close>

definition arg_bytes :: "string \<Rightarrow> u8 list" where
  "arg_bytes s = take EXEC_MAX_ARG_LEN (map of_char s @ [0])"

definition u64_bytes :: "u64 \<Rightarrow> u8 list" where
  "u64_bytes v = map (\<lambda>i. ucast (drop_bit (8 * i) v)) [0 ..< 8]"

text \<open>Copying the strings, the last one first, and collecting their addresses.\<close>

fun push_args :: "u64 \<Rightarrow> string list \<Rightarrow> u64 \<Rightarrow> 'a sched_scheme \<Rightarrow> (u64 \<times> u64 list) option \<times> 'a sched_scheme" where
  "push_args pml4 [] sp k = (Some (sp, []), k)"
| "push_args pml4 (a # as) sp k =
     (case push_args pml4 as sp k of
        (None, k) \<Rightarrow> (None, k)
      | (Some (sp, addrs), k) \<Rightarrow>
          let bs = arg_bytes a; sp = sp - of_nat (length bs); (ok, k) = copy_to_va pml4 sp bs k
          in if ok then (Some (sp, sp # addrs), k) else (None, k))"

definition build_user_stack :: "u64 \<Rightarrow> string list option \<Rightarrow> 'a sched_scheme \<Rightarrow> u64 \<times> 'a sched_scheme" where
  "build_user_stack pml4 argv k =
     (let (ok, k) = map_zeroed_range pml4 (USER_STACK_TOP - USER_STACK_PAGES * 4096) (USER_STACK_PAGES * 4096) k
      in if \<not> ok then (0, k)
         else let args = take EXEC_MAX_ARGS (case argv of None \<Rightarrow> [] | Some as \<Rightarrow> as); argc = length args
              in case push_args pml4 args USER_STACK_TOP k of
                   (None, k) \<Rightarrow> (0, k)
                 | (Some (sp, addrs), k) \<Rightarrow>
                     let sp = sp AND NOT 0xF; vec = addrs @ [0, 0];
                         sp = (sp - of_nat (8 * length vec)) AND NOT 0xF;
                         (ok, k) = copy_to_va pml4 sp (concat (map u64_bytes vec)) k
                     in if \<not> ok then (0, k)
                        else let sp = sp - 8; (ok, k) = copy_to_va pml4 sp (u64_bytes (of_nat argc)) k
                             in if ok then (sp, k) else (0, k))"

subsection \<open>Loading\<close>

definition map_segment :: "u64 \<Rightarrow> elf64_phdr \<Rightarrow> bool \<times> 'a sched_scheme \<Rightarrow> bool \<times> 'a sched_scheme" where
  "map_segment pml4 ph = (\<lambda>(ok, k).
     if \<not> ok \<or> p_type ph \<noteq> PT_LOAD then (ok, k) else map_zeroed_range pml4 (p_vaddr ph) (p_memsz ph) k)"

definition image_end :: "elf64_phdr list \<Rightarrow> u64" where
  "image_end phs = fold (\<lambda>ph e. if p_type ph = PT_LOAD \<and> p_vaddr ph + p_memsz ph > e then p_vaddr ph + p_memsz ph else e) phs 0"

definition file_slice :: "u8 list \<Rightarrow> u64 \<Rightarrow> u64 \<Rightarrow> u8 list" where
  "file_slice d off n = map (\<lambda>i. d ! (unat off + i)) [0 ..< unat n]"

definition copy_segment :: "u64 \<Rightarrow> u8 list \<Rightarrow> elf64_phdr \<Rightarrow> 'a sched_scheme \<Rightarrow> 'a sched_scheme" where
  "copy_segment pml4 d ph k =
     (if p_type ph \<noteq> PT_LOAD \<or> p_filesz ph = 0 then k
      else fill_segment pml4 (p_vaddr ph) (file_slice d (p_offset ph) (p_filesz ph)) k)"

definition load_image :: "u8 list \<Rightarrow> string list option \<Rightarrow> 'a sched_scheme \<Rightarrow> exec_image option \<times> 'a sched_scheme" where
  "load_image d argv k =
     (let h = ehdr_of d
      in if e_magic h \<noteq> ELF_MAGIC_VAL \<or> e_type h \<noteq> ELF_EXEC \<or> e_machine h \<noteq> ELF_X86_64 then (None, k)
         else let (pml4, k) = pmap_create k
              in if pml4 = 0 then (None, k)
                 else let (ok, k) = fold (map_segment pml4) (phdrs d) (True, k)
                      in if \<not> ok then (None, pmap_destroy pml4 k)
                         else if \<not> (\<exists>ph \<in> set (phdrs d). p_type ph = PT_LOAD) then (None, pmap_destroy pml4 k)
                         else let k = fold (copy_segment pml4 d) (phdrs d) k; (sp, k) = build_user_stack pml4 argv k
                              in if sp = 0 then (None, pmap_destroy pml4 k)
                                 else (Some \<lparr>img_pml4 = pml4, img_entry = e_entry h, img_rsp = sp,
                                             img_brk = (image_end (phdrs d) + 4096 - 1) AND NOT (4096 - 1)\<rparr>, k))"

definition exec_build_image :: "string \<Rightarrow> string list option \<Rightarrow> 'a kdev_scheme \<Rightarrow> exec_image option \<times> 'a kdev_scheme" where
  "exec_build_image path argv k =
     (let (p, v) = vfs_resolve (\<lambda>i. sched_find_pid k i \<noteq> None) path (fsys k); k = k\<lparr>fsys := v\<rparr>; n = node_at v p
      in if p = 0 \<or> vtype n \<noteq> VFS_FILE then (None, k)
         else if length (vdata n) < EHDR_SIZE then (None, k)
         else load_image (vdata n) argv k)"

end
