(* ===== verification/Gfx.thy ===== *)
theory Gfx
  imports Tty
begin

text \<open>
  Drawing primitives, \<open>kernel/src/drivers/gfx.c\<close>: points, rectangles, lines and circles drawn into the framebuffer of the console.
  A C \<open>int\<close> is an integer wrapped to 32 bits where the code adds or multiplies.
\<close>

subsection \<open>Operations\<close>

definition clamp_x :: "tty \<Rightarrow> int \<Rightarrow> int" where
  "clamp_x t x = (let w = sint (tty_width t) in if x < 0 then 0 else if x \<ge> w then w - 1 else x)"

definition clamp_y :: "tty \<Rightarrow> int \<Rightarrow> int" where
  "clamp_y t y = (let h = sint (tty_height t) in if y < 0 then 0 else if y \<ge> h then h - 1 else y)"

definition px :: "int \<Rightarrow> int \<Rightarrow> u32 \<Rightarrow> tty \<Rightarrow> tty" where
  "px x y color t = t\<lparr>vmem := store (fb t + 4 * (of_int y * of_nat (pitch t div 4) + of_int x)) color (vmem t)\<rparr>"

definition gfx_fill_rect :: "int \<Rightarrow> int \<Rightarrow> int \<Rightarrow> int \<Rightarrow> u32 \<Rightarrow> tty \<Rightarrow> tty" where
  "gfx_fill_rect x y w h color t =
     (if w \<le> 0 \<or> h \<le> 0 then t
      else let x0 = clamp_x t x; y0 = clamp_y t y; x1 = clamp_x t (wrap32 (x + w - 1)); y1 = clamp_y t (wrap32 (y + h - 1))
           in fold (\<lambda>yy. fold (\<lambda>xx. px xx yy color) [x0 .. x1]) [y0 .. y1] t)"

definition gfx_rect :: "int \<Rightarrow> int \<Rightarrow> int \<Rightarrow> int \<Rightarrow> u32 \<Rightarrow> tty \<Rightarrow> tty" where
  "gfx_rect x y w h color t =
     (if w \<le> 0 \<or> h \<le> 0 then t
      else let t = gfx_fill_rect x y w 1 color t; t = gfx_fill_rect x (wrap32 (y + h - 1)) w 1 color t;
               t = gfx_fill_rect x y 1 h color t
           in gfx_fill_rect (wrap32 (x + w - 1)) y 1 h color t)"

definition on_screen :: "tty \<Rightarrow> int \<Rightarrow> int \<Rightarrow> bool" where
  "on_screen t x y \<longleftrightarrow> x \<ge> 0 \<and> y \<ge> 0 \<and> x < sint (tty_width t) \<and> y < sint (tty_height t)"

definition line_px :: "u32 \<Rightarrow> int \<times> int \<Rightarrow> tty \<Rightarrow> tty" where
  "line_px color p t = (if on_screen t (fst p) (snd p) then px (fst p) (snd p) color t else t)"

text \<open>One turn of the loop of \<open>gfx_line\<close> past the exit: the next point and error term.\<close>

definition line_next :: "int \<Rightarrow> int \<Rightarrow> int \<Rightarrow> int \<Rightarrow> int \<times> int \<Rightarrow> int \<Rightarrow> (int \<times> int) \<times> int" where
  "line_next sx sy dx dy = (\<lambda>(x0, y0) err.
     let e2 = wrap32 (err * 2);
         (err, x0) = (if e2 > - dy then (wrap32 (err - dy), wrap32 (x0 + sx)) else (err, x0));
         (err, y0) = (if e2 < dx then (wrap32 (err + dx), wrap32 (y0 + sy)) else (err, y0))
     in ((x0, y0), err))"

partial_function (option) line_loop :: "int \<Rightarrow> int \<Rightarrow> int \<Rightarrow> int \<Rightarrow> int \<times> int \<Rightarrow> u32 \<Rightarrow> int \<times> int \<Rightarrow> int \<Rightarrow> tty \<Rightarrow> tty option" where
  "line_loop sx sy dx dy q color p err t =
     (let t = line_px color p t
      in if p = q then Some t
         else let (p, err) = line_next sx sy dx dy p err in line_loop sx sy dx dy q color p err t)"

definition gfx_line :: "int \<Rightarrow> int \<Rightarrow> int \<Rightarrow> int \<Rightarrow> u32 \<Rightarrow> tty \<Rightarrow> tty option" where
  "gfx_line x0 y0 x1 y1 color t =
     (let dx = wrap32 (x1 - x0); dy = wrap32 (y1 - y0); sx = (if dx > 0 then 1 else -1); sy = (if dy > 0 then 1 else -1);
          dx = (if dx < 0 then wrap32 (- dx) else dx); dy = (if dy < 0 then wrap32 (- dy) else dy)
      in line_loop sx sy dx dy (x1, y1) color (x0, y0) (wrap32 (dx - dy)) t)"

definition octants :: "int \<Rightarrow> int \<Rightarrow> int \<Rightarrow> int \<Rightarrow> (int \<times> int) list" where
  "octants cx cy x y = [(cx + x, cy + y), (cx - x, cy + y), (cx + y, cy + x), (cx - y, cy + x),
     (cx - x, cy - y), (cx + x, cy - y), (cx - y, cy - x), (cx + y, cy - x)]"

function circle_loop :: "int \<Rightarrow> int \<Rightarrow> u32 \<Rightarrow> int \<Rightarrow> int \<Rightarrow> int \<Rightarrow> tty \<Rightarrow> tty" where
  "circle_loop cx cy color x y err t =
     (if x < y then t
      else let t = fold (\<lambda>p. px (wrap32 (fst p)) (wrap32 (snd p)) color) (octants cx cy x y) t; y = y + 1;
               (x, err) = (if err < 0 then (x, wrap32 (err + 2 * y + 1)) else (x - 1, wrap32 (err + 2 * (y - (x - 1)) + 1)))
           in circle_loop cx cy color x y err t)"
  by pat_completeness auto
termination
  by (relation "measure (\<lambda>(cx, cy, color, x, y, err, t). nat (x - y + 1))") (auto split: if_splits)

declare circle_loop.simps [simp del]

definition gfx_circle :: "int \<Rightarrow> int \<Rightarrow> int \<Rightarrow> u32 \<Rightarrow> tty \<Rightarrow> tty" where
  "gfx_circle cx cy r color t = circle_loop cx cy color r 0 (wrap32 (1 - r)) t"

fun isqrt_start :: "nat \<Rightarrow> nat \<Rightarrow> nat" where
  "isqrt_start v b = (if b > v then isqrt_start v (b div 4) else b)"

declare isqrt_start.simps [simp del]

fun isqrt_loop :: "nat \<Rightarrow> nat \<Rightarrow> nat \<Rightarrow> nat" where
  "isqrt_loop v res b =
     (if b = 0 then res
      else if v \<ge> res + b then isqrt_loop (v - (res + b)) (res div 2 + b) (b div 4)
      else isqrt_loop v (res div 2) (b div 4))"

declare isqrt_loop.simps [simp del]

definition isqrt :: "nat \<Rightarrow> nat" where
  "isqrt v = isqrt_loop v 0 (isqrt_start v (2 ^ 30))"

definition gfx_fill_circle :: "int \<Rightarrow> int \<Rightarrow> int \<Rightarrow> u32 \<Rightarrow> tty \<Rightarrow> tty" where
  "gfx_fill_circle cx cy r color t =
     fold (\<lambda>dy t. let d = wrap32 (r * r - dy * dy)
                  in if d < 0 then t
                     else let dx = int (isqrt (nat d)) in gfx_fill_rect (wrap32 (cx - dx)) (wrap32 (cy + dy)) (wrap32 (dx * 2 + 1)) 1 color t)
       [wrap32 (- r) .. r] t"

definition gfx_clear :: "u32 \<Rightarrow> tty \<Rightarrow> tty" where
  "gfx_clear color t = gfx_fill_rect 0 0 (sint (tty_width t)) (sint (tty_height t)) color t"

subsection \<open>Square roots\<close>

lemma isqrt_loop_root:
  assumes "s\<^sup>2 \<le> N" "N < (s + 2 ^ k)\<^sup>2"
  shows "let r = isqrt_loop (N - s\<^sup>2) (s * 2 ^ k) (if k = 0 then 0 else 4 ^ (k - 1)) in r\<^sup>2 \<le> N \<and> N < (r + 1)\<^sup>2"
  using assms
proof (induction k arbitrary: s)
  case 0
  then show ?case by (subst isqrt_loop.simps) simp
next
  case (Suc k)
  have q: "(4 :: nat) ^ k div 4 = (if k = 0 then 0 else 4 ^ (k - 1))" by (cases k) simp_all
  have sq: "(s + 2 ^ k)\<^sup>2 = s\<^sup>2 + (s * 2 ^ Suc k + 4 ^ k)" by (simp add: power2_eq_square algebra_simps flip: power_mult_distrib)
  show ?case
  proof (cases "(s + 2 ^ k)\<^sup>2 \<le> N")
    case True
    have c: "s * 2 ^ Suc k + 4 ^ k \<le> N - s\<^sup>2" using True sq by linarith
    have "(s + 2 ^ k) * 2 ^ k = s * 2 ^ Suc k div 2 + 4 ^ k" by (simp add: algebra_simps flip: power_mult_distrib)
    then have "isqrt_loop (N - s\<^sup>2) (s * 2 ^ Suc k) (4 ^ k) = isqrt_loop (N - (s + 2 ^ k)\<^sup>2) ((s + 2 ^ k) * 2 ^ k) (4 ^ k div 4)"
      using c sq by (subst isqrt_loop.simps) (simp add: diff_diff_eq)
    moreover have "N < (s + 2 ^ k + 2 ^ k)\<^sup>2" using Suc.prems(2) by (simp add: mult_2 add.assoc)
    ultimately show ?thesis using Suc.IH [OF True] by (simp add: q)
  next
    case False
    have "isqrt_loop (N - s\<^sup>2) (s * 2 ^ Suc k) (4 ^ k) = isqrt_loop (N - s\<^sup>2) (s * 2 ^ k) (4 ^ k div 4)"
      using False sq Suc.prems(1) by (subst isqrt_loop.simps) auto
    then show ?thesis using Suc.IH [OF Suc.prems(1)] False by (simp add: q)
  qed
qed

lemma isqrt_start_power:
  assumes "v < 4 ^ Suc k"
  shows "\<exists>j. v < 4 ^ j \<and> isqrt_start v (4 ^ k) = (if j = 0 then 0 else 4 ^ (j - 1))"
  using assms
proof (induction k)
  case 0
  show ?case
  proof (cases "v = 0")
    case True
    then have "isqrt_start v 1 = 0" by (subst isqrt_start.simps) (simp add: isqrt_start.simps [of 0 0])
    then show ?thesis using True by (intro exI [of _ 0]) simp
  next
    case False
    then have "isqrt_start v 1 = 1" by (subst isqrt_start.simps) simp
    then show ?thesis using 0 by (intro exI [of _ 1]) simp
  qed
next
  case (Suc k)
  show ?case
  proof (cases "v < 4 ^ Suc k")
    case True
    then have "isqrt_start v (4 ^ Suc k) = isqrt_start v (4 ^ k)" by (subst isqrt_start.simps) simp
    then show ?thesis using Suc.IH [OF True] by (simp del: power_Suc)
  next
    case False
    then have "isqrt_start v (4 ^ Suc k) = 4 ^ Suc k" by (subst isqrt_start.simps) simp
    then show ?thesis using Suc.prems by (intro exI [of _ "Suc (Suc k)"]) simp
  qed
qed

lemma isqrt_root: "v < 2 ^ 32 \<Longrightarrow> (isqrt v)\<^sup>2 \<le> v \<and> v < (isqrt v + 1)\<^sup>2"
proof -
  assume "v < 2 ^ 32"
  then obtain j where "v < 4 ^ j" "isqrt_start v (2 ^ 30) = (if j = 0 then 0 else 4 ^ (j - 1))"
    using isqrt_start_power [of v 15] by auto
  moreover have "(2 ^ j)\<^sup>2 = (4 :: nat) ^ j" by (simp add: power2_eq_square flip: power_mult_distrib)
  ultimately show ?thesis using isqrt_loop_root [of 0 v j] by (simp add: isqrt_def Let_def)
qed

subsection \<open>Pixels\<close>

definition gfx_geo :: "tty \<Rightarrow> bool" where
  "gfx_geo t \<longleftrightarrow> geo_ok t \<and> 0 < cols t \<and> 8 * cols t \<le> int (mode_w t) \<and> mode_w t < 2 ^ 31 \<and> mode_h t < 2 ^ 31"

definition pixel :: "tty \<Rightarrow> int \<Rightarrow> int \<Rightarrow> u32" where
  "pixel t x y = load (vmem t) (fb t + 4 * (of_int y * of_nat (pitch t div 4) + of_int x))"

lemma screen_size:
  assumes "gfx_geo t" shows "sint (tty_width t) = 8 * cols t" "sint (tty_height t) = 16 * rows t"
proof -
  have s: "sint (of_int n :: u32) = n" if "0 < n" "n < 2 ^ 31" for n
    using that by (simp add: signed_of_int signed_take_bit_int_eq_self)
  have "0 < cols t" "8 * cols t < 2 ^ 31" using assms by (auto simp: gfx_geo_def)
  then show "sint (tty_width t) = 8 * cols t" using s [of "8 * cols t"] by (simp add: tty_width_def mult.commute)
  have "0 < rows t" "16 * rows t < 2 ^ 31" using assms by (auto simp: gfx_geo_def geo_ok_def)
  then show "sint (tty_height t) = 16 * rows t" using s [of "16 * rows t"] by (simp add: tty_height_def mult.commute)
qed

lemma screen_offset:
  assumes "gfx_geo t" "on_screen t x y"
  shows "4 * (of_int y * of_nat (pitch t div 4) + of_int x) = (of_nat (4 * (nat y * (pitch t div 4) + nat x)) :: u64)"
    "4 * (nat y * (pitch t div 4) + nat x) + 4 \<le> fb_size t" "nat x < pitch t div 4"
proof -
  have s: "0 \<le> x" "0 \<le> y" "x < 8 * cols t" "y < 16 * rows t" using assms by (auto simp: on_screen_def screen_size)
  show "4 * (of_int y * of_nat (pitch t div 4) + of_int x) = (of_nat (4 * (nat y * (pitch t div 4) + nat x)) :: u64)"
    using s(1,2) by simp
  have "nat x < mode_w t" "nat y < mode_h t" "4 * mode_w t \<le> pitch t" using s assms(1) by (auto simp: gfx_geo_def geo_ok_def)
  then show w: "nat x < pitch t div 4" by linarith
  have "(nat y + 1) * (4 * (pitch t div 4)) \<le> mode_h t * pitch t" using \<open>nat y < mode_h t\<close> by (intro mult_mono) auto
  then show "4 * (nat y * (pitch t div 4) + nat x) + 4 \<le> fb_size t" using w by (simp add: fb_size_def algebra_simps)
qed

lemma px_sel [simp]:
  "fb (px x y c t) = fb t" "pitch (px x y c t) = pitch t" "tty_width (px x y c t) = tty_width t" "tty_height (px x y c t) = tty_height t"
  "on_screen (px x y c t) = on_screen t" "gfx_geo (px x y c t) = gfx_geo t" "fb_size (px x y c t) = fb_size t"
  by (simp_all add: px_def tty_width_def tty_height_def on_screen_def gfx_geo_def geo_ok_def fb_size_def fun_eq_iff)

lemma px_draws: "gfx_geo t \<Longrightarrow> on_screen t x y \<Longrightarrow> draws t (px x y c t)"
proof -
  assume g: "gfx_geo t" "on_screen t x y"
  have "fb_size t < 2 ^ 64" using g(1) by (simp add: gfx_geo_def geo_ok_def)
  then show ?thesis unfolding draws_def px_def screen_offset(1) [OF g] using screen_offset(2) [OF g] by (blast intro: store_outside)
qed

lemma slots_apart:
  assumes "o1 + 4 \<le> o2 \<or> o2 + 4 \<le> o1" "o1 + 4 \<le> n" "o2 + 4 \<le> n" "n < 2 ^ 64"
  shows "apart (b + of_nat o1) 4 (b + of_nat o2) 4"
proof -
  have "unat (of_nat o1 :: u64) = o1" "unat (of_nat o2 :: u64) = o2" using assms by (simp_all add: unat_of_nat_u64)
  then show ?thesis using assms by (auto simp: apart_def unat_sub_cases)
qed

lemma slot_gap: "a \<noteq> b \<Longrightarrow> 4 * a + 4 \<le> 4 * b \<or> 4 * b + 4 \<le> 4 * (a :: nat)"
  by linarith

lemma px_slot_inj: "a + P * b = c + P * d \<Longrightarrow> a < P \<Longrightarrow> c < P \<Longrightarrow> a = c \<and> b = (d :: nat)"
proof -
  assume e: "a + P * b = c + P * d" and l: "a < P" "c < P"
  have "(a + P * b) div P = b" "(c + P * d) div P = d" using l by simp_all
  then show ?thesis using e by auto
qed

lemma pixel_px:
  assumes "gfx_geo t" "on_screen t x y" "on_screen t x' y'"
  shows "pixel (px x y c t) x' y' = (if x = x' \<and> y = y' then c else pixel t x' y')"
proof (cases "x = x' \<and> y = y'")
  case True
  then show ?thesis by (simp add: pixel_def px_def)
next
  case False
  let ?o = "\<lambda>x y. 4 * (nat y * (pitch t div 4) + nat x)"
  have nn: "0 \<le> x" "0 \<le> y" "0 \<le> x'" "0 \<le> y'" using assms(2,3) by (auto simp: on_screen_def)
  have "nat y * (pitch t div 4) + nat x \<noteq> nat y' * (pitch t div 4) + nat x'"
    using False nn px_slot_inj [of "nat x" "pitch t div 4" "nat y" "nat x'" "nat y'"] screen_offset(3) [OF assms(1,2)] screen_offset(3) [OF assms(1,3)]
    by (auto simp: algebra_simps)
  then have "?o x' y' + 4 \<le> ?o x y \<or> ?o x y + 4 \<le> ?o x' y'" by (rule slot_gap [OF not_sym])
  moreover have "fb_size t < 2 ^ 64" using assms(1) by (simp add: gfx_geo_def geo_ok_def)
  ultimately have "apart (fb t + of_nat (?o x' y')) 4 (fb t + of_nat (?o x y)) 4"
    using screen_offset(2) [OF assms(1,2)] screen_offset(2) [OF assms(1,3)] by (intro slots_apart)
  moreover have v: "vmem (px x y c t) = store (fb t + of_nat (?o x y)) c (vmem t)"
    unfolding px_def screen_offset(1) [OF assms(1,2)] by simp
  ultimately have "load (store (fb t + of_nat (?o x y)) c (vmem t)) (fb t + of_nat (?o x' y')) = (load (vmem t) (fb t + of_nat (?o x' y')) :: u32)"
    by (intro load_store_apart) simp_all
  then have "pixel (px x y c t) x' y' = pixel t x' y'"
    unfolding pixel_def px_sel screen_offset(1) [OF assms(1,3)] v .
  then show ?thesis using False by auto
qed

text \<open>Drawing a set of points in one colour.\<close>

lemma line_px_sel [simp]:
  "on_screen (line_px c p t) = on_screen t" "gfx_geo (line_px c p t) = gfx_geo t"
  by (simp_all add: line_px_def)

lemma line_px_draws: "gfx_geo t \<Longrightarrow> draws t (line_px c p t)"
  by (simp add: line_px_def px_draws draws_refl)

lemma fold_line_px:
  assumes "gfx_geo t"
  shows "draws t (fold (line_px c) ps t)" (is ?draws)
    "on_screen t x y \<Longrightarrow> pixel (fold (line_px c) ps t) x y = (if (x, y) \<in> set ps then c else pixel t x y)"
proof -
  show ?draws using assms
  proof (induction ps arbitrary: t)
    case (Cons p ps)
    then show ?case using draws_trans [OF line_px_draws [of t c p]] by simp
  qed (simp add: draws_refl)
  show "pixel (fold (line_px c) ps t) x y = (if (x, y) \<in> set ps then c else pixel t x y)" if "on_screen t x y" using assms that
  proof (induction ps arbitrary: t)
    case (Cons p ps)
    have "pixel (line_px c p t) x y = (if p = (x, y) then c else pixel t x y)"
      using pixel_px [of t "fst p" "snd p" x y c] Cons.prems by (auto simp: line_px_def)
    then show ?case using Cons.IH [of "line_px c p t"] Cons.prems by auto
  qed simp
qed

subsection \<open>Lines\<close>

text \<open>A path moves by at most one in each direction.\<close>

fun steps_ok :: "(int \<times> int) list \<Rightarrow> bool" where
  "steps_ok (p # q # ps) \<longleftrightarrow> \<bar>fst q - fst p\<bar> \<le> 1 \<and> \<bar>snd q - snd p\<bar> \<le> 1 \<and> steps_ok (q # ps)"
| "steps_ok _ \<longleftrightarrow> True"

lemma wrap32_id: "- (2 ^ 31) \<le> n \<Longrightarrow> n < 2 ^ 31 \<Longrightarrow> wrap32 n = n"
  by (simp add: wrap32_def signed_take_bit_int_eq_self)

text \<open>After \<open>i\<close> steps across and \<open>j\<close> steps down the error term compares the point with the line.\<close>

lemma line_err_bound:
  fixes i j dx dy :: int
  assumes "0 \<le> i" "i \<le> dx" "0 \<le> j" "j \<le> dy" "err = (j + 1) * dx - (i + 1) * dy"
  shows "i = dx \<Longrightarrow> j < dy \<Longrightarrow> 2 * err \<le> - dy \<and> 2 * err < dx" "j = dy \<Longrightarrow> i < dx \<Longrightarrow> dx \<le> 2 * err \<and> - dy < 2 * err"
proof -
  show "2 * err \<le> - dy \<and> 2 * err < dx" if "i = dx" "j < dy"
  proof -
    have "(j + 1) * dx \<le> dy * dx" using that assms by (intro mult_right_mono) auto
    then have "err \<le> - dy" using that assms(5) by (simp add: algebra_simps)
    then show ?thesis using that assms by linarith
  qed
  show "dx \<le> 2 * err \<and> - dy < 2 * err" if "j = dy" "i < dx"
  proof -
    have "(i + 1) * dy \<le> dx * dy" using that assms by (intro mult_right_mono) auto
    then have "dx \<le> err" using that assms(5) by (simp add: algebra_simps)
    then show ?thesis using that assms by linarith
  qed
qed

definition on_line :: "int \<Rightarrow> int \<Rightarrow> int \<Rightarrow> int \<Rightarrow> int \<Rightarrow> bool" where
  "on_line dx dy i j err \<longleftrightarrow> 0 \<le> i \<and> i \<le> dx \<and> 0 \<le> j \<and> j \<le> dy \<and> err = (j + 1) * dx - (i + 1) * dy \<and> \<bar>err\<bar> \<le> 2 * (dx + dy)"

lemma line_next_step:
  assumes "on_line dx dy i j err" "(i, j) \<noteq> (dx, dy)" "dx < 2 ^ 27" "dy < 2 ^ 27" "\<bar>X\<bar> < 2 ^ 27" "\<bar>Y\<bar> < 2 ^ 27" "\<bar>sx\<bar> = 1" "\<bar>sy\<bar> = 1"
  obtains i' j' err' where "line_next sx sy dx dy (X + sx * i, Y + sy * j) err = ((X + sx * i', Y + sy * j'), err')"
    "on_line dx dy i' j' err'" "i' = i \<or> i' = i + 1" "j' = j \<or> j' = j + 1" "i + j < i' + j'"
proof -
  note l = assms(1) [unfolded on_line_def]
  define a b where "a \<longleftrightarrow> - dy < 2 * err" and "b \<longleftrightarrow> 2 * err < dx"
  have e: "wrap32 (err * 2) = 2 * err" using l assms(3,4) by (subst wrap32_id) auto
  have x: "wrap32 (X + sx * i + sx) = X + sx * (i + 1)" and y: "wrap32 (Y + sy * j + sy) = Y + sy * (j + 1)"
    using l assms(3-8) by (auto simp: wrap32_id abs_if algebra_simps split: if_splits)
  have r: "wrap32 (err - dy) = err - dy" "wrap32 (err + dx) = err + dx" "wrap32 (err - dy + dx) = err - dy + dx"
    using l assms(3,4) by (auto simp: wrap32_id)
  let ?i = "if a then i + 1 else i" and ?j = "if b then j + 1 else j" and ?e = "err - (if a then dy else 0) + (if b then dx else 0)"
  have "line_next sx sy dx dy (X + sx * i, Y + sy * j) err = ((X + sx * ?i, Y + sy * ?j), ?e)"
    unfolding line_next_def by (simp add: Let_def e r x y a_def b_def)
  moreover have "a \<Longrightarrow> i < dx" "b \<Longrightarrow> j < dy"
    using line_err_bound [of i dx j dy err] l assms(2) by (force simp: a_def b_def)+
  then have "on_line dx dy ?i ?j ?e" using l by (auto simp: on_line_def a_def b_def algebra_simps)
  moreover have "a \<or> b"
  proof (rule ccontr)
    assume "\<not> (a \<or> b)"
    then have "dx \<le> - dy" by (simp add: a_def b_def)
    then show False using l assms(2) by auto
  qed
  then have "i + j < ?i + ?j" by auto
  ultimately show thesis using that [of ?i ?j ?e] by simp
qed

lemma line_loop_path:
  assumes "on_line dx dy i j err" "dx < 2 ^ 27" "dy < 2 ^ 27" "\<bar>X\<bar> < 2 ^ 27" "\<bar>Y\<bar> < 2 ^ 27" "\<bar>sx\<bar> = 1" "\<bar>sy\<bar> = 1"
  defines "q \<equiv> (X + sx * dx, Y + sy * dy)"
  shows "\<exists>ps. line_loop sx sy dx dy q c (X + sx * i, Y + sy * j) err t = Some (fold (line_px c) ((X + sx * i, Y + sy * j) # ps) t) \<and>
    steps_ok ((X + sx * i, Y + sy * j) # ps) \<and> last ((X + sx * i, Y + sy * j) # ps) = q"
  using assms(1)
proof (induction "nat (dx + dy - (i + j))" arbitrary: i j err t rule: less_induct)
  case less
  let ?p = "(X + sx * i, Y + sy * j)"
  have eq: "?p = q \<longleftrightarrow> i = dx \<and> j = dy" using assms(6,7) by (auto simp: q_def)
  show ?case
  proof (cases "?p = q")
    case True
    then show ?thesis by (intro exI [of _ "[]"]) (simp add: line_loop.simps)
  next
    case False
    then have ne: "(i, j) \<noteq> (dx, dy)" using eq by simp
    obtain i' j' err' where n: "line_next sx sy dx dy ?p err = ((X + sx * i', Y + sy * j'), err')"
      "on_line dx dy i' j' err'" "i' = i \<or> i' = i + 1" "j' = j \<or> j' = j + 1" "i + j < i' + j'"
      by (rule line_next_step [OF less.prems ne assms(2-7)])
    let ?p' = "(X + sx * i', Y + sy * j')"
    have "nat (dx + dy - (i' + j')) < nat (dx + dy - (i + j))" using n(2,5) by (auto simp: on_line_def)
    then obtain ps where ps: "line_loop sx sy dx dy q c ?p' err' (line_px c ?p t) = Some (fold (line_px c) (?p' # ps) (line_px c ?p t))"
      "steps_ok (?p' # ps)" "last (?p' # ps) = q" using less.hyps [OF _ n(2), of "line_px c ?p t"] by metis
    have "line_loop sx sy dx dy q c ?p err t = line_loop sx sy dx dy q c ?p' err' (line_px c ?p t)"
      using False by (subst line_loop.simps) (simp add: n(1) Let_def)
    moreover have "steps_ok (?p # ?p' # ps)" using n(3,4) assms(6,7) ps(2) by (auto simp: algebra_simps)
    ultimately show ?thesis using ps(1,3) by (intro exI [of _ "?p' # ps"]) simp
  qed
qed

subsection \<open>Properties\<close>

text \<open>
  (C36) Drawing a line ends: between any two points with coordinates below \<open>2 ^ 26\<close> in size the loop stops, having drawn a path
  from the first point to the last that moves by at most one in each direction; exactly the points of the path that
  are on the screen get the colour, and no byte outside the framebuffer changes.
\<close>

theorem gfx_line_total:
  assumes "gfx_geo t" "\<bar>x0\<bar> < 2 ^ 26" "\<bar>y0\<bar> < 2 ^ 26" "\<bar>x1\<bar> < 2 ^ 26" "\<bar>y1\<bar> < 2 ^ 26"
  shows "\<exists>t' ps. gfx_line x0 y0 x1 y1 c t = Some t' \<and> hd ps = (x0, y0) \<and> last ps = (x1, y1) \<and> steps_ok ps \<and>
    (\<forall>x y. on_screen t x y \<longrightarrow> pixel t' x y = (if (x, y) \<in> set ps then c else pixel t x y)) \<and>
    (\<forall>a. fb_size t \<le> unat (a - fb t) \<longrightarrow> vmem t' a = vmem t a)"
proof -
  define dx dy where "dx = \<bar>x1 - x0\<bar>" and "dy = \<bar>y1 - y0\<bar>"
  define sx sy :: int where "sx = (if x1 - x0 > 0 then 1 else -1)" and "sy = (if y1 - y0 > 0 then 1 else -1)"
  have b: "dx < 2 ^ 27" "dy < 2 ^ 27" "\<bar>x0\<bar> < 2 ^ 27" "\<bar>y0\<bar> < 2 ^ 27" "\<bar>sx\<bar> = 1" "\<bar>sy\<bar> = 1"
    using assms by (auto simp: dx_def dy_def sx_def sy_def)
  have q: "x0 + sx * dx = x1" "y0 + sy * dy = y1" by (auto simp: dx_def dy_def sx_def sy_def)
  have w: "wrap32 (x1 - x0) = x1 - x0" "wrap32 (y1 - y0) = y1 - y0" "wrap32 (x0 - x1) = x0 - x1" "wrap32 (y0 - y1) = y0 - y1" "wrap32 (dx - dy) = dx - dy"
    using assms b(1,2) by (simp_all add: wrap32_id dx_def dy_def)
  have "(if x1 - x0 < 0 then wrap32 (- (x1 - x0)) else x1 - x0) = dx" "(if y1 - y0 < 0 then wrap32 (- (y1 - y0)) else y1 - y0) = dy"
    using w by (simp_all add: dx_def dy_def)
  then have l: "gfx_line x0 y0 x1 y1 c t = line_loop sx sy dx dy (x1, y1) c (x0, y0) (dx - dy) t"
    by (simp add: gfx_line_def w(1,2,5) Let_def sx_def sy_def)
  have "0 \<le> dx" "0 \<le> dy" by (simp_all add: dx_def dy_def)
  then have "on_line dx dy 0 0 (dx - dy)" by (auto simp: on_line_def)
  from line_loop_path [OF this b, of c t] obtain ps where ps: "gfx_line x0 y0 x1 y1 c t = Some (fold (line_px c) ((x0, y0) # ps) t)"
    "steps_ok ((x0, y0) # ps)" "last ((x0, y0) # ps) = (x1, y1)" unfolding l by (auto simp: q)
  have "\<forall>a. fb_size t \<le> unat (a - fb t) \<longrightarrow> vmem (fold (line_px c) ((x0, y0) # ps) t) a = vmem t a"
    using fold_line_px(1) [OF assms(1), of c "(x0, y0) # ps"] by (auto simp: draws_def)
  then show ?thesis using ps fold_line_px(2) [OF assms(1), of _ _ c "(x0, y0) # ps"] by (intro exI [of _ "fold (line_px c) ((x0, y0) # ps) t"] exI [of _ "(x0, y0) # ps"]) simp
qed

theorem gfx_line_total_witness: "\<exists>t'. gfx_line (-3) 2 12 40 9 demo_tty = Some t' \<and> vmem t' 0 = 7"
proof -
  have "gfx_geo demo_tty" by (simp add: gfx_geo_def geo_ok_def demo_tty_def fb_size_def)
  moreover have "fb_size demo_tty \<le> unat (0 - fb demo_tty)" "vmem demo_tty 0 = 7" by (simp_all add: demo_tty_def fb_size_def)
  ultimately show ?thesis using gfx_line_total [of demo_tty "-3" 2 12 40 9] by fastforce
qed

end
