(* ===== verification/Umem.thy ===== *)
theory Umem
  imports Elf
begin

text \<open>
  User memory as the kernel sees it: a system call reads and writes through the pointers it is given, and the processor translates them
  with the page tables of the current address space.  An address of the upper half is the kernel's own.  An address that is not
  mapped faults; the kernel has no handler for a fault of its own.
\<close>

subsection \<open>Access\<close>

definition mmu_at :: "'a sched_scheme \<Rightarrow> u64 \<Rightarrow> u64 \<Rightarrow> u64 option" where
  "mmu_at k r va =
     (if unat va \<ge> 2 ^ 64 - 2 ^ 47 then Some va
      else if unat va \<ge> 2 ^ 47 then None
      else case pmap_pte r va k of
             None \<Rightarrow> None
           | Some (t, i) \<Rightarrow> let e = pt_entry k t i
                            in if e AND PTE_PRESENT = 0 then None else Some (hhdm_of k ((e AND PTE_ADDR_MASK) OR (va AND 0xFFF))))"

definition mmu :: "'a sched_scheme \<Rightarrow> u64 \<Rightarrow> u64 option" where
  "mmu k va = mmu_at k (cr3 k AND PTE_ADDR_MASK) va"

definition put_byte :: "u64 \<Rightarrow> u8 \<Rightarrow> 'a sched_scheme \<Rightarrow> 'a sched_scheme" where
  "put_byte a b k = k\<lparr>kmem := (kmem k)(a := b)\<rparr>"

definition uget :: "'a sched_scheme \<Rightarrow> u64 \<Rightarrow> u8 option" where
  "uget k va = map_option (kmem k) (mmu k va)"

text \<open>A block of bytes, a string up to its terminator, and a store; \<open>None\<close> is a fault.\<close>

definition uread :: "'a sched_scheme \<Rightarrow> u64 \<Rightarrow> nat \<Rightarrow> u8 list option" where
  "uread k va n = those (map (\<lambda>i. uget k (va + of_nat i)) [0 ..< n])"

function ustring :: "'a sched_scheme \<Rightarrow> u64 \<Rightarrow> string option" where
  "ustring k va =
     (case uget k va of
        None \<Rightarrow> None
      | Some b \<Rightarrow> if b = 0 then Some [] else if va + 1 = 0 then None else map_option ((#) (char_of (unat b))) (ustring k (va + 1)))"
  by pat_completeness auto
termination
proof (relation "measure (\<lambda>(k, va). 2 ^ 64 - unat va)", goal_cases)
  case (2 k va b)
  then have "unat (va + 1) = unat va + 1" using unatSuc [of va] by (simp add: add.commute)
  then show ?case using diff_less_mono2 [of "unat va" "unat (va + 1)" "2 ^ 64"] by simp
qed simp

declare ustring.simps [simp del]

fun uwrite :: "u64 \<Rightarrow> u8 list \<Rightarrow> 'a sched_scheme \<Rightarrow> 'a sched_scheme option" where
  "uwrite va [] k = Some k"
| "uwrite va (b # bs) k = (case mmu k va of None \<Rightarrow> None | Some a \<Rightarrow> uwrite (va + 1) bs (put_byte a b k))"

definition u32_bytes :: "u32 \<Rightarrow> u8 list" where
  "u32_bytes v = map (\<lambda>i. ucast (drop_bit (8 * i) v)) [0 ..< 4]"

definition uread64 :: "'a sched_scheme \<Rightarrow> u64 \<Rightarrow> u64 option" where
  "uread64 k va = map_option (\<lambda>bs. le64 bs 0) (uread k va 8)"

subsection \<open>Separate user memories\<close>

text \<open>
  The page tables are separate, every present user page has a frame of its own, in use and not a page table.
\<close>

definition mapped :: "'a sched_scheme \<Rightarrow> u64 \<Rightarrow> u64 \<Rightarrow> bool" where
  "mapped k r va \<longleftrightarrow> leaf k r va AND PTE_PRESENT \<noteq> 0"

definition frame_at :: "'a sched_scheme \<Rightarrow> u64 \<Rightarrow> u64 \<Rightarrow> u64" where
  "frame_at k r va = leaf k r va AND PTE_ADDR_MASK"

definition spaces_ok :: "'a sched_scheme \<Rightarrow> u64 set \<Rightarrow> bool" where
  "spaces_ok k R \<longleftrightarrow> tables_ok k R \<and>
     (\<forall>r \<in> R. \<forall>va. user_va va \<longrightarrow> mapped k r va \<longrightarrow> frame_at k r va \<noteq> 0 \<and> bitmap_test (frames k) (unat (frame_at k r va) div 4096)) \<and>
     (\<forall>r \<in> R. \<forall>r' \<in> R. \<forall>va va' d. user_va va \<longrightarrow> user_va va' \<longrightarrow> mapped k r va \<longrightarrow> d \<le> 3 \<longrightarrow> table_of k r' va' d \<noteq> Some (frame_at k r va)) \<and>
     (\<forall>r \<in> R. \<forall>r' \<in> R. \<forall>va va'. user_va va \<longrightarrow> user_va va' \<longrightarrow> mapped k r va \<longrightarrow> mapped k r' va' \<longrightarrow>
        frame_at k r va = frame_at k r' va' \<longrightarrow> r = r' \<and> same_page va va')"

lemma spaces_okD:
  assumes "spaces_ok k R"
  shows "tables_ok k R"
    "r \<in> R \<Longrightarrow> user_va va \<Longrightarrow> mapped k r va \<Longrightarrow> frame_at k r va \<noteq> 0 \<and> bitmap_test (frames k) (unat (frame_at k r va) div 4096)"
    "r \<in> R \<Longrightarrow> r' \<in> R \<Longrightarrow> user_va va \<Longrightarrow> user_va va' \<Longrightarrow> mapped k r va \<Longrightarrow> d \<le> 3 \<Longrightarrow> table_of k r' va' d \<noteq> Some (frame_at k r va)"
    "r \<in> R \<Longrightarrow> r' \<in> R \<Longrightarrow> user_va va \<Longrightarrow> user_va va' \<Longrightarrow> mapped k r va \<Longrightarrow> mapped k r' va' \<Longrightarrow>
       frame_at k r va = frame_at k r' va' \<Longrightarrow> r = r' \<and> same_page va va'"
  using assms unfolding spaces_ok_def by blast+

text \<open>The byte a space shows at an address.\<close>

definition user_byte :: "'a sched_scheme \<Rightarrow> u64 \<Rightarrow> u64 \<Rightarrow> u8 option" where
  "user_byte k r va = (if mapped k r va then Some (kmem k (hhdm_of k (frame_at k r va OR (va AND 0xFFF)))) else None)"

lemma mmu_at_user: "user_va va \<Longrightarrow> mmu_at k r va = (if mapped k r va then Some (hhdm_of k (frame_at k r va OR (va AND 0xFFF))) else None)"
  by (auto simp: user_va_def mmu_at_def pmap_pte_def pte_walk_table mapped_def frame_at_def leaf_def split: option.split)

lemma page_offset: "unat (va AND 0xFFF) = unat va mod 4096" for va :: u64
proof -
  have "va AND 0xFFF = take_bit 12 va" by (simp add: take_bit_eq_mask mask_eq_exp_minus_1)
  then show ?thesis by (simp add: take_bit_eq_mod unat_mod)
qed

lemma frame_offset:
  assumes "page_aligned f" shows "f OR (va AND 0xFFF) = f + of_nat (unat va mod 4096)" "unat (f OR (va AND 0xFFF)) = unat f + unat va mod 4096"
proof -
  have "f AND (va AND 0xFFF) = 0"
  proof (rule bit_word_eqI)
    fix n
    have m: "va AND 0xFFF = take_bit 12 va" by (simp add: take_bit_eq_mask mask_eq_exp_minus_1)
    show "bit (f AND (va AND 0xFFF)) n = bit (0 :: u64) n" unfolding m using aligned_bit [OF assms, of n] by (auto simp: bit_simps)
  qed
  then have a: "f OR (va AND 0xFFF) = f + (va AND 0xFFF)" using word_plus_and_or [of f "va AND 0xFFF"] by simp
  then show "f OR (va AND 0xFFF) = f + of_nat (unat va mod 4096)" by (simp add: page_offset [symmetric])
  show "unat (f OR (va AND 0xFFF)) = unat f + unat va mod 4096"
    using aligned_frame [OF assms] unfolding a page_offset [symmetric] by (subst unat_add_u64) (simp_all add: page_offset)
qed

lemma frame_at_aligned [simp]: "page_aligned (frame_at k r va)"
  by (simp add: frame_at_def)

lemma user_address_eq:
  assumes "spaces_ok k R" "r \<in> R" "r' \<in> R" "user_va va" "user_va va'" "mapped k r va" "mapped k r' va'"
  shows "hhdm_of k (frame_at k r va OR (va AND 0xFFF)) = hhdm_of k (frame_at k r' va' OR (va' AND 0xFFF)) \<longleftrightarrow> r = r' \<and> va = va'"
proof
  assume "hhdm_of k (frame_at k r va OR (va AND 0xFFF)) = hhdm_of k (frame_at k r' va' OR (va' AND 0xFFF))"
  then have "unat (frame_at k r va OR (va AND 0xFFF)) = unat (frame_at k r' va' OR (va' AND 0xFFF))" by (simp add: hhdm_of_def)
  then have e: "unat (frame_at k r va) + unat va mod 4096 = unat (frame_at k r' va') + unat va' mod 4096" by (simp add: frame_offset(2))
  let ?f = "unat (frame_at k r va) div 4096" and ?g = "unat (frame_at k r' va') div 4096"
  have "4096 * ?f + unat va mod 4096 = 4096 * ?g + unat va' mod 4096"
    using e aligned_frame(1) [OF frame_at_aligned, of k r va] aligned_frame(1) [OF frame_at_aligned, of k r' va'] by simp
  moreover have "(4096 * ?f + unat va mod 4096) div 4096 = ?f" "(4096 * ?g + unat va' mod 4096) div 4096 = ?g" by simp_all
  ultimately have o: "unat va mod 4096 = unat va' mod 4096" "unat (frame_at k r va) = unat (frame_at k r' va')" using e by auto
  then have "frame_at k r va = frame_at k r' va'" by (simp add: word_unat_eq_iff)
  then have "r = r'" "unat va div 4096 = unat va' div 4096" using spaces_okD(4) [OF assms] by (auto simp: same_page_def)
  then show "r = r' \<and> va = va'" using o(1) by (metis div_mult_mod_eq word_unat_eq_iff)
qed simp

text \<open>Storing a byte at a user address changes no page table.\<close>

lemma put_byte_only:
  "only_page (frame_at k r va) k (put_byte (hhdm_of k (frame_at k r va OR (va AND 0xFFF))) b k)"
proof -
  have "unat (hhdm_of k (frame_at k r va OR (va AND 0xFFF)) - hhdm_of k (frame_at k r va)) < 4096"
    by (simp add: hhdm_of_def frame_offset(1) unsigned_of_nat take_bit_nat_eq_self)
  then show ?thesis by (auto simp: only_page_def put_byte_def)
qed

lemma only_page_tables:
  assumes "spaces_ok k R" "r \<in> R" "user_va va" "mapped k r va" "only_page (frame_at k r va) k k'" "r' \<in> R" "user_va va'"
  shows "d \<le> 3 \<Longrightarrow> table_of k' r' va' d = table_of k r' va' d" "leaf k' r' va' = leaf k r' va'"
proof -
  have e: "pt_entry k' t (idx va' i) = pt_entry k t (idx va' i)" if "d \<le> 3" "table_of k r' va' d = Some t" for d t i
    using spaces_okD(3) [OF assms(1,2,6,3,7,4) that(1)] that(2) table_of_aligned [OF _ that(2)] tables_okD(4) [OF spaces_okD(1) [OF assms(1)] assms(6)]
    by (intro pt_entry_other [OF assms(5)]) auto
  show t: "table_of k' r' va' d = table_of k r' va' d" if "d \<le> 3" for d
    using that by (intro table_of_cong e) simp_all
  show "leaf k' r' va' = leaf k r' va'" using t [of 3] e [of 3] by (simp add: leaf_def split: option.split)
qed

lemma only_page_spaces:
  assumes "spaces_ok k R" "r \<in> R" "user_va va" "mapped k r va" "only_page (frame_at k r va) k k'" "frames k' = frames k"
  shows "spaces_ok k' R" "r' \<in> R \<Longrightarrow> user_va va' \<Longrightarrow> mapped k' r' va' = mapped k r' va' \<and> frame_at k' r' va' = frame_at k r' va'"
proof -
  note t = only_page_tables [OF assms(1-5)]
  have m: "mapped k' r' va' = mapped k r' va'" "frame_at k' r' va' = frame_at k r' va'" if "r' \<in> R" "user_va va'" for r' va'
    using t(2) [OF that] by (simp_all add: mapped_def frame_at_def)
  show "r' \<in> R \<Longrightarrow> user_va va' \<Longrightarrow> mapped k' r' va' = mapped k r' va' \<and> frame_at k' r' va' = frame_at k r' va'" using m by blast
  note ok = spaces_okD(1) [OF assms(1)]
  have "tables_ok k' R"
  proof (rule tables_okI)
    show "pmm_inv (frames k')" "unat (total_pages (frames k')) \<le> 2 ^ 40" "bitmap_test (frames k') 0" "\<And>r. r \<in> R \<Longrightarrow> page_aligned r"
      using tables_okD(1-4) [OF ok] assms(6) by simp_all
    show "bitmap_test (frames k') (unat f div 4096)" if "r' \<in> R" "user_va va'" "d \<le> 3" "table_of k' r' va' d = Some f" for r' va' d f
      using tables_okD(5) [OF ok that(1-3)] that(4) t(1) [OF that(1,2,3)] assms(6) by simp
    show "r1 = r2 \<and> d1 = d2 \<and> same_path va1 va2 d1" if "r1 \<in> R" "r2 \<in> R" "user_va va1" "user_va va2" "d1 \<le> 3" "d2 \<le> 3"
      "table_of k' r1 va1 d1 = Some f" "table_of k' r2 va2 d2 = Some f" for r1 r2 va1 va2 d1 d2 f
      using tables_okD(6) [OF ok that(1-6)] that(7,8) t(1) [OF that(1,3,5)] t(1) [OF that(2,4,6)] by auto
  qed
  then show "spaces_ok k' R" using spaces_okD [OF assms(1)] t m unfolding spaces_ok_def assms(6) by simp
qed

text \<open>Storing bytes inside a user page.\<close>

lemma poke_only:
  assumes "length bs \<le> page_room va" "page_aligned f"
  shows "only_page f k (poke (hhdm_of k (f OR (va AND 0xFFF))) bs k)"
proof -
  have "\<not> unat (x - hhdm_of k (f OR (va AND 0xFFF))) < length bs" if "4096 \<le> unat (x - hhdm_of k f)" for x
  proof -
    let ?y = "x - hhdm_of k f"
    have o: "unat (of_nat (unat va mod 4096) :: u64) = unat va mod 4096" by (simp add: unsigned_of_nat take_bit_nat_eq_self)
    have "x - hhdm_of k (f OR (va AND 0xFFF)) = ?y - of_nat (unat va mod 4096)"
      by (simp add: hhdm_of_def frame_offset(1) [OF assms(2)] algebra_simps)
    moreover have "unat (?y - of_nat (unat va mod 4096)) = unat ?y - unat va mod 4096"
      using that by (subst unat_sub_u64) (simp_all add: word_le_nat_alt o le_trans [OF mod_le_divisor])
    ultimately have "unat (x - hhdm_of k (f OR (va AND 0xFFF))) = unat ?y - unat va mod 4096" by (simp only:)
    then show ?thesis using that assms(1) unfolding page_room_def page_offset by linarith
  qed
  then show ?thesis by (simp add: only_page_def poke_def)
qed

lemma same_page_diff: "same_page va va' \<Longrightarrow> va' - va = of_nat (unat va' mod 4096) - of_nat (unat va mod 4096)"
proof -
  assume p: "same_page va va'"
  have "w = of_nat (4096 * (unat w div 4096)) + of_nat (unat w mod 4096)" for w :: u64
    by (simp only: of_nat_add [symmetric] mult_div_mod_eq) simp
  from this [of va] this [of va'] show ?thesis using p unfolding same_page_def by (metis add_diff_cancel_left)
qed

lemma leaf_page: "same_page va va' \<Longrightarrow> leaf k r va = leaf k r va'"
proof -
  assume "same_page va va'"
  then have "idx va l = idx va' l" for l by (rule page_path)
  then have "idx va 0 = idx va' 0" "table_of k r va 3 = table_of k r va' 3" by (blast, intro table_of_path) (simp add: same_path_def)
  then show ?thesis by (simp only: leaf_def)
qed

lemma poke_user:
  assumes "spaces_ok k R" "r \<in> R" "user_va va" "mapped k r va" "length bs \<le> page_room va"
  defines "k' \<equiv> poke (hhdm_of k (frame_at k r va OR (va AND 0xFFF))) bs k"
  shows "spaces_ok k' R" "r' \<in> R \<Longrightarrow> user_va va' \<Longrightarrow> mapped k' r' va' = mapped k r' va'"
    "r' \<in> R \<Longrightarrow> user_va va' \<Longrightarrow> user_byte k' r' va' =
       (if r' = r \<and> same_page va va' \<and> unat (va' - va) < length bs then Some (bs ! unat (va' - va)) else user_byte k r' va')"
proof -
  let ?f = "frame_at k r va"
  have o: "only_page ?f k k'" unfolding k'_def using assms(5) by (rule poke_only) simp
  have fr: "frames k' = frames k" by (simp add: k'_def poke_def)
  note s = only_page_spaces [OF assms(1-4) o fr]
  show "spaces_ok k' R" by (rule s(1))
  show "r' \<in> R \<Longrightarrow> user_va va' \<Longrightarrow> mapped k' r' va' = mapped k r' va'" using s(2) by blast
  show "user_byte k' r' va' = (if r' = r \<and> same_page va va' \<and> unat (va' - va) < length bs then Some (bs ! unat (va' - va)) else user_byte k r' va')"
    if u: "r' \<in> R" "user_va va'"
  proof (cases "mapped k r' va'")
    case m: True
    let ?a = "hhdm_of k (frame_at k r' va' OR (va' AND 0xFFF))"
    have b: "user_byte k' r' va' = Some (kmem k' ?a)" using s(2) [OF u] m fr by (simp add: user_byte_def hhdm_of_def)
    show ?thesis
    proof (cases "r' = r \<and> same_page va va'")
      case True
      then have "frame_at k r' va' = ?f" using leaf_page [of va va' k r] by (simp add: frame_at_def)
      then have "?a - hhdm_of k (?f OR (va AND 0xFFF)) = va' - va"
        using same_page_diff [of va va'] True by (simp add: hhdm_of_def frame_offset(1))
      then show ?thesis using True b m by (simp add: k'_def poke_def user_byte_def)
    next
      case False
      then have "frame_at k r' va' \<noteq> ?f" using spaces_okD(4) [OF assms(1,2) u(1) assms(3) u(2) assms(4) m] by auto
      then have "4096 \<le> unat (frame_at k r' va' + of_nat (unat va' mod 4096) - ?f)"
        using page_gap [of ?f "frame_at k r' va'" "unat va' mod 4096"] by (simp add: not_less)
      moreover have "?a - hhdm_of k ?f = frame_at k r' va' + of_nat (unat va' mod 4096) - ?f" by (simp add: hhdm_of_def frame_offset(1))
      ultimately have "kmem k' ?a = kmem k ?a" using o by (simp add: only_page_def)
      then show ?thesis using False b m by (auto simp: user_byte_def)
    qed
  next
    case False
    then show ?thesis using s(2) [OF u] leaf_page [of va va' k r] assms(4) by (auto simp: user_byte_def mapped_def)
  qed
qed

subsection \<open>Copying into a space\<close>

text \<open>Exactly the given bytes of one space have changed.\<close>

definition wrote :: "'a sched_scheme \<Rightarrow> u64 set \<Rightarrow> u64 \<Rightarrow> u64 \<Rightarrow> u8 list \<Rightarrow> 'a sched_scheme \<Rightarrow> bool" where
  "wrote k R r va bs k' \<longleftrightarrow> k' = k\<lparr>kmem := kmem k'\<rparr> \<and> spaces_ok k' R \<and>
     (\<forall>r' \<in> R. \<forall>va'. user_va va' \<longrightarrow> mapped k' r' va' = mapped k r' va' \<and>
        user_byte k' r' va' = (if r' = r \<and> unat (va' - va) < length bs then Some (bs ! unat (va' - va)) else user_byte k r' va'))"

lemma wroteD:
  assumes "wrote k R r va bs k'"
  shows "k' = k\<lparr>kmem := kmem k'\<rparr>" "spaces_ok k' R" "frames k' = frames k"
    "r' \<in> R \<Longrightarrow> user_va va' \<Longrightarrow> mapped k' r' va' = mapped k r' va'"
    "r' \<in> R \<Longrightarrow> user_va va' \<Longrightarrow> user_byte k' r' va' = (if r' = r \<and> unat (va' - va) < length bs then Some (bs ! unat (va' - va)) else user_byte k r' va')"
proof -
  show m: "k' = k\<lparr>kmem := kmem k'\<rparr>" "spaces_ok k' R"
    "r' \<in> R \<Longrightarrow> user_va va' \<Longrightarrow> mapped k' r' va' = mapped k r' va'"
    "r' \<in> R \<Longrightarrow> user_va va' \<Longrightarrow> user_byte k' r' va' = (if r' = r \<and> unat (va' - va) < length bs then Some (bs ! unat (va' - va)) else user_byte k r' va')"
    using assms unfolding wrote_def by blast+
  show "frames k' = frames k" by (subst m(1)) simp
qed

lemma wrote_nil: "spaces_ok k R \<Longrightarrow> wrote k R r va [] k"
  by (simp add: wrote_def)

lemma offset_shift:
  fixes x va :: u64 assumes "n < 2 ^ 47"
  shows "unat (x - (va + of_nat n)) = (if n \<le> unat (x - va) then unat (x - va) - n else 2 ^ 64 + unat (x - va) - n)"
proof -
  have "x - (va + of_nat n) = (x - va) - of_nat n" by simp
  moreover have "unat (of_nat n :: u64) = n" using assms by (intro unat_of_nat_u64) simp
  ultimately show ?thesis using unat_sub_cases [of "x - va" "of_nat n"] by metis
qed

lemma wrote_append:
  assumes "wrote k R r va xs k1" "wrote k1 R r (va + of_nat (length xs)) ys k2" "length xs + length ys < 2 ^ 47"
  shows "wrote k R r va (xs @ ys) k2"
proof -
  note a = wroteD [OF assms(1)] and b = wroteD [OF assms(2)]
  have "user_byte k2 r' va' = (if r' = r \<and> unat (va' - va) < length (xs @ ys) then Some ((xs @ ys) ! unat (va' - va)) else user_byte k r' va')"
    if "r' \<in> R" "user_va va'" for r' va'
    unfolding a(5) [OF that] b(5) [OF that] using offset_shift [of "length xs" va' va] assms(3) by (auto simp: nth_append)
  moreover have "k2 = k\<lparr>kmem := kmem k2\<rparr>"
  proof -
    have "k\<lparr>kmem := kmem k2\<rparr> = (k\<lparr>kmem := kmem k1\<rparr>)\<lparr>kmem := kmem k2\<rparr>" by simp
    also have "\<dots> = k1\<lparr>kmem := kmem k2\<rparr>" using a(1) by simp
    finally show ?thesis using b(1) by simp
  qed
  ultimately show ?thesis using a(4) b(2,4) unfolding wrote_def by blast
qed

lemma in_page:
  assumes "unat (va' - va) < n" "n \<le> page_room va" shows "same_page va va'"
proof -
  let ?d = "unat (va' - va)"
  have d: "unat va mod 4096 + ?d < 4096" using assms unfolding page_room_def page_offset by linarith
  have e: "unat va = 4096 * (unat va div 4096) + unat va mod 4096" by simp
  have "unat va < 4503599627370496 * 4096" using unat_u64_less [of va] by simp
  then have "unat va div 4096 < 4503599627370496" by (rule less_mult_imp_div_less)
  then have "unat va + ?d < 18446744073709551616" using d e by linarith
  then have "unat va' = unat va + ?d" using unat_add_u64 [of va "va' - va"] by simp
  moreover note e
  ultimately have "unat va' = 4096 * (unat va div 4096) + (unat va mod 4096 + ?d)" by linarith
  moreover have "(4096 * (unat va div 4096) + (unat va mod 4096 + ?d)) div 4096 = unat va div 4096" using d by (subst div_mult_self4) simp_all
  ultimately show ?thesis unfolding same_page_def by metis
qed

lemma poke_wrote:
  assumes "spaces_ok k R" "r \<in> R" "user_va va" "mapped k r va" "length bs \<le> page_room va"
  shows "wrote k R r va bs (poke (hhdm_of k (frame_at k r va OR (va AND 0xFFF))) bs k)"
  using poke_user [OF assms] in_page [OF _ assms(5)] unfolding wrote_def by (auto simp: poke_def)

lemma page_base:
  fixes va :: u64 shows "same_page va (va AND - 4096)" "(va AND - 4096) AND 0xFFF = 0"
proof -
  have m: "(- 4096 :: u64) = NOT (mask 12)" "(0xFFF :: u64) = mask 12" by (simp_all add: mask_eq_exp_minus_1)
  show "(va AND - 4096) AND 0xFFF = 0" unfolding m by (simp add: and.assoc)
  have "bit va n \<Longrightarrow> n < 64" for n using bit_imp_le_length [of va n] by simp
  then have "drop_bit 12 (va AND - 4096) = drop_bit 12 va" unfolding m by (intro bit_word_eqI) (fastforce simp: bit_simps)
  then have "unat (drop_bit 12 (va AND - 4096)) = unat (drop_bit 12 va)" by simp
  moreover have "unat (drop_bit 12 w) = unat w div 4096" for w :: u64
    by (simp only: unsigned_drop_bit_eq) (simp add: take_bit_nat_eq_self drop_bit_eq_div)
  ultimately show "same_page va (va AND - 4096)" unfolding same_page_def by metis
qed

lemma resolve_base: "mapped k r va \<Longrightarrow> pmap_resolve r (va AND - 4096) k = frame_at k r va"
  using leaf_page [OF page_base(1), of k r va] by (simp add: pmap_resolve_leaf mapped_def frame_at_def page_base(2))

lemma next_mapped: "n \<le> m \<Longrightarrow> \<forall>i < m. mapped k r (va + of_nat i) \<Longrightarrow> \<forall>i < m - n. mapped k r (va + of_nat n + of_nat i)"
proof (intro allI impI)
  fix i assume "\<forall>i < m. mapped k r (va + of_nat i)" "i < m - n"
  then have "mapped k r (va + of_nat (n + i))" by (metis add.commute less_diff_conv)
  moreover have "va + of_nat n + of_nat i = va + of_nat (n + i)" by simp
  ultimately show "mapped k r (va + of_nat n + of_nat i)" by metis
qed

lemma user_va_add: "unat va + n \<le> 2 ^ 47 \<Longrightarrow> i < n \<Longrightarrow> user_va (va + of_nat i) \<and> unat (va + of_nat i) = unat va + i"
  by (simp add: user_va_def unat_add_u64 unat_of_nat_u64)

text \<open>One chunk, up to the end of its page.\<close>

lemma chunk_step:
  assumes ok: "spaces_ok k R" "r \<in> R" "unat va + length bs < 2 ^ 47" "\<forall>i < length bs. mapped k r (va + of_nat i)" and ne: "bs \<noteq> []"
  defines "n \<equiv> min (length bs) (page_room va)"
  defines "k1 \<equiv> poke (hhdm_of k (frame_at k r va OR (va AND 0xFFF))) (take n bs) k"
  shows "user_va va" "mapped k r va" "frame_at k r va \<noteq> 0" "spaces_ok k1 R" "unat (va + of_nat n) + length (drop n bs) < 2 ^ 47"
    "\<forall>i < length (drop n bs). mapped k1 r (va + of_nat n + of_nat i)" "length (drop n bs) < length bs"
    "wrote k1 R r (va + of_nat n) (drop n bs) k2 \<Longrightarrow> wrote k R r va bs k2"
proof -
  have n: "0 < n" "n \<le> length bs" "n \<le> page_room va" using ne page_room_pos [of va] by (auto simp: n_def)
  show u: "user_va va" "mapped k r va" using ok(3,4) ne by (auto simp: user_va_def dest: spec [of _ 0])
  show "frame_at k r va \<noteq> 0" using spaces_okD(2) [OF ok(1,2) u] by simp
  have w: "wrote k R r va (take n bs) k1" unfolding k1_def using poke_wrote [OF ok(1,2) u, of "take n bs"] n by simp
  show "spaces_ok k1 R" using wroteD(2) [OF w] .
  show "unat (va + of_nat n) + length (drop n bs) < 2 ^ 47" using ok(3) n(2) by (simp add: unat_add_u64 unat_of_nat_u64)
  show "length (drop n bs) < length bs" using n ne by simp
  show "\<forall>i < length (drop n bs). mapped k1 r (va + of_nat n + of_nat i)"
  proof (intro allI impI)
    fix i assume i: "i < length (drop n bs)"
    have "user_va (va + of_nat (n + i))" using user_va_add [of va "length bs" "n + i"] ok(3) i by simp
    then show "mapped k1 r (va + of_nat n + of_nat i)" using next_mapped [OF n(2) ok(4)] i wroteD(4) [OF w ok(2)] by (simp add: add.assoc)
  qed
  show "wrote k R r va bs k2" if "wrote k1 R r (va + of_nat n) (drop n bs) k2"
    using wrote_append [OF w, of "drop n bs" k2] that n(2) ok(3) by simp
qed

lemma copy_to_va_wrote:
  assumes "spaces_ok k R" "r \<in> R" "unat va + length bs < 2 ^ 47" "\<forall>i < length bs. mapped k r (va + of_nat i)"
  shows "\<exists>k'. copy_to_va r va bs k = (True, k') \<and> wrote k R r va bs k'"
  using assms
proof (induction "length bs" arbitrary: va bs k rule: less_induct)
  case less
  show ?case
  proof (cases "bs = []")
    case True
    then show ?thesis using less.prems by (simp add: copy_to_va.simps wrote_nil)
  next
    case False
    note c = chunk_step [OF less.prems False]
    have "frame_at k r va + hhdm_offset (frames k) + (va AND 0xFFF) = hhdm_of k (frame_at k r va OR (va AND 0xFFF))"
      by (simp add: hhdm_of_def frame_offset(1) page_offset [symmetric])
    then show ?thesis using less.hyps [OF c(7) c(4) less.prems(2) c(5,6)] c(8) False c(3)
      by (subst copy_to_va.simps) (auto simp: resolve_base [OF c(2)] Let_def)
  qed
qed

lemma fill_segment_wrote:
  assumes "spaces_ok k R" "r \<in> R" "unat va + length bs < 2 ^ 47" "\<forall>i < length bs. mapped k r (va + of_nat i)"
  shows "wrote k R r va bs (fill_segment r va bs k)"
  using assms
proof (induction "length bs" arbitrary: va bs k rule: less_induct)
  case less
  show ?case
  proof (cases "bs = []")
    case True
    then show ?thesis using less.prems by (simp add: fill_segment.simps wrote_nil)
  next
    case False
    note c = chunk_step [OF less.prems False]
    have "pmap_resolve r va k + hhdm_offset (frames k) = hhdm_of k (frame_at k r va OR (va AND 0xFFF))"
      using c(2) by (simp add: pmap_resolve_leaf mapped_def frame_at_def hhdm_of_def)
    then show ?thesis using c(8) [OF less.hyps [OF c(7) c(4) less.prems(2) c(5,6)]] False
      by (subst fill_segment.simps) (simp add: Let_def)
  qed
qed

subsection \<open>Mapping fresh pages\<close>

lemma data_spare: "spaces_ok k R \<Longrightarrow> r \<in> R \<Longrightarrow> user_va va \<Longrightarrow> mapped k r va \<Longrightarrow> spare k R (frame_at k r va)"
  unfolding spare_def using spaces_okD(2,3) by (metis frame_at_aligned)

lemma user_byte_same:
  assumes "leaf k' r va = leaf k r va" "mapped k r va \<longrightarrow> page_same k k' (frame_at k r va)"
  shows "user_byte k' r va = user_byte k r va"
proof (cases "mapped k r va")
  case True
  let ?f = "frame_at k r va"
  have s: "page_same k k' ?f" using assms(2) True by simp
  have "hhdm_of k (?f OR (va AND 0xFFF)) - hhdm_of k ?f = of_nat (unat va mod 4096)" by (simp add: hhdm_of_def frame_offset(1))
  then have "unat (hhdm_of k (?f OR (va AND 0xFFF)) - hhdm_of k ?f) < 4096" by (simp add: unsigned_of_nat take_bit_nat_eq_self)
  then have "kmem k' (hhdm_of k (?f OR (va AND 0xFFF))) = kmem k (hhdm_of k (?f OR (va AND 0xFFF)))" using s unfolding page_same_def by blast
  then show ?thesis using s assms(1) unfolding user_byte_def mapped_def frame_at_def page_same_def hhdm_of_def by simp
qed (use assms(1) in \<open>simp add: user_byte_def mapped_def\<close>)

lemma pmap_map_step:
  assumes "tables_ok k R" "r \<in> R" "user_va va" "flags AND PTE_ADDR_MASK = 0" "page_aligned pa" "3 \<le> unat (free_pages (frames k))"
  shows "mem_step k (pmap_map r va pa flags k)" "unat (free_pages (frames k)) \<le> unat (free_pages (frames (pmap_map r va pa flags k))) + 3"
    "spare k R f \<Longrightarrow> spare (pmap_map r va pa flags k) R f \<and> page_same k (pmap_map r va pa flags k) f"
    "bitmap_test (frames k) j \<Longrightarrow> bitmap_test (frames (pmap_map r va pa flags k)) j"
proof -
  obtain res k1 where d: "descend 3 r va flags k = (res, k1)" by (cases "descend 3 r va flags k")
  have o: "tables_ok k1 R" "\<forall>t'. res = Some t' \<longrightarrow> table_of k1 r va 3 = Some t'" "res \<noteq> None" "\<forall>j. bitmap_test (frames k) j \<longrightarrow> bitmap_test (frames k1) j"
    "unat (free_pages (frames k)) \<le> unat (free_pages (frames k1)) + 3" "mem_step k k1" "\<forall>f. spare k R f \<longrightarrow> spare k1 R f \<and> page_same k k1 f"
    using descend_ok [OF assms(1-3) order_refl _ assms(4) d] assms(6) by simp_all
  then obtain t where t: "res = Some t" "table_of k1 r va 3 = Some t" by auto
  let ?v = "pa OR PTE_PRESENT OR flags"
  have m: "pmap_map r va pa flags k = set_entry t (idx va 0) ?v k1"
    using assms(5) by (simp add: pmap_map_def d t(1) page_aligned_def)
  have fr: "frames (set_entry t (idx va 0) ?v k1) = frames k1" by (simp add: set_entry_def)
  show "mem_step k (pmap_map r va pa flags k)" unfolding m
    by (rule mem_step_trans [OF o(6)], rule mem_stepI [where f = "frames k1" and m = "kmem (set_entry t (idx va 0) ?v k1)"]) (simp add: set_entry_def)
  show "unat (free_pages (frames k)) \<le> unat (free_pages (frames (pmap_map r va pa flags k))) + 3" using o(5) unfolding m fr .
  show "bitmap_test (frames k) j \<Longrightarrow> bitmap_test (frames (pmap_map r va pa flags k)) j" using o(4) unfolding m fr by blast
  show "spare (pmap_map r va pa flags k) R f \<and> page_same k (pmap_map r va pa flags k) f" if "spare k R f"
  proof -
    have s: "spare k1 R f" "page_same k k1 f" using o(7) that by blast+
    have "t \<noteq> f" using s(1) t(2) assms(2,3) by (auto simp: spare_def)
    then have "page_same k1 (set_entry t (idx va 0) ?v k1) f"
      by (intro only_page_same [OF set_entry_only [OF idx_less] table_of_aligned [OF tables_okD(4) [OF assms(1,2)] t(2)]]) (use s(1) in \<open>auto simp: spare_def\<close>)
    moreover have "spare (set_entry t (idx va 0) ?v k1) R f" using s(1) set_leaf_tables [OF o(1) assms(2,3) t(2)] by (simp add: spare_def fr)
    ultimately show ?thesis unfolding m using page_same_trans [OF s(2)] by blast
  qed
qed

text \<open>Exactly the addresses of some pages of a space are new, and show zeros.\<close>

definition zeroed :: "'a sched_scheme \<Rightarrow> u64 set \<Rightarrow> u64 \<Rightarrow> (u64 \<Rightarrow> bool) \<Rightarrow> 'a sched_scheme \<Rightarrow> bool" where
  "zeroed k R r P k' \<longleftrightarrow> mem_step k k' \<and> spaces_ok k' R \<and>
     (\<forall>r' \<in> R. \<forall>va. user_va va \<longrightarrow> mapped k' r' va = (mapped k r' va \<or> r' = r \<and> P va) \<and>
        user_byte k' r' va = (if r' = r \<and> P va then Some 0 else user_byte k r' va))"

lemma zeroedD:
  assumes "zeroed k R r P k'"
  shows "mem_step k k'" "spaces_ok k' R" "r' \<in> R \<Longrightarrow> user_va va \<Longrightarrow> mapped k' r' va = (mapped k r' va \<or> r' = r \<and> P va)"
    "r' \<in> R \<Longrightarrow> user_va va \<Longrightarrow> user_byte k' r' va = (if r' = r \<and> P va then Some 0 else user_byte k r' va)"
  using assms unfolding zeroed_def by blast+

lemma zeroed_nil: "spaces_ok k R \<Longrightarrow> zeroed k R r (\<lambda>_. False) k"
  by (simp add: zeroed_def)

lemma zeroed_trans: "zeroed k R r P k1 \<Longrightarrow> zeroed k1 R r Q k2 \<Longrightarrow> zeroed k R r (\<lambda>va. P va \<or> Q va) k2"
  unfolding zeroed_def using mem_step_trans by fastforce

text \<open>A frame just allocated and filled with zeros.\<close>

lemma fresh_frame:
  assumes ok: "spaces_ok k R" and a: "alloc_page k = (page, k1)" "page \<noteq> 0"
  defines "p \<equiv> page - hhdm_offset (frames k1)" and "k2 \<equiv> zero_page page k1"
  shows "p \<noteq> 0" "page_aligned p" "spaces_ok k2 R" "spare k2 R p" "mem_step k k2" "hhdm_offset (frames k2) = hhdm_offset (frames k1)"
    "free_pages (frames k2) = free_pages (frames k) - 1" "unat (x - hhdm_of k2 p) < 4096 \<Longrightarrow> kmem k2 x = 0"
    "r \<in> R \<Longrightarrow> user_va va \<Longrightarrow> leaf k2 r va = leaf k r va \<and> user_byte k2 r va = user_byte k r va \<and> (mapped k r va \<longrightarrow> frame_at k r va \<noteq> p)"
proof -
  note tk = spaces_okD(1) [OF ok]
  obtain q f where q: "page = hhdm_of k q" "q \<noteq> 0" "page_aligned q" "\<not> bitmap_test (frames k) (unat q div 4096)"
    and f: "k1 = k\<lparr>frames := f\<rparr>" "hhdm_offset f = hhdm_offset (frames k)"
    using alloc_page_frame [OF tables_okD(1,2,3) [OF tk] a(1)] a(2) by auto
  have p: "p = q" by (simp add: p_def q(1) f hhdm_of_def)
  have ta: "table_alloc k = (p, k2)" using a by (simp add: table_alloc_def p_def k2_def)
  have p0: "p \<noteq> 0" using q(2) p by simp
  note t = fresh_table [OF tk ta p0] and s = fresh_table_step [OF tk ta p0]
  show "p \<noteq> 0" "page_aligned p" "mem_step k k2" "free_pages (frames k2) = free_pages (frames k) - 1" using p0 t(2,7) s(1) by blast+
  show "hhdm_offset (frames k2) = hhdm_offset (frames k1)" by (simp add: k2_def zero_page_def)
  have "hhdm_of k2 p = page" unfolding q(1) p by (simp add: k2_def zero_page_def f hhdm_of_def)
  then show "unat (x - hhdm_of k2 p) < 4096 \<Longrightarrow> kmem k2 x = 0" by (simp add: k2_def zero_page_def memset_eq fill_mem_def)
  show sp: "spare k2 R p" unfolding spare_def using t(2,3,5,6) by metis
  have lf: "leaf k2 r va = leaf k r va" if "r \<in> R" "user_va va" for r va
    using t(5) [OF that, of 3] t(6) [OF that, of 3] by (auto simp: leaf_def split: option.split)
  then have mp: "mapped k2 r va = mapped k r va" "frame_at k2 r va = frame_at k r va" if "r \<in> R" "user_va va" for r va
    using that by (simp_all add: mapped_def frame_at_def)
  have df: "frame_at k r va \<noteq> p \<and> spare k2 R (frame_at k r va) \<and> page_same k k2 (frame_at k r va)" if "r \<in> R" "user_va va" "mapped k r va" for r va
    using s(4) [OF data_spare [OF ok that]] .
  show "leaf k2 r va = leaf k r va \<and> user_byte k2 r va = user_byte k r va \<and> (mapped k r va \<longrightarrow> frame_at k r va \<noteq> p)" if "r \<in> R" "user_va va"
    using lf [OF that] df [OF that] user_byte_same by blast
  show "spaces_ok k2 R" unfolding spaces_ok_def using t(1) mp df spaces_okD(2,4) [OF ok] by (auto simp: spare_def)
qed

lemma spaces_okI:
  assumes "tables_ok k R" "\<And>r va. r \<in> R \<Longrightarrow> user_va va \<Longrightarrow> mapped k r va \<Longrightarrow> frame_at k r va \<noteq> 0 \<and> spare k R (frame_at k r va)"
    "\<And>r r' va va'. r \<in> R \<Longrightarrow> r' \<in> R \<Longrightarrow> user_va va \<Longrightarrow> user_va va' \<Longrightarrow> mapped k r va \<Longrightarrow> mapped k r' va' \<Longrightarrow>
       frame_at k r va = frame_at k r' va' \<Longrightarrow> r = r' \<and> same_page va va'"
  shows "spaces_ok k R"
proof -
  have "\<forall>r \<in> R. \<forall>r' \<in> R. \<forall>va va' d. user_va va \<longrightarrow> user_va va' \<longrightarrow> mapped k r va \<longrightarrow> d \<le> 3 \<longrightarrow> table_of k r' va' d \<noteq> Some (frame_at k r va)"
    using assms(2) unfolding spare_def by blast
  moreover have "\<forall>r \<in> R. \<forall>va. user_va va \<longrightarrow> mapped k r va \<longrightarrow> frame_at k r va \<noteq> 0 \<and> bitmap_test (frames k) (unat (frame_at k r va) div 4096)"
    using assms(2) unfolding spare_def by blast
  moreover have "\<forall>r \<in> R. \<forall>r' \<in> R. \<forall>va va'. user_va va \<longrightarrow> user_va va' \<longrightarrow> mapped k r va \<longrightarrow> mapped k r' va' \<longrightarrow>
      frame_at k r va = frame_at k r' va' \<longrightarrow> r = r' \<and> same_page va va'" using assms(3) by blast
  ultimately show ?thesis using assms(1) unfolding spaces_ok_def by blast
qed

lemma same_page_sym: "same_page a b = same_page b a"
  by (auto simp: same_page_def)

lemma same_page_trans: "same_page a b \<Longrightarrow> same_page b c \<Longrightarrow> same_page a c"
  by (simp add: same_page_def)

lemma map_fresh:
  assumes ok: "spaces_ok k R" and at: "r \<in> R" "user_va va" and a: "alloc_page k = (page, k1)" "page \<noteq> 0"
    and fl: "flags AND PTE_ADDR_MASK = 0" and fp: "4 \<le> unat (free_pages (frames k))"
  defines "k' \<equiv> pmap_map r va (page - hhdm_offset (frames k1)) flags (zero_page page k1)"
  shows "zeroed k R r (same_page va) k'" "unat (free_pages (frames k)) \<le> unat (free_pages (frames k')) + 4"
proof -
  define p k2 where "p = page - hhdm_offset (frames k1)" and "k2 = zero_page page k1"
  note f = fresh_frame [OF ok a, folded p_def k2_def]
  have fp2: "unat (free_pages (frames k2)) = unat (free_pages (frames k)) - 1" using f(7) fp by (simp add: unat_sub word_le_nat_alt)
  then have "3 \<le> unat (free_pages (frames k2))" using fp by simp
  note pre = spaces_okD(1) [OF f(3)] at fl f(2) this
  have k': "k' = pmap_map r va p flags k2" by (simp add: k'_def p_def k2_def)
  note lf = pmap_map_leaf [OF pre, folded k'] and st = pmap_map_step [OF pre, folded k']
  let ?new = "\<lambda>r' va'. r' = r \<and> same_page va va'"
  have mp: "mapped k' r' va' = (mapped k r' va' \<or> ?new r' va')" "frame_at k' r' va' = (if ?new r' va' then p else frame_at k r' va')"
    if "r' \<in> R" "user_va va'" for r' va'
    using lf(2) [OF that] f(9) [OF that] entry_of_table(2,4) [OF f(2) fl] by (auto simp: mapped_def frame_at_def)
  have old: "frame_at k r' va' \<noteq> p \<and> frame_at k r' va' \<noteq> 0 \<and> spare k' R (frame_at k r' va') \<and> page_same k2 k' (frame_at k r' va')"
    if "r' \<in> R" "user_va va'" "mapped k r' va'" for r' va'
  proof -
    have e: "leaf k2 r' va' = leaf k r' va'" using f(9) [OF that(1,2)] by blast
    then have "spare k2 R (frame_at k r' va')" using data_spare [OF f(3) that(1,2)] that(3) by (simp add: mapped_def frame_at_def)
    then show ?thesis using st(3) f(9) [OF that(1,2)] spaces_okD(2) [OF ok that] that(3) by blast
  qed
  note new = st(3) [OF f(4)]
  have "spaces_ok k' R"
  proof (rule spaces_okI [OF lf(1)])
    show "frame_at k' r' va' \<noteq> 0 \<and> spare k' R (frame_at k' r' va')" if "r' \<in> R" "user_va va'" "mapped k' r' va'" for r' va'
      using mp [OF that(1,2)] that(3) old [OF that(1,2)] new f(1) by auto
    show "r1 = r2 \<and> same_page va1 va2" if "r1 \<in> R" "r2 \<in> R" "user_va va1" "user_va va2" "mapped k' r1 va1" "mapped k' r2 va2"
      "frame_at k' r1 va1 = frame_at k' r2 va2" for r1 r2 va1 va2
      using mp [OF that(1,3)] mp [OF that(2,4)] that(5-7) old [OF that(1,3)] old [OF that(2,4)] spaces_okD(4) [OF ok that(1-4)]
      by (auto simp: same_page_def split: if_splits)
  qed
  moreover have "user_byte k' r' va' = (if ?new r' va' then Some 0 else user_byte k r' va')" if u: "r' \<in> R" "user_va va'" for r' va'
  proof (cases "?new r' va'")
    case True
    have "unat (hhdm_of k2 (p OR (va' AND 0xFFF)) - hhdm_of k2 p) < 4096"
      by (simp add: hhdm_of_def frame_offset(1) [OF f(2)] unsigned_of_nat take_bit_nat_eq_self)
    then have "kmem k' (hhdm_of k2 (p OR (va' AND 0xFFF))) = 0" using new f(8) unfolding page_same_def by simp
    moreover have "hhdm_of k' = hhdm_of k2" using new by (simp add: page_same_def hhdm_of_def fun_eq_iff)
    ultimately show ?thesis using True mp [OF u] by (simp add: user_byte_def)
  next
    case False
    have "leaf k' r' va' = leaf k2 r' va'" using lf(2) [OF u] False by (simp only: if_False)
    moreover have "mapped k2 r' va' \<longrightarrow> page_same k2 k' (frame_at k2 r' va')" using old [OF u] f(9) [OF u] by (simp add: mapped_def frame_at_def)
    ultimately have "user_byte k' r' va' = user_byte k2 r' va'" by (rule user_byte_same)
    then show ?thesis using False f(9) [OF u] by auto
  qed
  ultimately show "zeroed k R r (same_page va) k'" using mp(1) mem_step_trans [OF f(5) st(1)] unfolding zeroed_def by blast
  show "unat (free_pages (frames k)) \<le> unat (free_pages (frames k')) + 4" using st(2) fp2 by simp
qed

lemma map_zeroed_page_ok:
  assumes "spaces_ok k R" "r \<in> R" "user_va (va + of_nat i * 4096)" "4 \<le> unat (free_pages (frames k))"
  shows "\<exists>k'. map_zeroed_page r va i (True, k) = (True, k') \<and> zeroed k R r (same_page (va + of_nat i * 4096)) k' \<and>
    unat (free_pages (frames k)) \<le> unat (free_pages (frames k')) + 4"
proof -
  obtain page k1 where a: "alloc_page k = (page, k1)" by (cases "alloc_page k")
  have nz: "page \<noteq> 0" using alloc_page_frame [OF tables_okD(1,2,3) [OF spaces_okD(1) [OF assms(1)]] a] assms(4) by auto
  have fl: "(PTE_USER OR PTE_WRITE) AND PTE_ADDR_MASK = 0" by (simp add: PTE_ADDR_MASK_def)
  have "frames (zero_page page k1) = frames k1" by (simp add: zero_page_def)
  then have "map_zeroed_page r va i (True, k) =
      (True, pmap_map r (va + of_nat i * 4096) (page - hhdm_offset (frames k1)) (PTE_USER OR PTE_WRITE) (zero_page page k1))"
    using nz by (simp add: map_zeroed_page_def a Let_def)
  then show ?thesis using map_fresh [OF assms(1-3) a nz fl assms(4)] by blast
qed

lemma map_zeroed_pages:
  assumes "spaces_ok k R" "r \<in> R" "\<forall>i < n. user_va (va + of_nat i * 4096)" "4 * n \<le> unat (free_pages (frames k))"
  shows "\<exists>k'. fold (map_zeroed_page r va) [0 ..< n] (True, k) = (True, k') \<and> zeroed k R r (\<lambda>x. \<exists>i < n. same_page (va + of_nat i * 4096) x) k' \<and>
    unat (free_pages (frames k)) \<le> unat (free_pages (frames k')) + 4 * n"
  using assms(3,4)
proof (induction n)
  case 0
  then show ?case using assms(1) by (simp add: zeroed_nil)
next
  case (Suc n)
  then obtain k1 where k1: "fold (map_zeroed_page r va) [0 ..< n] (True, k) = (True, k1)"
    "zeroed k R r (\<lambda>x. \<exists>i < n. same_page (va + of_nat i * 4096) x) k1" "unat (free_pages (frames k)) \<le> unat (free_pages (frames k1)) + 4 * n" by auto
  obtain k2 where k2: "map_zeroed_page r va n (True, k1) = (True, k2)" "zeroed k1 R r (same_page (va + of_nat n * 4096)) k2"
    "unat (free_pages (frames k1)) \<le> unat (free_pages (frames k2)) + 4"
    using map_zeroed_page_ok [OF zeroedD(2) [OF k1(2)] assms(2), of va n] Suc.prems k1(3) by auto
  have "(\<lambda>x. (\<exists>i < n. same_page (va + of_nat i * 4096) x) \<or> same_page (va + of_nat n * 4096) x) = (\<lambda>x. \<exists>i < Suc n. same_page (va + of_nat i * 4096) x)"
    by (auto simp: less_Suc_eq)
  then show ?case using zeroed_trans [OF k1(2) k2(2)] k1(1,3) k2(1,3) by (intro exI [of _ k2]) simp
qed

lemma aligned_pages:
  assumes "page_aligned va" "unat va + 4096 * n \<le> 2 ^ 47"
  shows "(\<exists>i < n. same_page (va + of_nat i * 4096) x) \<longleftrightarrow> unat (x - va) < 4096 * n"
proof -
  have b: "unat va = 4096 * (unat va div 4096)" using aligned_frame(1) [OF assms(1)] .
  have v: "unat (va + of_nat i * 4096) = unat va + 4096 * i" if "i < n" for i
  proof -
    have "of_nat i * (4096 :: u64) = of_nat (4096 * i)" by simp
    moreover have "unat (of_nat (4096 * i) :: u64) = 4096 * i" using assms(2) that by (intro unat_of_nat_u64) simp
    moreover have "unat va + 4096 * i < 2 ^ 64" using assms(2) that by simp
    ultimately show ?thesis using unat_add_u64 [of va "of_nat (4096 * i)"] by metis
  qed
  have p: "same_page (va + of_nat i * 4096) x \<longleftrightarrow> unat x div 4096 = unat va div 4096 + i" if "i < n" for i
    unfolding same_page_def v [OF that] by (subst b) auto
  have "(\<exists>i < n. unat x div 4096 = unat va div 4096 + i) \<longleftrightarrow> unat va div 4096 \<le> unat x div 4096 \<and> unat x div 4096 < unat va div 4096 + n"
    by (auto intro: exI [of _ "unat x div 4096 - unat va div 4096"])
  also have "\<dots> \<longleftrightarrow> unat va \<le> unat x \<and> unat x < unat va + 4096 * n"
  proof -
    have "unat va div 4096 \<le> unat x div 4096 \<longleftrightarrow> unat va \<le> unat x" using b unfolding less_eq_div_iff_mult_less_eq [OF zero_less_numeral] by linarith
    moreover have "unat x div 4096 < unat va div 4096 + n \<longleftrightarrow> unat x < 4096 * (unat va div 4096 + n)" by (simp add: div_less_iff_less_mult mult.commute)
    ultimately show ?thesis using b by (simp add: algebra_simps)
  qed
  also have "\<dots> \<longleftrightarrow> unat (x - va) < 4096 * n" using assms(2) by (auto simp: unat_sub_cases)
  finally show ?thesis using p by auto
qed

lemma map_zeroed_range_ok:
  assumes "spaces_ok k R" "r \<in> R" "page_aligned va" "unat va + unat bytes + 4096 \<le> 2 ^ 47" "4 * ((unat bytes + 4095) div 4096) \<le> unat (free_pages (frames k))"
  shows "\<exists>k'. map_zeroed_range r va bytes k = (True, k') \<and> zeroed k R r (\<lambda>x. unat (x - va) < 4096 * ((unat bytes + 4095) div 4096)) k' \<and>
    unat (free_pages (frames k)) \<le> unat (free_pages (frames k')) + 4 * ((unat bytes + 4095) div 4096)"
proof -
  define n where "n = (unat bytes + 4095) div 4096"
  have "unat (bytes + 4095) = unat bytes + 4095" using assms(4) by (subst unat_add_u64) simp_all
  moreover have "bytes + 4096 - 1 = bytes + 4095" "unat (4096 :: u64) = 4096" by simp_all
  ultimately have n: "unat ((bytes + 4096 - 1) div 4096) = n" by (simp only: n_def unat_div)
  have b: "unat va + 4096 * n \<le> 2 ^ 47" using assms(4) by (simp add: n_def)
  have "user_va (va + of_nat i * 4096)" if "i < n" for i
    using user_va_add [of va "4096 * n" "4096 * i"] b that by (simp add: mult.commute)
  from map_zeroed_pages [OF assms(1,2), of n va] this assms(5) show ?thesis
    unfolding map_zeroed_range_def n Let_def aligned_pages [OF assms(3) b] n_def [symmetric] by simp
qed

end
