(* ===== verification/Loader.thy ===== *)
theory Loader
  imports Umem
begin

text \<open>
  What the loader of \<open>kernel/src/proc/elf.c\<close> leaves in the new address space: the segments of the file, zeros behind them, and the
  initial stack with the arguments; no other space notices.
\<close>

subsection \<open>A new address space\<close>

lemma clone_upper_only: "only_page new k (clone_upper old new k)"
proof -
  have a: "only_page new k (fold (\<lambda>i k. set_entry new (of_nat i) (pt_entry k old (of_nat i)) k) is k)" if "\<forall>i \<in> set is. i < 512" for "is"
    using that
  proof (induction "is" arbitrary: k)
    case Nil
    then show ?case by (simp add: only_page_def)
  next
    case (Cons i "is")
    have "unat (of_nat i :: u64) < 512" using Cons.prems by (simp add: unat_of_nat_u64)
    then show ?case using only_page_trans [OF set_entry_only Cons.IH] Cons.prems by simp
  qed
  show ?thesis unfolding clone_upper_def by (rule a) (auto simp only: set_upt atLeastLessThan_iff)
qed

lemma clone_upper_lower:
  assumes "page_aligned new" "unat i < 256" shows "pt_entry (clone_upper old new k) new i = pt_entry k new i"
proof -
  have a: "pt_entry (fold (\<lambda>i k. set_entry new (of_nat i) (pt_entry k old (of_nat i)) k) is k) new i = pt_entry k new i"
    if "\<forall>i \<in> set is. 256 \<le> i \<and> i < 512" for "is"
    using that
  proof (induction "is" arbitrary: k)
    case (Cons j "is")
    then have "unat (of_nat j :: u64) = j" "256 \<le> j" "j < 512" by (simp_all add: unat_of_nat_u64)
    then have "pt_entry (set_entry new (of_nat j) v k) new i = pt_entry k new i" for v k
      using assms by (subst pt_entry_set) auto
    then show ?case using Cons by simp
  qed simp
  show ?thesis unfolding clone_upper_def by (rule a) (auto simp only: set_upt atLeastLessThan_iff)
qed

lemma idx3_user: "user_va va \<Longrightarrow> unat (idx va 3) < 256"
  by (simp add: idx_value user_va_def less_mult_imp_div_less)

lemma clone_upper_frames [simp]: "frames (clone_upper old new k) = frames k"
proof -
  have a: "frames (fold (\<lambda>i k. set_entry new (of_nat i) (pt_entry k old (of_nat i)) k) is k) = frames k" for "is"
    by (induction "is" arbitrary: k) (simp_all add: set_entry_def)
  show ?thesis unfolding clone_upper_def by (rule a)
qed

lemma clone_upper_step: "mem_step k (clone_upper old new k)"
proof -
  have a: "mem_step k (fold (\<lambda>i k. set_entry new (of_nat i) (pt_entry k old (of_nat i)) k) is k)" for "is"
  proof (induction "is" arbitrary: k)
    case (Cons i "is")
    have "mem_step k (set_entry new (of_nat i) v k)" for v by (rule mem_stepI [where f = "frames k" and m = "kmem (set_entry new (of_nat i) v k)"]) (simp add: set_entry_def)
    then show ?case using mem_step_trans [OF _ Cons.IH] by simp
  qed simp
  show ?thesis unfolding clone_upper_def by (rule a)
qed

text \<open>The new space is empty below the kernel; the others show what they showed.\<close>

definition created :: "'a sched_scheme \<Rightarrow> u64 set \<Rightarrow> u64 \<Rightarrow> 'a sched_scheme \<Rightarrow> bool" where
  "created k R p k' \<longleftrightarrow> mem_step k k' \<and> p \<noteq> 0 \<and> p \<notin> R \<and> spaces_ok k' (insert p R) \<and>
     (\<forall>va. user_va va \<longrightarrow> \<not> mapped k' p va) \<and> (\<forall>r \<in> R. \<forall>va. user_va va \<longrightarrow> mapped k' r va = mapped k r va \<and> user_byte k' r va = user_byte k r va)"

text \<open>A frame that is no table becomes the root of an empty space.\<close>

lemma add_root_walks:
  assumes ok: "spaces_ok k R" and p: "spare k R p" "only_page p k k'" "\<forall>va. user_va va \<longrightarrow> pt_entry k' p (idx va 3) = 0"
  shows "user_va va \<Longrightarrow> table_of k' p va d = (if d = 0 then Some p else None)"
    "r \<in> R \<Longrightarrow> user_va va \<Longrightarrow> d \<le> 3 \<Longrightarrow> table_of k' r va d = table_of k r va d"
    "r \<in> R \<Longrightarrow> user_va va \<Longrightarrow> leaf k' r va = leaf k r va" "user_va va \<Longrightarrow> leaf k' p va = 0"
proof -
  have e: "pt_entry k' t (idx va i) = pt_entry k t (idx va i)" if "r \<in> R" "user_va va" "d \<le> 3" "table_of k r va d = Some t" for r va d t i
  proof -
    have "t \<noteq> p" "page_aligned p" using p(1) that unfolding spare_def by blast+
    then show ?thesis using table_of_aligned [OF tables_okD(4) [OF spaces_okD(1) [OF ok] that(1)] that(4)] by (intro pt_entry_other [OF p(2)]) auto
  qed
  show n: "table_of k' p va d = (if d = 0 then Some p else None)" if "user_va va" for va d
    using p(3) that by (induction d) simp_all
  show o: "table_of k' r va d = table_of k r va d" if "r \<in> R" "user_va va" "d \<le> 3" for r va d
    using that by (intro table_of_cong e) simp_all
  show "leaf k' r va = leaf k r va" if "r \<in> R" "user_va va" using o [OF that, of 3] e [OF that, of 3] by (simp add: leaf_def split: option.split)
  show "leaf k' p va = 0" if "user_va va" using n [OF that] by (simp add: leaf_def)
qed

lemma add_root:
  assumes ok: "spaces_ok k R" and p: "spare k R p" "only_page p k k'" "\<forall>va. user_va va \<longrightarrow> pt_entry k' p (idx va 3) = 0"
    and fr: "frames k' = frames k" and nd: "\<forall>r \<in> R. \<forall>va. user_va va \<longrightarrow> mapped k r va \<longrightarrow> frame_at k r va \<noteq> p"
  shows "spaces_ok k' (insert p R)" "r \<in> R \<Longrightarrow> user_va va \<Longrightarrow> user_byte k' r va = user_byte k r va"
proof -
  note w = add_root_walks [OF ok p] and tk = spaces_okD(1) [OF ok]
  have sp: "r \<in> R \<Longrightarrow> user_va va \<Longrightarrow> d \<le> 3 \<Longrightarrow> table_of k r va d \<noteq> Some p" for r va d using p(1) by (simp add: spare_def)
  have "tables_ok k' (insert p R)"
  proof (rule tables_okI)
    show "pmm_inv (frames k')" "unat (total_pages (frames k')) \<le> 2 ^ 40" "bitmap_test (frames k') 0" using tables_okD(1-3) [OF tk] fr by simp_all
    show "\<And>r. r \<in> insert p R \<Longrightarrow> page_aligned r" using tables_okD(4) [OF tk] p(1) by (auto simp: spare_def)
    show "bitmap_test (frames k') (unat t div 4096)" if "r \<in> insert p R" "user_va va" "d \<le> 3" "table_of k' r va d = Some t" for r va d t
      using that p(1) w(1) [OF that(2), of d] w(2) [of r va d] tables_okD(5) [OF tk, of r va d t] fr by (auto simp: spare_def split: if_splits)
    show "r1 = r2 \<and> d1 = d2 \<and> same_path va1 va2 d1"
      if "r1 \<in> insert p R" "r2 \<in> insert p R" "user_va va1" "user_va va2" "d1 \<le> 3" "d2 \<le> 3"
        "table_of k' r1 va1 d1 = Some t" "table_of k' r2 va2 d2 = Some t" for r1 r2 va1 va2 d1 d2 t
    proof -
      have x: "r = p \<and> d = 0 \<and> t = p \<or> r \<in> R \<and> table_of k r va d = Some t \<and> t \<noteq> p"
        if "r \<in> insert p R" "user_va va" "d \<le> 3" "table_of k' r va d = Some t" for r va d
      proof (cases "r = p")
        case True
        then show ?thesis using that(4) w(1) [OF that(2), of d] by (simp split: if_splits)
      next
        case False
        then have r: "r \<in> R" using that(1) by simp
        then show ?thesis using w(2) [OF r that(2,3)] sp [OF r that(2,3)] that(4) by force
      qed
      from x [OF that(1,3,5,7)] x [OF that(2,4,6,8)] show ?thesis
        using tables_okD(6) [OF tk _ _ that(3-6)] by (auto simp: same_path_def)
    qed
  qed
  then show "spaces_ok k' (insert p R)"
  proof (rule spaces_okI)
    show "frame_at k' r va \<noteq> 0 \<and> spare k' (insert p R) (frame_at k' r va)" if "r \<in> insert p R" "user_va va" "mapped k' r va" for r va
    proof -
      have r: "r \<in> R" using that w(4) [OF that(2)] by (auto simp: mapped_def)
      have m: "mapped k r va" "frame_at k' r va = frame_at k r va" using that(3) w(3) [OF r that(2)] by (simp_all add: mapped_def frame_at_def)
      have "frame_at k r va \<noteq> p" using nd r that(2) m(1) by blast
      then show ?thesis using data_spare [OF ok r that(2) m(1)] spaces_okD(2) [OF ok r that(2) m(1)] w(1,2) fr unfolding m(2) spare_def by auto
    qed
    show "r1 = r2 \<and> same_page va1 va2" if "r1 \<in> insert p R" "r2 \<in> insert p R" "user_va va1" "user_va va2" "mapped k' r1 va1" "mapped k' r2 va2"
      "frame_at k' r1 va1 = frame_at k' r2 va2" for r1 r2 va1 va2
      using that w(4) [OF that(3)] w(4) [OF that(4)] w(3) [of r1 va1] w(3) [of r2 va2] spaces_okD(4) [OF ok, of r1 r2 va1 va2]
      by (auto simp: mapped_def frame_at_def)
  qed
  show "user_byte k' r va = user_byte k r va" if "r \<in> R" "user_va va"
  proof (rule user_byte_same [OF w(3) [OF that]], intro impI)
    assume "mapped k r va"
    then show "page_same k k' (frame_at k r va)" using p(1) nd that by (intro only_page_same [OF p(2)]) (auto simp: spare_def)
  qed
qed

lemma pmap_create_ok:
  assumes ok: "spaces_ok k R" and fp: "0 < unat (free_pages (frames k))"
  shows "\<exists>p k'. pmap_create k = (p, k') \<and> created k R p k' \<and> unat (free_pages (frames k)) \<le> unat (free_pages (frames k')) + 1"
proof -
  obtain page k1 where a: "alloc_page k = (page, k1)" by (cases "alloc_page k")
  have nz: "page \<noteq> 0" using alloc_page_frame [OF tables_okD(1,2,3) [OF spaces_okD(1) [OF ok]] a] fp by auto
  define p k2 where "p = page - hhdm_offset (frames k1)" and "k2 = zero_page page k1"
  note f = fresh_frame [OF ok a nz, folded p_def k2_def]
  define k3 where "k3 = clone_upper (cr3 k1 AND PTE_ADDR_MASK) p k2"
  have pc: "pmap_create k = (p, k3)" using nz by (simp add: pmap_create_def a p_def k2_def k3_def Let_def)
  have fr: "frames k3 = frames k2" by (simp add: k3_def)
  have "hhdm_of k1 p = page" by (simp add: p_def hhdm_of_def)
  then have z: "pt_entry k3 p (idx va 3) = 0" if "user_va va" for va
    unfolding k3_def clone_upper_lower [OF f(2) idx3_user [OF that]] using pt_entry_zero [OF f(2) idx_less, of k1] by (simp add: k2_def)
  have pR: "p \<notin> R" using f(4) unfolding spare_def user_va_def
    by (metis (no_types) table_of.simps(1) unat_0 zero_le zero_less_numeral zero_less_power)
  have "\<forall>r \<in> R. \<forall>va. user_va va \<longrightarrow> mapped k2 r va \<longrightarrow> frame_at k2 r va \<noteq> p" using f(9) by (simp add: mapped_def frame_at_def)
  note w = add_root_walks [OF f(3,4) clone_upper_only [where old = "cr3 k1 AND PTE_ADDR_MASK", of p k2, folded k3_def]]
    and r = add_root [OF f(3,4) clone_upper_only [where old = "cr3 k1 AND PTE_ADDR_MASK", of p k2, folded k3_def] _ fr this]
  have "created k R p k3" unfolding created_def
    using mem_step_trans [OF f(5) clone_upper_step] f(1,9) pR w(3,4) r z by (auto simp: k3_def mapped_def)
  moreover have "unat (free_pages (frames k)) \<le> unat (free_pages (frames k3)) + 1" using f(7) fp by (simp add: fr unat_sub word_le_nat_alt)
  ultimately show ?thesis using pc by blast
qed

subsection \<open>The initial stack\<close>

lemma wrote_below:
  assumes "wrote k R r (va + of_nat (length xs)) ys k1" "wrote k1 R r va xs k2" "length xs + length ys < 2 ^ 47"
  shows "wrote k R r va (xs @ ys) k2"
proof -
  note a = wroteD [OF assms(1)] and b = wroteD [OF assms(2)]
  have "user_byte k2 r' va' = (if r' = r \<and> unat (va' - va) < length (xs @ ys) then Some ((xs @ ys) ! unat (va' - va)) else user_byte k r' va')"
    if "r' \<in> R" "user_va va'" for r' va'
    unfolding b(5) [OF that] a(5) [OF that] using offset_shift [of "length xs" va' va] assms(3) by (auto simp: nth_append)
  moreover have "k2 = k\<lparr>kmem := kmem k2\<rparr>"
  proof -
    have "k\<lparr>kmem := kmem k2\<rparr> = (k\<lparr>kmem := kmem k1\<rparr>)\<lparr>kmem := kmem k2\<rparr>" by simp
    also have "\<dots> = k1\<lparr>kmem := kmem k2\<rparr>" using a(1) by simp
    finally show ?thesis using b(1) by simp
  qed
  ultimately show ?thesis using a(4) b(2,4) unfolding wrote_def by blast
qed

text \<open>The addresses of consecutive strings.\<close>

fun layout :: "u64 \<Rightarrow> u8 list list \<Rightarrow> u64 list" where
  "layout sp [] = []"
| "layout sp (b # bs) = sp # layout (sp + of_nat (length b)) bs"

definition mapped_from :: "'a sched_scheme \<Rightarrow> u64 \<Rightarrow> nat \<Rightarrow> nat \<Rightarrow> bool" where
  "mapped_from k r lo hi \<longleftrightarrow> (\<forall>va. lo \<le> unat va \<and> unat va < hi \<longrightarrow> mapped k r va)"

lemma mapped_from_wrote: "wrote k R r va bs k' \<Longrightarrow> r \<in> R \<Longrightarrow> mapped_from k r lo hi \<Longrightarrow> hi \<le> 2 ^ 47 \<Longrightarrow> mapped_from k' r lo hi"
  unfolding mapped_from_def using wroteD(4) by (metis order.strict_trans2 user_va_def)

lemma mapped_from_range: "mapped_from k r lo hi \<Longrightarrow> lo \<le> unat va \<Longrightarrow> unat va + n \<le> hi \<Longrightarrow> hi \<le> 2 ^ 47 \<Longrightarrow> \<forall>i < n. mapped k r (va + of_nat i)"
  unfolding mapped_from_def using user_va_add [of va n] by fastforce

lemma copy_at:
  assumes "spaces_ok k R" "r \<in> R" "mapped_from k r lo hi" "hi < 2 ^ 47" "lo \<le> unat va" "unat va + length bs \<le> hi"
  shows "\<exists>k'. copy_to_va r va bs k = (True, k') \<and> wrote k R r va bs k' \<and> mapped_from k' r lo hi"
  using copy_to_va_wrote [OF assms(1,2) _ mapped_from_range [OF assms(3,5,6)]] assms(4,6) mapped_from_wrote [OF _ assms(2,3)] by fastforce

lemma copy_below:
  assumes "spaces_ok k R" "r \<in> R" "mapped_from k r lo hi" "hi < 2 ^ 47" "lo + length bs \<le> unat sp" "unat sp \<le> hi"
  shows "\<exists>k'. copy_to_va r (sp - of_nat (length bs)) bs k = (True, k') \<and> wrote k R r (sp - of_nat (length bs)) bs k' \<and> mapped_from k' r lo hi"
    "unat (sp - of_nat (length bs)) = unat sp - length bs"
proof -
  have u: "unat (of_nat (length bs) :: u64) = length bs" using assms(4-6) by (intro unat_of_nat_u64) simp
  then show s: "unat (sp - of_nat (length bs)) = unat sp - length bs" using assms(5) by (subst unat_sub_u64) (simp_all add: word_le_nat_alt)
  show "\<exists>k'. copy_to_va r (sp - of_nat (length bs)) bs k = (True, k') \<and> wrote k R r (sp - of_nat (length bs)) bs k' \<and> mapped_from k' r lo hi"
    using copy_at [OF assms(1-4), of "sp - of_nat (length bs)" bs] s assms(5,6) by simp
qed

lemma push_args_wrote:
  assumes "spaces_ok k R" "r \<in> R" "mapped_from k r lo (unat tp)" "unat tp < 2 ^ 47" "lo + length (concat (map arg_bytes as)) \<le> unat tp"
  shows "\<exists>sp k'. push_args r as tp k = (Some (sp, layout sp (map arg_bytes as)), k') \<and> unat sp = unat tp - length (concat (map arg_bytes as)) \<and>
    wrote k R r sp (concat (map arg_bytes as)) k' \<and> mapped_from k' r lo (unat tp)"
  using assms(5)
proof (induction as)
  case Nil
  then show ?case using assms(1,3) by (simp add: wrote_nil)
next
  case (Cons a as)
  let ?b = "arg_bytes a" and ?bs = "concat (map arg_bytes as)"
  obtain sp k1 where ih: "push_args r as tp k = (Some (sp, layout sp (map arg_bytes as)), k1)" "unat sp = unat tp - length ?bs"
    "wrote k R r sp ?bs k1" "mapped_from k1 r lo (unat tp)" using Cons by auto
  have "lo + length ?b \<le> unat sp" "unat sp \<le> unat tp" using ih(2) Cons.prems by simp_all
  note c = copy_below [OF wroteD(2) [OF ih(3)] assms(2) ih(4) assms(4) this]
  obtain k2 where k2: "copy_to_va r (sp - of_nat (length ?b)) ?b k1 = (True, k2)" "wrote k1 R r (sp - of_nat (length ?b)) ?b k2" "mapped_from k2 r lo (unat tp)"
    using c(1) ih(2) Cons.prems by auto
  have "wrote k R r (sp - of_nat (length ?b)) (?b @ ?bs) k2"
    by (rule wrote_below [of _ _ _ _ _ _ k1]) (use ih(3) k2(2) Cons.prems assms(4) in simp_all)
  then show ?case using ih(1,2) k2 c(2) Cons.prems
    by (intro exI [of _ "sp - of_nat (length ?b)"] exI [of _ k2]) (simp add: Let_def add.commute)
qed

text \<open>
  The layout the program finds: the number of arguments at the stack pointer, above it the addresses of the
  strings, two null pointers, and the strings at those addresses.
\<close>

definition shows_bytes :: "'a sched_scheme \<Rightarrow> u64 \<Rightarrow> u64 \<Rightarrow> u8 list \<Rightarrow> bool" where
  "shows_bytes k r va bs \<longleftrightarrow> (\<forall>i < length bs. user_byte k r (va + of_nat i) = Some (bs ! i))"

definition initial_stack :: "'a sched_scheme \<Rightarrow> u64 \<Rightarrow> u64 \<Rightarrow> string list \<Rightarrow> bool" where
  "initial_stack k r sp args \<longleftrightarrow> (\<exists>ssp. unat ssp + length (concat (map arg_bytes args)) = 0x70000000 \<and> shows_bytes k r ssp (concat (map arg_bytes args)) \<and>
     shows_bytes k r sp (u64_bytes (of_nat (length args)) @ concat (map u64_bytes (layout ssp (map arg_bytes args) @ [0, 0]))))"

lemma wrote_shows:
  assumes "wrote k R r va bs k'" "r \<in> R" "unat va + length bs < 2 ^ 47" shows "shows_bytes k' r va bs"
  using wroteD(5) [OF assms(1,2)] user_va_add [of va "length bs"] assms(3) by (auto simp: shows_bytes_def unat_of_nat_u64)

lemma wrote_keeps:
  assumes "wrote k R r va bs k'" "r \<in> R" "shows_bytes k r va' bs'" "unat va + length bs \<le> unat va' \<or> unat va' + length bs' \<le> unat va"
    "unat va + length bs < 2 ^ 47" "unat va' + length bs' < 2 ^ 47"
  shows "shows_bytes k' r va' bs'"
proof -
  have "\<not> unat (va' + of_nat i - va) < length bs" if "i < length bs'" for i
    using user_va_add [of va' "length bs'" i] assms(4-6) that by (auto simp: unat_sub_cases)
  then show ?thesis using wroteD(5) [OF assms(1,2)] user_va_add [of va' "length bs'"] assms(3,6) by (simp add: shows_bytes_def)
qed

lemma align16_down: "unat (w AND - 16) = unat w - unat w mod 16" for w :: u64
proof -
  have m: "(- 16 :: u64) = NOT (mask 4)" by (simp add: mask_eq_exp_minus_1)
  let ?a = "w AND - 16" and ?b = "take_bit 4 w"
  have "?a AND ?b = 0" "?a OR ?b = w" unfolding m by (rule bit_word_eqI; auto simp: bit_simps)+
  then have "w = ?a + ?b" using word_plus_and_or [of ?a ?b] by simp
  moreover have b: "unat ?b = unat w mod 16" by (simp add: take_bit_eq_mod unat_mod)
  moreover have "?b \<le> w" unfolding word_le_nat_alt b by simp
  ultimately show ?thesis using unat_sub_u64 [of ?b w] by (metis add_diff_cancel_right')
qed

lemma args_length: "length (concat (map arg_bytes as)) \<le> 256 * length as"
  by (induction as) (simp_all add: arg_bytes_def)

lemma u64_bytes_length [simp]: "length (u64_bytes v) = 8" "length (concat (map u64_bytes vs)) = 8 * length vs"
  by (induction vs) (simp_all add: u64_bytes_def)

lemma layout_length [simp]: "length (layout sp bs) = length bs"
  by (induction bs arbitrary: sp) simp_all

lemma push_vector:
  assumes "spaces_ok k R" "r \<in> R" "mapped_from k r lo hi" "hi < 2 ^ 47" "lo + 8 * length vec + 64 \<le> unat sp" "unat sp \<le> hi"
  defines "sp2 \<equiv> ((sp AND - 16) - of_nat (8 * length vec)) AND - 16"
  shows "\<exists>k1 k2. copy_to_va r sp2 (concat (map u64_bytes vec)) k = (True, k1) \<and> copy_to_va r (sp2 - 8) (u64_bytes v) k1 = (True, k2) \<and>
      wrote k R r (sp2 - 8) (u64_bytes v @ concat (map u64_bytes vec)) k2"
    "lo \<le> unat (sp2 - 8)" "unat (sp2 - 8) + 8 * (length vec + 1) \<le> unat sp" "unat (sp2 - 8) mod 16 = 8"
proof -
  let ?n = "8 * length vec"
  have u: "unat (of_nat ?n :: u64) = ?n" using assms(4-6) by (intro unat_of_nat_u64) simp
  have md: "n mod 16 \<le> 15" for n :: nat by (simp add: Suc_leI less_Suc_eq_le [symmetric])
  define w where "w = unat sp - unat sp mod 16 - ?n"
  have l: "lo + 48 \<le> w" "w + ?n \<le> unat sp" using assms(5) md [of "unat sp"] by (auto simp: w_def)
  have c: "of_nat ?n \<le> sp AND - 16" unfolding word_le_nat_alt u align16_down using assms(5) md [of "unat sp"] by linarith
  have w: "unat sp2 = w - w mod 16" unfolding sp2_def align16_down unat_sub_u64 [OF c] u w_def ..
  have "8 \<le> sp2" unfolding word_le_nat_alt w using l(1) md [of w] by simp
  then have s: "unat (sp2 - 8) = w - w mod 16 - 8" by (simp add: unat_sub_u64 w)
  show b: "lo \<le> unat (sp2 - 8)" "unat (sp2 - 8) + 8 * (length vec + 1) \<le> unat sp" unfolding s using l md [of w] by simp_all
  define q where "q = w div 16 - 1"
  have "1 \<le> w div 16" using l(1) by simp
  then have "w div 16 = q + 1" by (simp add: q_def)
  then have "w - w mod 16 = 16 * (q + 1)" using minus_mod_eq_mult_div [of w 16] by simp
  then have "unat (sp2 - 8) = 16 * q + 8" unfolding s by simp
  then show "unat (sp2 - 8) mod 16 = 8" by simp
  have vb: "lo \<le> unat sp2" "unat sp2 + length (concat (map u64_bytes vec)) \<le> hi" unfolding w using l assms(6) md [of w] by simp_all
  obtain k1 where k1: "copy_to_va r sp2 (concat (map u64_bytes vec)) k = (True, k1)" "wrote k R r sp2 (concat (map u64_bytes vec)) k1" "mapped_from k1 r lo hi"
    using copy_at [OF assms(1-4) vb] by auto
  obtain k2 where k2: "copy_to_va r (sp2 - 8) (u64_bytes v) k1 = (True, k2)" "wrote k1 R r (sp2 - 8) (u64_bytes v) k2"
    using copy_at [OF wroteD(2) [OF k1(2)] assms(2) k1(3) assms(4), of "sp2 - 8" "u64_bytes v"] b assms(6) by auto
  have "wrote k R r (sp2 - 8) (u64_bytes v @ concat (map u64_bytes vec)) k2"
    by (rule wrote_below [of _ _ _ _ _ _ k1]) (use k1(2) k2(2) assms(4-6) in simp_all)
  then show "\<exists>k1 k2. copy_to_va r sp2 (concat (map u64_bytes vec)) k = (True, k1) \<and> copy_to_va r (sp2 - 8) (u64_bytes v) k1 = (True, k2) \<and>
      wrote k R r (sp2 - 8) (u64_bytes v @ concat (map u64_bytes vec)) k2" using k1(1) k2(1) by blast
qed

lemma wrote_step: "wrote k R r va bs k' \<Longrightarrow> mem_step k k'"
proof -
  assume w: "wrote k R r va bs k'"
  have "k\<lparr>frames := frames k, kmem := kmem k'\<rparr> = k\<lparr>kmem := kmem k'\<rparr>" by (cases k) simp
  then show ?thesis using wroteD(1) [OF w] by (intro mem_stepI [where f = "frames k" and m = "kmem k'"]) simp
qed

lemma outside_stack:
  fixes va a :: u64
  assumes "65536 \<le> unat (va - 0x6FFF0000)" "0x6FFF0000 \<le> unat a" "unat a + n \<le> 0x70000000" shows "\<not> unat (va - a) < n"
  using assms by (auto simp: unat_sub_cases split: if_splits)

lemma build_user_stack_ok:
  fixes argv :: "string list option"
  assumes "spaces_ok k R" "r \<in> R" "64 \<le> unat (free_pages (frames k))"
  defines "args \<equiv> take 32 (case argv of None \<Rightarrow> [] | Some as \<Rightarrow> as)"
  shows "\<exists>sp k'. build_user_stack r argv k = (sp, k') \<and> sp \<noteq> 0 \<and> unat sp mod 16 = 8 \<and> mem_step k k' \<and> spaces_ok k' R \<and> initial_stack k' r sp args \<and>
    (\<forall>r' \<in> R. \<forall>va. user_va va \<longrightarrow> r' \<noteq> r \<or> 65536 \<le> unat (va - 0x6FFF0000) \<longrightarrow> mapped k' r' va = mapped k r' va \<and> user_byte k' r' va = user_byte k r' va)"
proof -
  have b: "USER_STACK_TOP - USER_STACK_PAGES * 4096 = 0x6FFF0000" "USER_STACK_PAGES * 4096 = 65536" by simp_all
  have "page_aligned 0x6FFF0000" by (simp add: page_aligned_def PTE_ADDR_MASK_def)
  then obtain k0 where k0: "map_zeroed_range r 0x6FFF0000 65536 k = (True, k0)" "zeroed k R r (\<lambda>x. unat (x - 0x6FFF0000) < 65536) k0"
    using map_zeroed_range_ok [OF assms(1,2), of "0x6FFF0000" 65536] assms(3) by auto
  note z = zeroedD [OF k0(2)]
  let ?ss = "concat (map arg_bytes args)" and ?lo = "0x6FFF0000 :: nat"
  have m0: "mapped_from k0 r ?lo (unat (0x70000000 :: u64))" unfolding mapped_from_def
    using z(3) [OF assms(2)] by (auto simp: user_va_def unat_sub_cases)
  have len: "length args \<le> 32" "length ?ss \<le> 8192" using args_length [of args] by (auto simp: args_def)
  obtain ssp k1 where p: "push_args r args 0x70000000 k0 = (Some (ssp, layout ssp (map arg_bytes args)), k1)" "unat ssp = 0x70000000 - length ?ss"
    "wrote k0 R r ssp ?ss k1" "mapped_from k1 r ?lo 0x70000000" using push_args_wrote [OF z(2) assms(2) m0, of args] len by auto
  let ?vec = "layout ssp (map arg_bytes args) @ [0, 0]"
  define sp2 where "sp2 = ((ssp AND - 16) - of_nat (8 * length ?vec)) AND - 16"
  have "?lo + 8 * length ?vec + 64 \<le> unat ssp" "unat ssp \<le> 0x70000000" "(0x70000000 :: nat) < 2 ^ 47" using p(2) len by simp_all
  note v = push_vector [OF wroteD(2) [OF p(3)] assms(2) p(4) this(3,1,2), folded sp2_def]
  obtain k2 k3 where k: "copy_to_va r sp2 (concat (map u64_bytes ?vec)) k1 = (True, k2)" "copy_to_va r (sp2 - 8) (u64_bytes (of_nat (length args))) k2 = (True, k3)"
    "wrote k1 R r (sp2 - 8) (u64_bytes (of_nat (length args)) @ concat (map u64_bytes ?vec)) k3" using v(1) [of "of_nat (length args)"] by blast
  have res: "build_user_stack r argv k = (sp2 - 8, k3)"
    unfolding build_user_stack_def b args_def [symmetric] using k0(1) p(1) k(1,2) by (simp add: Let_def sp2_def)
  have st: "mem_step k k3" using mem_step_trans [OF z(1) mem_step_trans [OF wrote_step [OF p(3)] wrote_step [OF k(3)]]] .
  have "shows_bytes k3 r ssp ?ss"
    using wrote_keeps [OF k(3) assms(2) wrote_shows [OF p(3) assms(2)]] v(3) p(2) len by simp
  moreover have "shows_bytes k3 r (sp2 - 8) (u64_bytes (of_nat (length args)) @ concat (map u64_bytes ?vec))"
    using wrote_shows [OF k(3) assms(2)] v(3) p(2) by simp
  ultimately have stk: "initial_stack k3 r (sp2 - 8) args" unfolding initial_stack_def using p(2) len by (intro exI [of _ ssp]) simp
  have "mapped k3 r' va = mapped k r' va \<and> user_byte k3 r' va = user_byte k r' va"
    if "r' \<in> R" "user_va va" "r' \<noteq> r \<or> 65536 \<le> unat (va - 0x6FFF0000)" for r' va
  proof -
    have "\<not> (r' = r \<and> unat (va - (sp2 - 8)) < 8 * (length ?vec + 1))" "\<not> (r' = r \<and> unat (va - ssp) < length ?ss)"
      using that(3) outside_stack v(2,3) p(2) len by auto
    then show ?thesis using that wroteD(4,5) [OF k(3) that(1,2)] wroteD(4,5) [OF p(3) that(1,2)] z(3,4) [OF that(1,2)] by auto
  qed
  then show ?thesis using res st stk v(4) wroteD(2) [OF k(3)] by (intro exI [of _ "sp2 - 8"] exI [of _ k3]) auto
qed

subsection \<open>Segments\<close>

definition seg_pages :: "elf64_phdr \<Rightarrow> nat" where
  "seg_pages ph = (unat (p_memsz ph) + 4095) div 4096"

definition loads :: "elf64_phdr list \<Rightarrow> elf64_phdr list" where
  "loads phs = filter (\<lambda>ph. p_type ph = PT_LOAD) phs"

definition in_seg :: "elf64_phdr \<Rightarrow> u64 \<Rightarrow> bool" where
  "in_seg ph va \<longleftrightarrow> unat (va - p_vaddr ph) < 4096 * seg_pages ph"

definition seg_bytes :: "u8 list \<Rightarrow> elf64_phdr \<Rightarrow> u8 list" where
  "seg_bytes d ph = file_slice d (p_offset ph) (p_filesz ph)"

text \<open>A segment starts at a page, lies below the stack and has its file part in the file and in its memory.\<close>

definition seg_ok :: "u8 list \<Rightarrow> elf64_phdr \<Rightarrow> bool" where
  "seg_ok d ph \<longleftrightarrow> page_aligned (p_vaddr ph) \<and> unat (p_vaddr ph) + 4096 * seg_pages ph \<le> 0x6FFF0000 \<and> p_filesz ph \<le> p_memsz ph \<and>
     unat (p_offset ph) + unat (p_filesz ph) \<le> length d"

fun segs_apart :: "elf64_phdr list \<Rightarrow> bool" where
  "segs_apart [] \<longleftrightarrow> True"
| "segs_apart (ph # phs) \<longleftrightarrow> segs_apart phs \<and>
     (\<forall>q \<in> set phs. unat (p_vaddr ph) + 4096 * seg_pages ph \<le> unat (p_vaddr q) \<or> unat (p_vaddr q) + 4096 * seg_pages q \<le> unat (p_vaddr ph))"

lemma round_up: "n \<le> 4096 * ((n + 4095) div 4096)" for n :: nat
  using div_mult_mod_eq [of "n + 4095" 4096] mod_less_divisor [of 4096 "n + 4095"] by linarith

lemma seg_size: "seg_ok d ph \<Longrightarrow> length (seg_bytes d ph) \<le> 4096 * seg_pages ph" "length (seg_bytes d ph) = unat (p_filesz ph)"
proof -
  show "seg_ok d ph \<Longrightarrow> length (seg_bytes d ph) \<le> 4096 * seg_pages ph"
    by (auto simp: seg_ok_def seg_bytes_def file_slice_def seg_pages_def word_le_nat_alt intro: order.trans [OF _ round_up])
qed (simp add: seg_bytes_def file_slice_def)

lemma map_segments:
  assumes "spaces_ok k R" "r \<in> R" "\<forall>ph \<in> set (loads phs). seg_ok d ph" "4 * (\<Sum>ph \<leftarrow> loads phs. seg_pages ph) \<le> unat (free_pages (frames k))"
  shows "\<exists>k'. fold (map_segment r) phs (True, k) = (True, k') \<and> zeroed k R r (\<lambda>x. \<exists>ph \<in> set (loads phs). in_seg ph x) k' \<and>
    unat (free_pages (frames k)) \<le> unat (free_pages (frames k')) + 4 * (\<Sum>ph \<leftarrow> loads phs. seg_pages ph)"
  using assms(1,3,4)
proof (induction phs arbitrary: k)
  case Nil
  then show ?case by (simp add: loads_def zeroed_nil)
next
  case (Cons ph phs)
  show ?case
  proof (cases "p_type ph = PT_LOAD")
    case False
    then show ?thesis using Cons by (simp add: loads_def map_segment_def)
  next
    case True
    then have l: "loads (ph # phs) = ph # loads phs" by (simp add: loads_def)
    have ok: "seg_ok d ph" using Cons.prems(2) l by simp
    have "unat (p_vaddr ph) + unat (p_memsz ph) + 4096 \<le> 2 ^ 47"
    proof -
      have "unat (p_memsz ph) \<le> 4096 * seg_pages ph" unfolding seg_pages_def by (rule round_up)
      then show ?thesis using ok by (simp add: seg_ok_def)
    qed
    then obtain k1 where k1: "map_zeroed_range r (p_vaddr ph) (p_memsz ph) k = (True, k1)" "zeroed k R r (in_seg ph) k1"
      "unat (free_pages (frames k)) \<le> unat (free_pages (frames k1)) + 4 * seg_pages ph"
      using map_zeroed_range_ok [OF Cons.prems(1) assms(2), of "p_vaddr ph" "p_memsz ph"] ok Cons.prems(3) l
      unfolding seg_pages_def [symmetric] in_seg_def [symmetric, abs_def] by (auto simp: seg_ok_def)
    obtain k2 where k2: "fold (map_segment r) phs (True, k1) = (True, k2)" "zeroed k1 R r (\<lambda>x. \<exists>ph \<in> set (loads phs). in_seg ph x) k2"
      "unat (free_pages (frames k1)) \<le> unat (free_pages (frames k2)) + 4 * (\<Sum>ph \<leftarrow> loads phs. seg_pages ph)"
      using Cons.IH [OF zeroedD(2) [OF k1(2)]] Cons.prems(2,3) l k1(3) by auto
    have "map_segment r ph (True, k) = (True, k1)" using True k1(1) by (simp add: map_segment_def)
    then show ?thesis using k1(3) k2(1,3) zeroed_trans [OF k1(2) k2(2)] unfolding l by (intro exI [of _ k2]) simp
  qed
qed

text \<open>The file parts are stored, everything else is as before.\<close>

definition loaded :: "'a sched_scheme \<Rightarrow> u64 set \<Rightarrow> u64 \<Rightarrow> u8 list \<Rightarrow> elf64_phdr list \<Rightarrow> 'a sched_scheme \<Rightarrow> bool" where
  "loaded k R r d phs k' \<longleftrightarrow> mem_step k k' \<and> frames k' = frames k \<and> spaces_ok k' R \<and> (\<forall>ph \<in> set phs. shows_bytes k' r (p_vaddr ph) (seg_bytes d ph)) \<and>
     (\<forall>r' \<in> R. \<forall>va. user_va va \<longrightarrow> mapped k' r' va = mapped k r' va \<and>
        (r' \<noteq> r \<or> (\<forall>ph \<in> set phs. length (seg_bytes d ph) \<le> unat (va - p_vaddr ph)) \<longrightarrow> user_byte k' r' va = user_byte k r' va))"

lemma loadedD:
  assumes "loaded k R r d phs k'"
  shows "mem_step k k'" "frames k' = frames k" "spaces_ok k' R" "ph \<in> set phs \<Longrightarrow> shows_bytes k' r (p_vaddr ph) (seg_bytes d ph)"
    "r' \<in> R \<Longrightarrow> user_va va \<Longrightarrow> mapped k' r' va = mapped k r' va"
    "r' \<in> R \<Longrightarrow> user_va va \<Longrightarrow> r' \<noteq> r \<or> (\<forall>ph \<in> set phs. length (seg_bytes d ph) \<le> unat (va - p_vaddr ph)) \<Longrightarrow> user_byte k' r' va = user_byte k r' va"
  using assms unfolding loaded_def by blast+

lemma loaded_cons:
  assumes w: "wrote k R r (p_vaddr ph) (seg_bytes d ph) k1" and l: "loaded k1 R r d phs k2" and r: "r \<in> R"
    and ok: "\<forall>q \<in> set (ph # phs). seg_ok d q" "segs_apart (ph # phs)"
  shows "loaded k R r d (ph # phs) k2"
proof -
  let ?v = "p_vaddr ph" and ?b = "seg_bytes d ph"
  note sz = seg_size(1) [of d]
  have top: "unat (p_vaddr q) + length (seg_bytes d q) \<le> 0x6FFF0000" if "q \<in> set (ph # phs)" for q
    using ok(1) that sz [of q] by (auto simp: seg_ok_def)
  have "shows_bytes k2 r ?v ?b"
  proof -
    have "user_byte k2 r (?v + of_nat i) = user_byte k1 r (?v + of_nat i)" if i: "i < length ?b" for i
    proof (rule loadedD(6) [OF l r])
      note u = user_va_add [of ?v "length ?b" i] 
      show "user_va (?v + of_nat i)" using u top [of ph] i by simp
      have "length (seg_bytes d q) \<le> unat (?v + of_nat i - p_vaddr q)" if q: "q \<in> set phs" for q
      proof -
        have "unat ?v + 4096 * seg_pages ph \<le> unat (p_vaddr q) \<or> unat (p_vaddr q) + 4096 * seg_pages q \<le> unat ?v" using ok(2) q by simp
        then show ?thesis using u i top [of ph] top [of q] sz [of ph] sz [of q] ok(1) q by (auto simp: unat_sub_cases)
      qed
      then show "r \<noteq> r \<or> (\<forall>q \<in> set phs. length (seg_bytes d q) \<le> unat (?v + of_nat i - p_vaddr q))" by blast
    qed
    then show ?thesis using wrote_shows [OF w r] top [of ph] by (simp add: shows_bytes_def)
  qed
  moreover have "user_byte k2 r' va = user_byte k r' va" if "r' \<in> R" "user_va va" "r' \<noteq> r \<or> (\<forall>q \<in> set (ph # phs). length (seg_bytes d q) \<le> unat (va - p_vaddr q))" for r' va
    using loadedD(6) [OF l that(1,2)] wroteD(5) [OF w that(1,2)] that(3) by auto
  ultimately show ?thesis unfolding loaded_def
    using mem_step_trans [OF wrote_step [OF w] loadedD(1) [OF l]] loadedD(2-5) [OF l] wroteD(3,4) [OF w] by simp
qed

lemma copy_segments:
  assumes "spaces_ok k R" "r \<in> R" "\<forall>ph \<in> set (loads phs). seg_ok d ph" "segs_apart (loads phs)"
    "\<forall>ph \<in> set (loads phs). \<forall>va. user_va va \<longrightarrow> in_seg ph va \<longrightarrow> mapped k r va"
  shows "loaded k R r d (loads phs) (fold (copy_segment r d) phs k)"
  using assms(1,3-5)
proof (induction phs arbitrary: k)
  case Nil
  then show ?case by (simp add: loads_def loaded_def)
next
  case (Cons ph phs)
  show ?case
  proof (cases "p_type ph = PT_LOAD")
    case False
    then show ?thesis using Cons by (simp add: loads_def copy_segment_def)
  next
    case True
    then have l: "loads (ph # phs) = ph # loads phs" by (simp add: loads_def)
    have ok: "seg_ok d ph" using Cons.prems(2) l by simp
    have b: "unat (p_vaddr ph) + length (seg_bytes d ph) \<le> 0x6FFF0000" using ok seg_size(1) [OF ok] by (simp add: seg_ok_def)
    have "\<forall>i < length (seg_bytes d ph). mapped k r (p_vaddr ph + of_nat i)"
      using Cons.prems(4) l user_va_add [of "p_vaddr ph" "length (seg_bytes d ph)"] b seg_size(1) [OF ok]
      by (auto simp: in_seg_def unat_of_nat_u64)
    then have w: "wrote k R r (p_vaddr ph) (seg_bytes d ph) (fill_segment r (p_vaddr ph) (seg_bytes d ph) k)"
      using fill_segment_wrote [OF Cons.prems(1) assms(2)] b by simp
    have c: "copy_segment r d ph k = fill_segment r (p_vaddr ph) (seg_bytes d ph) k"
      using True by (simp add: copy_segment_def seg_bytes_def file_slice_def fill_segment.simps)
    show ?thesis unfolding l fold.simps comp_def c
      by (rule loaded_cons [OF w Cons.IH assms(2)]) (use Cons.prems l wroteD(2,4) [OF w] assms(2) in auto)
  qed
qed

subsection \<open>The image\<close>

text \<open>Headers as the loader wants them, at least one segment, and segments as above.\<close>

definition image_ok :: "u8 list \<Rightarrow> bool" where
  "image_ok d \<longleftrightarrow> EHDR_SIZE \<le> length d \<and> e_magic (ehdr_of d) = ELF_MAGIC_VAL \<and> e_type (ehdr_of d) = ELF_EXEC \<and> e_machine (ehdr_of d) = ELF_X86_64 \<and>
     loads (phdrs d) \<noteq> [] \<and> (\<forall>ph \<in> set (loads (phdrs d)). seg_ok d ph) \<and> segs_apart (loads (phdrs d))"

definition image_pages :: "u8 list \<Rightarrow> nat" where
  "image_pages d = (\<Sum>ph \<leftarrow> loads (phdrs d). seg_pages ph)"

text \<open>What a space shows of a program: the file parts, zeros up to the end of the last page of each segment, and the stack.\<close>

definition shows_image :: "'a sched_scheme \<Rightarrow> u8 list \<Rightarrow> string list \<Rightarrow> exec_image \<Rightarrow> bool" where
  "shows_image k d args img \<longleftrightarrow> img_entry img = e_entry (ehdr_of d) \<and> unat (img_rsp img) mod 16 = 8 \<and> initial_stack k (img_pml4 img) (img_rsp img) args \<and>
     (\<forall>ph \<in> set (loads (phdrs d)). shows_bytes k (img_pml4 img) (p_vaddr ph)
        (seg_bytes d ph @ replicate (4096 * seg_pages ph - length (seg_bytes d ph)) 0))"

lemma below_stack:
  assumes "seg_ok d ph" "i < 4096 * seg_pages ph"
  shows "user_va (p_vaddr ph + of_nat i)" "65536 \<le> unat (p_vaddr ph + of_nat i - 0x6FFF0000)" "unat (p_vaddr ph + of_nat i - p_vaddr ph) = i"
proof -
  have b: "unat (p_vaddr ph) + 4096 * seg_pages ph \<le> 0x6FFF0000" using assms(1) by (simp add: seg_ok_def)
  then have u: "user_va (p_vaddr ph + of_nat i)" "unat (p_vaddr ph + of_nat i) = unat (p_vaddr ph) + i"
    using user_va_add [of "p_vaddr ph" "4096 * seg_pages ph" i] assms(2) by simp_all
  then show "user_va (p_vaddr ph + of_nat i)" by simp
  show "65536 \<le> unat (p_vaddr ph + of_nat i - 0x6FFF0000)" unfolding unat_sub_cases u(2) using b assms(2) by simp
  show "unat (p_vaddr ph + of_nat i - p_vaddr ph) = i" unfolding unat_sub_cases u(2) by simp
qed

lemma apart_segs:
  assumes "segs_apart phs" "\<forall>ph \<in> set phs. seg_ok d ph" "ph \<in> set phs" "q \<in> set phs" "i < 4096 * seg_pages ph" "length (seg_bytes d ph) \<le> i"
  shows "length (seg_bytes d q) \<le> unat (p_vaddr ph + of_nat i - p_vaddr q)"
  using assms(1-4)
proof (induction phs)
  case (Cons a phs)
  have apart: "length (seg_bytes d y) \<le> unat (p_vaddr ph + of_nat i - p_vaddr y)"
    if "unat (p_vaddr ph) + 4096 * seg_pages ph \<le> unat (p_vaddr y) \<or> unat (p_vaddr y) + 4096 * seg_pages y \<le> unat (p_vaddr ph)" "seg_ok d ph" "seg_ok d y" for y
    using that seg_size(1) [OF that(3)] user_va_add [of "p_vaddr ph" "4096 * seg_pages ph" i] assms(5)
    by (auto simp: unat_sub_cases seg_ok_def)
  show ?case
  proof (cases "ph = q")
    case True
    then show ?thesis using below_stack(3) [of d ph i] Cons.prems assms(5,6) by auto
  next
    case False
    then show ?thesis using Cons apart [of q] by auto
  qed
qed simp

lemma segment_shown:
  assumes ok: "\<forall>ph \<in> set phs. seg_ok d ph" and apart: "segs_apart phs" and l: "loaded k2 R p d phs k3" and ph: "ph \<in> set phs"
    and R: "p \<in> R"
    and z: "\<And>va. user_va va \<Longrightarrow> in_seg ph va \<Longrightarrow> user_byte k2 p va = Some 0"
    and s: "\<And>va. user_va va \<Longrightarrow> 65536 \<le> unat (va - 0x6FFF0000) \<Longrightarrow> user_byte k4 p va = user_byte k3 p va"
  shows "shows_bytes k4 p (p_vaddr ph) (seg_bytes d ph @ replicate (4096 * seg_pages ph - length (seg_bytes d ph)) 0)" (is "shows_bytes _ _ _ ?bs")
  unfolding shows_bytes_def
proof (intro allI impI)
  fix j assume j: "j < length ?bs"
  have o': "seg_ok d ph" using ok ph by blast
  then have j': "j < 4096 * seg_pages ph" using j seg_size(1) [OF o'] by simp
  note b = below_stack [OF o' j']
  have "user_byte k4 p (p_vaddr ph + of_nat j) = user_byte k3 p (p_vaddr ph + of_nat j)" using s b by blast
  also have "\<dots> = Some (?bs ! j)"
  proof (cases "j < length (seg_bytes d ph)")
    case True
    then show ?thesis using loadedD(4) [OF l ph] by (simp add: shows_bytes_def nth_append)
  next
    case False
    then have "user_byte k3 p (p_vaddr ph + of_nat j) = user_byte k2 p (p_vaddr ph + of_nat j)"
      using apart_segs [OF apart ok ph _ j'] by (intro loadedD(6) [OF l]) (use b R in auto)
    moreover have "in_seg ph (p_vaddr ph + of_nat j)" using b(3) j' by (simp add: in_seg_def)
    ultimately show ?thesis using z b(1) False j by (auto simp: nth_append)
  qed
  finally show "user_byte k4 p (p_vaddr ph + of_nat j) = Some (?bs ! j)" .
qed

lemma load_image_ok:
  fixes argv :: "string list option"
  assumes "spaces_ok k R" "image_ok d" "65 + 4 * image_pages d \<le> unat (free_pages (frames k))"
  defines "args \<equiv> take 32 (case argv of None \<Rightarrow> [] | Some as \<Rightarrow> as)"
  shows "\<exists>img k'. load_image d argv k = (Some img, k') \<and> img_pml4 img \<notin> R \<and> spaces_ok k' (insert (img_pml4 img) R) \<and> shows_image k' d args img \<and>
    (\<forall>r \<in> R. \<forall>va. user_va va \<longrightarrow> user_byte k' r va = user_byte k r va)"
proof -
  let ?phs = "phdrs d"
  have i: "\<forall>ph \<in> set (loads ?phs). seg_ok d ph" "segs_apart (loads ?phs)" "loads ?phs \<noteq> []" using assms(2) by (simp_all add: image_ok_def)
  obtain p k1 where p: "pmap_create k = (p, k1)" "created k R p k1" "unat (free_pages (frames k)) \<le> unat (free_pages (frames k1)) + 1"
    using pmap_create_ok [OF assms(1)] assms(3) by auto
  have c: "p \<noteq> 0" "p \<notin> R" "spaces_ok k1 (insert p R)" "\<forall>r \<in> R. \<forall>va. user_va va \<longrightarrow> user_byte k1 r va = user_byte k r va"
    using p(2) unfolding created_def by blast+
  let ?R = "insert p R"
  obtain k2 where m: "fold (map_segment p) ?phs (True, k1) = (True, k2)" "zeroed k1 ?R p (\<lambda>x. \<exists>ph \<in> set (loads ?phs). in_seg ph x) k2"
    "unat (free_pages (frames k1)) \<le> unat (free_pages (frames k2)) + 4 * image_pages d"
    using map_segments [OF c(3) _ i(1)] assms(3) p(3) unfolding image_pages_def by auto
  note z = zeroedD [OF m(2)]
  define k3 where "k3 = fold (copy_segment p d) ?phs k2"
  have l: "loaded k2 ?R p d (loads ?phs) k3" unfolding k3_def using z(3) by (intro copy_segments [OF z(2) _ i(1,2)]) auto
  have "64 \<le> unat (free_pages (frames k3))" using loadedD(2) [OF l] assms(3) p(3) m(3) by simp
  then obtain sp k4 where s: "build_user_stack p argv k3 = (sp, k4)" "sp \<noteq> 0" "unat sp mod 16 = 8" "spaces_ok k4 ?R" "initial_stack k4 p sp args"
    "\<forall>r \<in> ?R. \<forall>va. user_va va \<longrightarrow> r \<noteq> p \<or> 65536 \<le> unat (va - 0x6FFF0000) \<longrightarrow> mapped k4 r va = mapped k3 r va \<and> user_byte k4 r va = user_byte k3 r va"
    using build_user_stack_ok [OF loadedD(3) [OF l], of p argv] unfolding args_def by auto
  define img where "img = \<lparr>img_pml4 = p, img_entry = e_entry (ehdr_of d), img_rsp = sp,
     img_brk = (image_end ?phs + 4096 - 1) AND NOT (4096 - 1)\<rparr>"
  have "\<exists>ph \<in> set ?phs. p_type ph = PT_LOAD" using i(3) by (auto simp: loads_def filter_empty_conv)
  then have res: "load_image d argv k = (Some img, k4)"
    using assms(2) p(1) c(1) m(1) s(1,2) unfolding load_image_def Let_def img_def k3_def by (simp add: image_ok_def)
  have "r \<noteq> p" if "r \<in> R" for r using c(2) that by auto
  then have "user_byte k4 r va = user_byte k r va" if "r \<in> R" "user_va va" for r va
    using s(6) loadedD(6) [OF l, of r va] z(4) [of r va] c(4) that by simp
  moreover have "shows_bytes k4 p (p_vaddr ph) (seg_bytes d ph @ replicate (4096 * seg_pages ph - length (seg_bytes d ph)) 0)" if ph: "ph \<in> set (loads ?phs)" for ph
    using z(4) [of p] s(6) ph by (intro segment_shown [OF i(1,2) l ph]) (simp, metis (no_types, lifting) insertI1, simp)
  ultimately show ?thesis using res s(3-5) c(2) by (intro exI [of _ img] exI [of _ k4]) (simp add: shows_image_def img_def)
qed

text \<open>The file system is no part of the page tables.\<close>

lemma fsys_spaces:
  fixes k :: "'a kdev_scheme"
  shows "spaces_ok (k\<lparr>fsys := v\<rparr>) R = spaces_ok k R" "user_byte (k\<lparr>fsys := v\<rparr>) r va = user_byte k r va"
proof -
  have e: "pt_entry (k\<lparr>fsys := v\<rparr>) t i = pt_entry k t i" for t i by (simp add: pt_entry_def hhdm_of_def)
  have t: "table_of (k\<lparr>fsys := v\<rparr>) r va d = table_of k r va d" for r va d by (induction d) (simp_all add: e split: option.split)
  have l: "leaf (k\<lparr>fsys := v\<rparr>) r va = leaf k r va" for r va by (simp add: leaf_def t e split: option.split)
  then have m: "mapped (k\<lparr>fsys := v\<rparr>) r va = mapped k r va" "frame_at (k\<lparr>fsys := v\<rparr>) r va = frame_at k r va" for r va
    by (simp_all add: mapped_def frame_at_def)
  show "spaces_ok (k\<lparr>fsys := v\<rparr>) R = spaces_ok k R" by (simp add: spaces_ok_def tables_ok_def t m)
  show "user_byte (k\<lparr>fsys := v\<rparr>) r va = user_byte k r va" by (simp add: user_byte_def m hhdm_of_def)
qed

text \<open>
  (C16) Loading a program.  For a path that resolves to an executable file with page-aligned, disjoint segments below the stack,
  and with a frame for every page and three tables per page, \<open>exec_build_image\<close> returns an image: its root is a new address space,
  separate from all others, that shows the bytes of the file at every segment, zeros behind them to the end of the page, and the
  initial stack with the argument count, the argument vector and the strings; the stack pointer is 8 below a multiple of 16; no
  byte of any other address space changes.
\<close>

theorem exec_builds_image:
  fixes k :: "'a kdev_scheme"
  assumes "vfs_resolve (\<lambda>i. sched_find_pid k i \<noteq> None) path (fsys k) = (p, v)" "p \<noteq> 0" "vtype (node_at v p) = VFS_FILE" "image_ok (vdata (node_at v p))"
    "spaces_ok k R" "65 + 4 * image_pages (vdata (node_at v p)) \<le> unat (free_pages (frames k))"
  shows "\<exists>img k'. exec_build_image path (Some args) k = (Some img, k') \<and> img_pml4 img \<notin> R \<and> spaces_ok k' (insert (img_pml4 img) R) \<and>
    shows_image k' (vdata (node_at v p)) (take 32 args) img \<and> (\<forall>r \<in> R. \<forall>va. user_va va \<longrightarrow> user_byte k' r va = user_byte k r va)"
proof -
  have "exec_build_image path (Some args) k = load_image (vdata (node_at v p)) (Some args) (k\<lparr>fsys := v\<rparr>)"
    using assms(1-4) by (simp add: exec_build_image_def image_ok_def)
  then show ?thesis using load_image_ok [where k = "k\<lparr>fsys := v\<rparr>" and d = "vdata (node_at v p)" and argv = "Some args" and R = R] assms(4-6)
    by (simp add: fsys_spaces)
qed

text \<open>A program of four bytes at \<open>/p\<close>, and a memory of 128 frames with one empty address space.\<close>

definition tiny_elf :: "u8 list" where
  "tiny_elf = [0x7F, 0x45, 0x4C, 0x46, 2, 1, 1, 0, 0, 0, 0, 0, 0, 0, 0, 0, 2, 0, 62, 0, 1, 0, 0, 0, 0, 0, 0x40, 0, 0, 0, 0, 0,
     64, 0, 0, 0, 0, 0, 0, 0, 0, 0, 0, 0, 0, 0, 0, 0, 0, 0, 0, 0, 64, 0, 56, 0, 1, 0, 0, 0, 0, 0, 0, 0,
     1, 0, 0, 0, 7, 0, 0, 0, 120, 0, 0, 0, 0, 0, 0, 0, 0, 0, 0x40, 0, 0, 0, 0, 0, 0, 0, 0x40, 0, 0, 0, 0, 0,
     4, 0, 0, 0, 0, 0, 0, 0, 4, 0, 0, 0, 0, 0, 0, 0, 0, 16, 0, 0, 0, 0, 0, 0, 0x0F, 0x05, 0xEB, 0xFE]"

lemma tiny_phdrs: "phdrs tiny_elf = [\<lparr>p_type = 1, p_offset = 120, p_vaddr = 0x400000, p_filesz = 4, p_memsz = 4\<rparr>]"
  by (simp add: phdrs_def phdr_of_def ehdr_of_def tiny_elf_def le64_def le32_def le16_def)

lemma tiny_image_ok: "image_ok tiny_elf" "image_pages tiny_elf = 1"
  by (simp_all add: image_ok_def image_pages_def tiny_phdrs loads_def seg_ok_def seg_pages_def page_aligned_def PTE_ADDR_MASK_def)
    (simp_all add: tiny_elf_def ehdr_of_def le64_def le32_def le16_def)

definition tiny_vfs :: vfs where
  "tiny_vfs = root_vfs\<lparr>nodes := [4096 \<mapsto> zero_vnode\<lparr>vname := ''/'', vtype := VFS_DIRECTORY, children := [4224]\<rparr>,
     4224 \<mapsto> zero_vnode\<lparr>vname := ''p'', vdata := tiny_elf, parent := 4096\<rparr>]\<rparr>"

definition tiny_kdev :: kdev where
  "tiny_kdev = demo_kdev\<lparr>fsys := tiny_vfs, kmem := (\<lambda>_. 0),
     frames := free3_pmm\<lparr>bitmap := (\<lambda>i. if i = 0 then 3 else 0), bitmap_size := 16, total_pages := 128, free_pages := 126\<rparr>\<rparr>"

lemma tiny_spaces_ok: "spaces_ok tiny_kdev {0x1000}"
proof -
  have e: "pt_entry tiny_kdev t i = 0" for t i unfolding pt_entry_def by (rule bit_word_eqI) (simp add: bit_load tiny_kdev_def)
  have t: "table_of tiny_kdev r va d = (if d = 0 then Some r else None)" for r va d
    by (induction d) (simp_all add: e)
  have m: "\<not> mapped tiny_kdev r va" for r va by (simp add: mapped_def leaf_def t)
  have f: "bitmap_test (frames tiny_kdev) 0" "bitmap_test (frames tiny_kdev) 1"
    by (simp_all add: tiny_kdev_def bitmap_test_bit bit_numeral_rec)
  have "pmm_inv (frames tiny_kdev)"
    by (simp add: tiny_kdev_def free3_pmm_def pmm_inv_def hhdm_ok_def free_count_def count_upto_code PAGE_SIZE_def bitmap_test_bit upt_rec)
  moreover have "page_aligned 0x1000" by (simp add: page_aligned_def PTE_ADDR_MASK_def)
  moreover have "unat (total_pages (frames tiny_kdev)) \<le> 2 ^ 40" by (simp add: tiny_kdev_def)
  ultimately have "tables_ok tiny_kdev {0x1000}" using f by (intro tables_okI) (auto simp: t same_path_def split: if_splits)
  then show ?thesis by (simp add: spaces_ok_def m)
qed

theorem exec_builds_image_witness:
  "\<exists>img k'. exec_build_image ''/p'' (Some [''p'', ''x'']) tiny_kdev = (Some img, k') \<and> img_pml4 img \<noteq> 0x1000 \<and> shows_image k' tiny_elf [''p'', ''x''] img"
proof -
  have r: "vfs_resolve (\<lambda>i. sched_find_pid tiny_kdev i \<noteq> None) ''/p'' (fsys tiny_kdev) = (4224, tiny_vfs)"
    by (simp add: tiny_kdev_def vfs_resolve_def tiny_vfs_def root_vfs_def vfs_walk.simps next_component_def find_child_def node_at_def zero_vnode_def Let_def)
  have n: "vtype (node_at tiny_vfs 4224) = VFS_FILE" "vdata (node_at tiny_vfs 4224) = tiny_elf"
    by (simp_all add: tiny_vfs_def node_at_def zero_vnode_def)
  have "65 + 4 * image_pages tiny_elf \<le> unat (free_pages (frames tiny_kdev))" by (simp add: tiny_image_ok(2) tiny_kdev_def)
  then show ?thesis using exec_builds_image [OF r _ n(1) _ tiny_spaces_ok, of "[''p'', ''x'']"] tiny_image_ok(1) n(2) by fastforce
qed

end
