(* ===== verification/Kernel.thy ===== *)
theory Kernel
  imports Loader Kprintf Devices Gfx
begin

text \<open>
  The state of the whole kernel and what the system calls share: the kernel log, a panic (\<open>kernel/src/lib/panic.c\<close>), access to the
  memory of the caller, and the ways in which a system call can end.
\<close>

subsection \<open>State\<close>

text \<open>
  Beside the state of the devices: the serial log, the mouse, the framebuffer that the boot loader reports, the request of \<open>rudo\<close>
  that is waiting, and the requester of an intended fault.  The serial log shares the screen with the console.  \<open>stale\<close> stands for
  the stack bytes that \<open>kprintf\<close> may print for padded numbers.
\<close>

record rudo =
  rq_op :: int
  rq_requester :: int
  rq_pending :: bool
  rq_result :: int

record kernel = kdev +
  slog :: klog
  stale :: "nat \<Rightarrow> char"
  mdev :: mouse_dev
  lfb :: "framebuffer option"
  rudo_queue :: rudo
  g_rudo_fault_requester :: int

definition klogf :: "string \<Rightarrow> va list \<Rightarrow> 'a kernel_scheme \<Rightarrow> 'a kernel_scheme" where
  "klogf fmt ap k = (let l = kprintf (stale k) fmt ap ((slog k)\<lparr>scr := con k\<rparr>) in k\<lparr>con := scr l, slog := l\<rparr>)"

definition to_int :: "u64 \<Rightarrow> int" where
  "to_int w = sint (ucast w :: u32)"

definition tty_printf :: "string \<Rightarrow> va list \<Rightarrow> tty \<Rightarrow> tty" where
  "tty_printf fmt ap t = tty_write (takeWhile (\<lambda>c. c \<noteq> CHR 0x00) (vsnprintf_mini 511 fmt ap)) t"

subsection \<open>Panic\<close>

abbreviation PANIC_BG :: u32 where "PANIC_BG \<equiv> 0xFF0078D7"
abbreviation ESC :: char where "ESC \<equiv> CHR 0x1B"

definition task_args :: "task \<Rightarrow> va list" where
  "task_args t = [VA_str (Some (name t)), VA_num (of_int (pid t)), VA_num (of_int (pgid t))]"

definition panic_screen :: "string \<Rightarrow> task option \<Rightarrow> u64 \<Rightarrow> tty \<Rightarrow> tty" where
  "panic_screen reason cur uptime t =
     (let t = tty_set_colors 0xFFFFFFFF PANIC_BG (gfx_clear PANIC_BG t);
          t = tty_printf ([ESC] @ ''[H'') [] t;
          t = tty_printf [nl] [] t;
          t = tty_printf (''    :('' @ [nl]) [] t;
          t = tty_printf [nl] [] t;
          t = tty_printf (''    '' @ [ESC] @ ''[1;97mMMIX KERNEL PANIC'' @ [ESC] @ ''[39m'' @ [nl]) [] t;
          t = tty_printf [nl] [] t;
          t = tty_printf (''    '' @ [ESC] @ ''[1;93m%s'' @ [ESC] @ ''[39m'' @ [nl]) [VA_str (Some reason)] t;
          t = tty_printf [nl] [] t;
          t = (case cur of
                 Some c \<Rightarrow> tty_printf (''    Task:    %s (PID %d, PGID %d)'' @ [nl]) (task_args c) t
               | None \<Rightarrow> tty_printf (''    Task:    <none>'' @ [nl]) [] t);
          t = tty_printf (''    Uptime:  %u s'' @ [nl]) [VA_num (uptime div 50)] t;
          t = tty_printf [nl] [] t;
          t = tty_printf (''    The system has been halted.'' @ [nl]) [] t
      in tty_printf (''    Reset the machine to recover.'' @ [nl]) [] t)"

text \<open>The state in which the machine halts.\<close>

definition panic :: "string \<Rightarrow> va list \<Rightarrow> 'a kernel_scheme \<Rightarrow> 'a kernel_scheme" where
  "panic fmt ap k =
     (let reason = takeWhile (\<lambda>c. c \<noteq> CHR 0x00) (vsnprintf_mini 255 fmt ap);
          cur = map_option (task_at k) (sched_get_current k);
          k = klogf ([nl] @ ''[PANIC] %s'' @ [nl]) [VA_str (Some reason)] k;
          k = (case cur of None \<Rightarrow> k | Some t \<Rightarrow> klogf (''    Task: %s (PID %d, PGID %d)'' @ [nl]) (task_args t) k);
          k = klogf (''    Uptime: %u s'' @ [nl]) [VA_num (g_uptime_ticks k div 50)] k
      in k\<lparr>con := panic_screen reason cur (g_uptime_ticks k) (con k)\<rparr>)"

subsection \<open>Memory of the caller\<close>

text \<open>The bytes of a buffer, and whether it can be read; a string of at most \<open>n\<close> characters, as \<open>strncpy\<close> reads it.\<close>

definition ubytes :: "'a sched_scheme \<Rightarrow> u64 \<Rightarrow> nat \<Rightarrow> u8 list" where
  "ubytes k va n = map (\<lambda>i. case uget k (va + of_nat i) of None \<Rightarrow> 0 | Some b \<Rightarrow> b) [0 ..< n]"

definition ureadable :: "'a sched_scheme \<Rightarrow> u64 \<Rightarrow> nat \<Rightarrow> bool" where
  "ureadable k va n \<longleftrightarrow> (\<forall>i \<in> set [0 ..< n]. uget k (va + of_nat i) \<noteq> None)"

primrec ustrn :: "'a sched_scheme \<Rightarrow> nat \<Rightarrow> u64 \<Rightarrow> string option" where
  "ustrn k 0 va = Some []"
| "ustrn k (Suc n) va =
     (case uget k va of
        None \<Rightarrow> None
      | Some b \<Rightarrow> if b = 0 then Some [] else map_option ((#) (char_of (unat b))) (ustrn k n (va + 1)))"

text \<open>A store in the address space \<open>r\<close>, which is not the current one when the caller has been switched away from meanwhile.\<close>

definition uwrite_in :: "u64 \<Rightarrow> u64 \<Rightarrow> u8 list \<Rightarrow> 'a sched_scheme \<Rightarrow> 'a sched_scheme option" where
  "uwrite_in r va bs k = map_option (\<lambda>k'. k'\<lparr>cr3 := cr3 k\<rparr>) (uwrite va bs (k\<lparr>cr3 := r\<rparr>))"

subsection \<open>Outcomes\<close>

text \<open>
  A system call returns a value in \<open>rax\<close>; or it gave the processor away and goes on at a point of its code when the caller is
  scheduled again; or the caller does not come back: it was terminated, or entered a new image; or the machine stops: a fault in the kernel,
  a panic, a reset, or a loop of a driver that waits forever.
\<close>

datatype cont =
    Again
  | From nat
  | Got "u8 list"
  | Answer
  | Dispatch

datatype outcome =
    Ret u64
  | Parked cont
  | Gone
  | Enter
  | Fault
  | Panic
  | Reset
  | Spin

definition ret :: "int \<Rightarrow> outcome" where
  "ret i = Ret (of_int i)"

text \<open>Inputs that are not part of the state: the stack pointer a switch saves, pointers from the heap, code addresses, the clock.\<close>

record env =
  e_sp :: u64
  e_ptr :: u64
  enter_first_userspace :: u64
  e_cmos :: cmos

end
