(* ===== verification/Taskview.thy ===== *)
theory Taskview
  imports Kernel
begin

text \<open>
  What an operation of the kernel leaves alone.  Most of a system call moves bytes, maps pages, logs, or changes the scheduling state of
  tasks; such a step keeps the identity, the owner and the descriptors of every task and the reference counts of every pipe.
\<close>

named_theorems mem_steps
named_theorems calm_steps

subsection \<open>Steps on memory\<close>

lemma mem_steps_trans: "mem_step k k' \<Longrightarrow> mem_step k' k'' \<Longrightarrow> mem_step k k''"
  by (rule mem_step_trans)

lemma step_kmem [mem_steps]: "mem_step k k1 \<Longrightarrow> mem_step k (k1\<lparr>kmem := m\<rparr>)"
  by (erule mem_step_trans) (simp add: mem_step_def)

lemma step_frames [mem_steps]: "mem_step k k1 \<Longrightarrow> mem_step k (k1\<lparr>frames := f\<rparr>)"
  by (erule mem_step_trans) (simp add: mem_step_def)

lemma step_set_entry [mem_steps]: "mem_step k k1 \<Longrightarrow> mem_step k (set_entry t i v k1)"
  unfolding set_entry_def by (rule step_kmem)

lemma step_zero_page [mem_steps]: "mem_step k k1 \<Longrightarrow> mem_step k (zero_page p k1)"
  unfolding zero_page_def by (rule step_kmem)

lemma step_free_page [mem_steps]: "mem_step k k1 \<Longrightarrow> mem_step k (free_page p k1)"
  unfolding free_page_def by (rule step_frames)

lemma step_put_byte [mem_steps]: "mem_step k k1 \<Longrightarrow> mem_step k (put_byte a b k1)"
  unfolding put_byte_def by (rule step_kmem)

lemma step_poke [mem_steps]: "mem_step k k1 \<Longrightarrow> mem_step k (poke a bs k1)"
  unfolding poke_def by (rule step_kmem)

lemma step_ref_set [mem_steps]: "mem_step k k1 \<Longrightarrow> mem_step k (ref_set pa v k1)"
  unfolding ref_set_def by (rule step_kmem)

lemma step_ref_inc [mem_steps]: "mem_step k k1 \<Longrightarrow> mem_step k (frame_ref_inc pa k1)"
  by (simp add: frame_ref_inc_def step_ref_set)

lemma step_alloc_page: "alloc_page k = (p, k') \<Longrightarrow> mem_step k k'"
  by (auto simp: alloc_page_def Let_def split: prod.splits intro: step_frames)

lemma step_ref_dec: "frame_ref_dec pa k = (b, k') \<Longrightarrow> mem_step k k'"
  by (auto simp: frame_ref_dec_def Let_def step_ref_set split: if_splits)

lemma step_drop_frame [mem_steps]: "mem_step k k1 \<Longrightarrow> mem_step k (drop_frame pa k1)"
  by (auto simp: drop_frame_def Let_def split: prod.splits intro: mem_step_trans step_ref_dec step_free_page)

lemma step_fold: "(\<And>i k. mem_step k (f i k)) \<Longrightarrow> mem_step k (fold f is k)"
proof (induction "is" arbitrary: k)
  case (Cons i "is")
  show ?case using mem_step_trans [OF Cons.prems Cons.IH [OF Cons.prems]] by simp
qed simp

lemma step_fold_pair: "(\<And>i b k. mem_step k (snd (f i (b, k)))) \<Longrightarrow> mem_step k (snd (fold f is (b, k)))"
proof (induction "is" arbitrary: b k)
  case (Cons i "is")
  obtain b' k' where f: "f i (b, k) = (b', k')" by (cases "f i (b, k)")
  have "mem_step k k'" using Cons.prems [of k i b] by (simp add: f)
  moreover have "mem_step k' (snd (fold f is (b', k')))" by (rule Cons.IH) (rule Cons.prems)
  ultimately show ?case using mem_step_trans by (simp add: f)
qed simp

lemma step_each_freed: "(\<And>e k. mem_step k (body e k)) \<Longrightarrow> mem_step k (each_freed n body t k)"
  unfolding each_freed_def Let_def by (intro step_free_page step_fold) simp

lemma step_destroy [mem_steps]: "mem_step k k1 \<Longrightarrow> mem_step k (pmap_destroy r k1)"
  unfolding pmap_destroy_def by (erule mem_step_trans) (intro step_each_freed step_drop_frame mem_step_refl)

lemma step_table_alloc: "table_alloc k = (t, k') \<Longrightarrow> mem_step k k'"
  by (auto simp: table_alloc_def Let_def split: prod.splits if_splits intro: step_alloc_page mem_step_trans [OF step_alloc_page] step_zero_page)

lemma step_descend: "descend l t va fl k = (r, k') \<Longrightarrow> mem_step k k'"
proof (induction l arbitrary: t k r k')
  case (Suc l)
  show ?case
  proof (cases "pt_entry k t (idx va (Suc l)) AND PTE_PRESENT = 0")
    case True
    obtain p k1 where a: "table_alloc k = (p, k1)" by (cases "table_alloc k")
    have "mem_step (set_entry t (idx va (Suc l)) (p OR PTE_PRESENT OR PTE_WRITE OR fl) k1) k'" if "p \<noteq> 0"
      using Suc True that by (intro Suc.IH) (simp add: a Let_def)
    then show ?thesis using Suc.prems True step_table_alloc [OF a] mem_step_trans [OF step_set_entry [OF step_table_alloc [OF a]]]
      by (cases "p = 0") (simp_all add: a Let_def)
  next
    case False
    then show ?thesis using Suc by (auto simp: Let_def)
  qed
qed simp

lemma step_map [mem_steps]: "mem_step k k1 \<Longrightarrow> mem_step k (pmap_map r va pa fl k1)"
  by (auto simp: pmap_map_def split: prod.splits option.splits intro!: step_set_entry intro: mem_step_trans step_descend)

lemma step_unmap [mem_steps]: "mem_step k k1 \<Longrightarrow> mem_step k (pmap_unmap r va k1)"
  by (auto simp: pmap_unmap_def step_set_entry split: option.splits)

lemma step_clone_upper [mem_steps]: "mem_step k k1 \<Longrightarrow> mem_step k (clone_upper old new k1)"
  using mem_step_trans clone_upper_step by blast

lemma step_create: "pmap_create k = (p, k') \<Longrightarrow> mem_step k k'"
  by (auto simp: pmap_create_def Let_def split: prod.splits if_splits
      intro: step_alloc_page mem_step_trans [OF step_alloc_page] step_clone_upper step_zero_page)

lemma step_each_present:
  assumes "\<And>i e k. mem_step k (snd (body i e k))"
  shows "mem_step k (snd (each_present n body t k))"
  unfolding each_present_def using assms by (intro step_fold_pair) (simp add: Let_def split: prod.split)

lemma step_fork_page: "mem_step k (snd (fork_page child p4 p3 p2 p1 e k))"
  by (auto simp: fork_page_def Let_def split: prod.splits intro!: step_map step_ref_inc step_kmem intro: step_alloc_page)

lemma step_fork: "pmap_fork r k = (p, k') \<Longrightarrow> mem_step k k'"
proof -
  assume f: "pmap_fork r k = (p, k')"
  obtain c k1 where c: "pmap_create k = (c, k1)" by (cases "pmap_create k")
  have "mem_step k1 (snd (each_present 256 (\<lambda>p4 e4. each_present 512 (\<lambda>p3 e3. each_present 512 (\<lambda>p2 e2.
      each_present 512 (fork_page c p4 p3 p2) (e2 AND PTE_ADDR_MASK)) (e3 AND PTE_ADDR_MASK)) (e4 AND PTE_ADDR_MASK)) r k1))"
    by (intro step_each_present step_fork_page)
  then show ?thesis using f step_create [OF c] mem_step_trans by (auto simp: pmap_fork_def c Let_def split: if_splits prod.splits)
qed

lemma step_uwrite: "uwrite va bs k = Some k' \<Longrightarrow> mem_step k k'"
proof (induction bs arbitrary: va k)
  case (Cons b bs)
  then show ?case by (auto split: option.splits intro: mem_step_trans [OF step_put_byte [OF mem_step_refl]])
qed simp

lemma step_map_zeroed [mem_steps]: "mem_step k (snd (map_zeroed_page r va i (b, k)))"
  by (auto simp: map_zeroed_page_def Let_def split: prod.splits intro!: step_map step_zero_page intro: step_alloc_page)

lemma step_copy_to_va: "mem_step k (snd (copy_to_va r va bs k))"
proof (induction r va bs k rule: copy_to_va.induct)
  case (1 r va bs k)
  show ?case
  proof (cases "bs = [] \<or> pmap_resolve r (va AND NOT 0xFFF) k = 0")
    case True
    then show ?thesis by (subst copy_to_va.simps) auto
  next
    case False
    then show ?thesis using 1 by (subst copy_to_va.simps) (auto simp: Let_def intro: mem_step_trans [OF step_poke [OF mem_step_refl]])
  qed
qed

lemma step_fill_segment: "mem_step k (fill_segment r va bs k)"
proof (induction r va bs k rule: fill_segment.induct)
  case (1 r va bs k)
  then show ?case by (subst fill_segment.simps) (auto simp: Let_def intro: mem_step_trans [OF step_poke [OF mem_step_refl]])
qed

lemma step_push_args: "mem_step k (snd (push_args r as sp k))"
proof (induction "as" arbitrary: sp k)
  case (Cons a "as")
  obtain q k1 where p: "push_args r as sp k = (q, k1)" by (cases "push_args r as sp k")
  have k1: "mem_step k k1" using Cons.IH [of k sp] by (simp add: p)
  show ?case
  proof (cases q)
    case (Some x)
    obtain sp1 addrs where x: "x = (sp1, addrs)" by (cases x)
    let ?c = "copy_to_va r (sp1 - of_nat (length (arg_bytes a))) (arg_bytes a) k1"
    have "snd (push_args r (a # as) sp k) = snd ?c" by (simp add: p Some x Let_def split: prod.split)
    then show ?thesis using mem_step_trans [OF k1 step_copy_to_va] by simp
  qed (use k1 p in simp)
qed simp

lemma step_zeroed_range: "mem_step k (snd (map_zeroed_range r va n k))"
  unfolding map_zeroed_range_def Let_def by (intro step_fold_pair step_map_zeroed)

lemma step_stack: "mem_step k (snd (build_user_stack r argv k))"
proof -
  obtain b1 k1 where 1: "map_zeroed_range r (USER_STACK_TOP - USER_STACK_PAGES * 4096) (USER_STACK_PAGES * 4096) k = (b1, k1)" by fastforce
  define args where "args = take EXEC_MAX_ARGS (case argv of None \<Rightarrow> [] | Some as \<Rightarrow> as)"
  obtain q k2 where 2: "push_args r args USER_STACK_TOP k1 = (q, k2)" by fastforce
  have s1: "mem_step k k1"
    using step_zeroed_range [of k r "USER_STACK_TOP - USER_STACK_PAGES * 4096" "USER_STACK_PAGES * 4096"] unfolding 1 by simp
  have s: "mem_step k k1" "mem_step k k2"
    using s1 mem_step_trans [OF s1] step_push_args [of k1 r args USER_STACK_TOP] by (simp_all add: 2)
  show ?thesis
  proof (cases "b1 \<and> q \<noteq> None")
    case True
    then obtain sp1 addrs where q: "b1" "q = Some (sp1, addrs)" by auto
    define sp2 where "sp2 = ((sp1 AND NOT 0xF) - of_nat (8 * length (addrs @ [0, 0]))) AND NOT 0xF"
    obtain b3 k3 where 3: "copy_to_va r sp2 (concat (map u64_bytes (addrs @ [0, 0]))) k2 = (b3, k3)" by fastforce
    obtain b4 k4 where 4: "copy_to_va r (sp2 - 8) (u64_bytes (of_nat (length args))) k3 = (b4, k4)" by fastforce
    have "mem_step k k3" using mem_step_trans [OF s(2)] step_copy_to_va [of k2 r sp2 "concat (map u64_bytes (addrs @ [0, 0]))"] unfolding 3 by simp
    moreover have "mem_step k3 k4" using step_copy_to_va [of k3 r "sp2 - 8" "u64_bytes (of_nat (length args))"] by (simp add: 4)
    moreover have "snd (build_user_stack r argv k) \<in> {k3, k4}"
      unfolding build_user_stack_def args_def [symmetric] Let_def 1 prod.case 2 q option.case sp2_def [symmetric] 3 4 using q by simp
    ultimately show ?thesis using mem_step_trans by auto
  next
    case False
    then have "\<not> b1 \<or> q = None" by blast
    then have "snd (build_user_stack r argv k) \<in> {k1, k2}"
      unfolding build_user_stack_def args_def [symmetric] Let_def 1 prod.case 2 by (elim disjE) simp_all
    then show ?thesis using s by auto
  qed
qed

lemma step_map_segment: "mem_step k (snd (map_segment r ph (b, k)))"
  by (simp add: map_segment_def step_zeroed_range)

lemma step_copy_segment: "mem_step k (copy_segment r d ph k)"
  by (simp add: copy_segment_def step_fill_segment)

lemma step_load_image: "mem_step k (snd (load_image d argv k))"
proof -
  obtain p k1 where 1: "pmap_create k = (p, k1)" by fastforce
  obtain b k2 where 2: "fold (map_segment p) (phdrs d) (True, k1) = (b, k2)" by fastforce
  define k3 where "k3 = fold (copy_segment p d) (phdrs d) k2"
  obtain sp k4 where 4: "build_user_stack p argv k3 = (sp, k4)" by fastforce
  have s1: "mem_step k k1" by (rule step_create [OF 1])
  have "mem_step k1 (snd (fold (map_segment p) (phdrs d) (True, k1)))" by (intro step_fold_pair step_map_segment)
  then have s2: "mem_step k k2" using mem_step_trans [OF s1] by (simp add: 2)
  have s3: "mem_step k k3" unfolding k3_def by (rule mem_step_trans [OF s2 step_fold]) (rule step_copy_segment)
  have s4: "mem_step k k4" using mem_step_trans [OF s3] step_stack [of k3 p argv] by (simp add: 4)
  have "snd (load_image d argv k) \<in> {k, k1, pmap_destroy p k2, pmap_destroy p k4, k4}"
    unfolding load_image_def Let_def 1 prod.case 2 k3_def [symmetric] 4 by simp
  then show ?thesis using s1 s2 s4 step_destroy by auto
qed

subsection \<open>Calm steps\<close>

text \<open>What the invariants of the kernel depend on in a task.\<close>

definition core :: "task \<Rightarrow> bool \<times> int \<times> int \<times> u32 \<times> (u64 \<times> u32) list \<times> nat" where
  "core t = (state t = TASK_FREE, pid t, parent_pid t, uid t, map (\<lambda>f. (f_pipe f, f_flags f)) (fds t), length (sig_handler t))"

text \<open>The current task is no free slot.\<close>

definition sane :: "'a sched_scheme \<Rightarrow> bool" where
  "sane k \<longleftrightarrow> sched_inv k \<and> (\<forall>c. current k = Some c \<longrightarrow> state (task_at k c) \<noteq> TASK_FREE)"

definition pipe_counts :: "'a ipc_scheme \<Rightarrow> u64 \<Rightarrow> (int \<times> int) option" where
  "pipe_counts k p = map_option (\<lambda>q. (readers q, writers q)) (pipes k p)"

definition calm :: "'a ipc_scheme \<Rightarrow> 'a ipc_scheme \<Rightarrow> bool" where
  "calm k k' \<longleftrightarrow> sane k \<longrightarrow> sane k' \<and> map core (tasks k') = map core (tasks k) \<and> pipe_counts k' = pipe_counts k \<and> next_pid k' = next_pid k \<and> console_fds k' = console_fds k"

lemma calm_refl: "calm k k"
  by (simp add: calm_def)

lemma calm_trans: "calm k k' \<Longrightarrow> calm k' k'' \<Longrightarrow> calm k k''"
  by (simp add: calm_def)

lemma calmD:
  assumes "calm k k'" "sane k"
  shows "sane k'" "core (task_at k' i) = core (task_at k i)" "pipe_counts k' = pipe_counts k" "next_pid k' = next_pid k" "console_fds k' = console_fds k"
    "map core (tasks k') = map core (tasks k)"
proof -
  show c: "sane k'" "pipe_counts k' = pipe_counts k" "next_pid k' = next_pid k" "console_fds k' = console_fds k" "map core (tasks k') = map core (tasks k)"
    using assms by (simp_all add: calm_def)
  then have "length (tasks k') = length (tasks k)" by (metis length_map)
  then show "core (task_at k' i) = core (task_at k i)" using c(5) by (auto simp: task_at_def) (metis nth_map)
qed

text \<open>A step that leaves the tasks and the pipes alone.\<close>

lemma calm_still:
  assumes "tasks k' = tasks k" "current k' = current k" "pipes k' = pipes k" "next_pid k' = next_pid k" "console_fds k' = console_fds k"
  shows "calm k k'"
proof -
  have "task_at k' = task_at k" using assms(1) by (simp add: task_at_def fun_eq_iff)
  then have "sane k' = sane k" by (simp add: sane_def sched_inv_def assms(1,2))
  moreover have "pipe_counts k' = pipe_counts k" by (rule ext) (simp add: pipe_counts_def assms(3))
  ultimately show ?thesis unfolding calm_def using assms(1,4,5) by simp
qed

lemma calm_mem: "mem_step k k' \<Longrightarrow> calm k k'"
proof (rule calm_still)
  assume "mem_step k k'"
  then have k': "k' = k\<lparr>frames := frames k', kmem := kmem k'\<rparr>" by (simp add: mem_step_def)
  show "tasks k' = tasks k" "current k' = current k" "pipes k' = pipes k" "next_pid k' = next_pid k" "console_fds k' = console_fds k"
    by (subst k', simp)+
qed

text \<open>A step on one task.\<close>

lemma calm_put:
  assumes "core t = core (task_at k i)" "state t = state (task_at k i) \<or> state t \<noteq> TASK_RUNNING \<and> state t \<noteq> TASK_FREE"
  shows "calm k (put_task i t k)"
proof -
  have "map core ((tasks k)[i := t]) = map core (tasks k)"
  proof (cases "i < length (tasks k)")
    case True
    then show ?thesis using assms(1) by (simp add: map_update task_at_def) (metis list_update_id nth_map)
  qed (simp add: list_update_beyond)
  moreover have "sane (put_task i t k)" if s: "sane k"
  proof -
    have st: "state (task_at (put_task i t k) j) = TASK_RUNNING \<Longrightarrow> state (task_at k j) = TASK_RUNNING"
      "state (task_at (put_task i t k) j) = TASK_FREE \<Longrightarrow> state (task_at k j) = TASK_FREE" for j
      using assms(2) by (simp_all split: if_splits)
    then show ?thesis using s unfolding sane_def sched_inv_def put_task_sel by blast
  qed
  moreover have "pipe_counts (put_task i t k) = pipe_counts k" by (rule ext) (simp add: pipe_counts_def)
  ultimately show ?thesis unfolding calm_def by (simp add: put_task_def)
qed

lemma calm_wake: "calm k (sched_wake i k)"
  by (auto simp: sched_wake_def Let_def core_def intro!: calm_put calm_refl)

lemma calm_fold: "(\<And>i k. calm k (f i k)) \<Longrightarrow> calm k (fold f is k)"
proof (induction "is" arbitrary: k)
  case (Cons i "is")
  show ?case using calm_trans [OF Cons.prems Cons.IH [OF Cons.prems]] by simp
qed (simp add: calm_refl)

lemma calm_pipe_wake: "calm k (pipe_wake p k)"
proof -
  have "calm k (wake_if_waiting p i k)" for i and k :: "'a ipc_scheme"
  proof -
    have "calm k (put_task i ((task_at k i)\<lparr>wait_pipe := 0\<rparr>) k)" by (rule calm_put) (simp_all add: core_def)
    then show ?thesis using calm_trans [OF _ calm_wake] by (auto simp: wake_if_waiting_def Let_def calm_refl)
  qed
  then show ?thesis unfolding pipe_wake_def by (rule calm_fold)
qed

lemma map_core_eqI: "length (tasks k') = length (tasks k) \<Longrightarrow> (\<And>i. core (task_at k' i) = core (task_at k i)) \<Longrightarrow> map core (tasks k') = map core (tasks k)"
  by (rule nth_equalityI) (simp, metis length_map nth_map task_at_def)

lemma switch_core: "map core (tasks (switch_to sp n k)) = map core (tasks k)"
proof (rule map_core_eqI)
  show "length (tasks (switch_to sp n k)) = length (tasks k)" by (simp add: switch_to_def Let_def split: option.split)
  show "core (task_at (switch_to sp n k) i) = core (task_at k i)" for i
    by (auto simp: switch_to_def Let_def core_def split: option.split)
qed

lemma yield_keeps:
  fixes k :: "'a ipc_scheme"
  shows "pipes (sched_yield sp k) = pipes k" "next_pid (sched_yield sp k) = next_pid k" "console_fds (sched_yield sp k) = console_fds k"
  by (simp_all add: sched_yield_def switch_to_def put_task_def Let_def split: option.split)

lemma calm_yield: "calm k (sched_yield sp k)"
proof (cases "sane k \<and> scheduling_started k \<and> current k \<noteq> None")
  case True
  then obtain c where k: "sched_inv k" "scheduling_started k" "current k = Some c" "state (task_at k c) \<noteq> TASK_FREE" by (auto simp: sane_def)
  from k(1-3) show ?thesis
  proof (cases rule: sched_yield_cases [where sp = sp])
    case stay
    then show ?thesis by (simp add: calm_refl)
  next
    case (switch n k1)
    note f = switch_to_facts [OF switch(7,8,4,3,2), of sp]
    have "core (task_at k1 i) = core (task_at k i)" for i
    proof -
      have "state (task_at k1 i) = TASK_FREE \<longleftrightarrow> state (task_at k i) = TASK_FREE"
      proof (cases "i = n \<or> i = c")
        case True
        then show ?thesis using switch(5,12,15) k(4) by (auto simp: runnable_def split: if_splits)
      qed (simp add: switch(11))
      then show ?thesis by (subst switch(14)) (simp add: core_def)
    qed
    then have "map core (tasks k1) = map core (tasks k)" using switch(7) sched_inv_len [OF k(1)] by (intro map_core_eqI) simp_all
    then have m: "map core (tasks (sched_yield sp k)) = map core (tasks k)" by (simp add: switch(6) switch_core)
    have "sane (sched_yield sp k)"
      using sched_yield_inv(1) [OF k(1), of sp] f(1,3) switch(12) by (simp add: sane_def switch(6))
    moreover have "pipe_counts (sched_yield sp k) = pipe_counts k" by (rule ext) (simp add: pipe_counts_def)
    ultimately show ?thesis unfolding calm_def using m by (simp add: yield_keeps)
  qed
next
  case False
  then show ?thesis using sched_yield_idle [of k sp] by (auto simp: calm_def)
qed

subsection \<open>Rules\<close>

text \<open>The rules in the form that follows the nesting of the operations.\<close>

lemma calm_rules [calm_steps]:
  assumes "calm k k1"
  shows "calm k (sched_wake i k1)" "calm k (sched_yield sp k1)" "calm k (pipe_wake p k1)"
  by (rule calm_trans [OF assms calm_wake], rule calm_trans [OF assms calm_yield], rule calm_trans [OF assms calm_pipe_wake])

lemma calm_fields [calm_steps]:
  fixes k :: "'a ipc_scheme"
  assumes "calm k k1"
  shows "calm k (k1\<lparr>frames := f\<rparr>)" "calm k (k1\<lparr>kmem := m\<rparr>)" "calm k (k1\<lparr>cr3 := c\<rparr>)" "calm k (k1\<lparr>bsp_cpu := b\<rparr>)" "calm k (k1\<lparr>g_resched_requested := g\<rparr>)"
  by (rule calm_trans [OF assms calm_still]; simp)+

lemma calm_kcon_fields [calm_steps]:
  fixes k :: "'a kcon_scheme"
  assumes "calm k k1"
  shows "calm k (k1\<lparr>kb := b\<rparr>)" "calm k (k1\<lparr>console_fg_pgid := g\<rparr>)"
  by (rule calm_trans [OF assms calm_still]; simp)+

lemma calm_kdev_fields [calm_steps]:
  fixes k :: "'a kdev_scheme"
  assumes "calm k k1"
  shows "calm k (k1\<lparr>fsys := v\<rparr>)" "calm k (k1\<lparr>con := t\<rparr>)" "calm k (k1\<lparr>rng_state := r\<rparr>)" "calm k (k1\<lparr>netdev := n, card := c\<rparr>)" "calm k (k1\<lparr>netdev := n\<rparr>)" "calm k (k1\<lparr>sb := s\<rparr>)"
  by (rule calm_trans [OF assms calm_still]; simp)+

lemma calm_kernel_fields [calm_steps]:
  fixes k :: "'a kernel_scheme"
  assumes "calm k k1"
  shows "calm k (k1\<lparr>rudo_queue := q\<rparr>)" "calm k (k1\<lparr>g_rudo_fault_requester := g\<rparr>)" "calm k (klogf fmt ap k1)" "calm k (panic fmt ap k1)"
  by (rule calm_trans [OF assms calm_still]; simp add: klogf_def panic_def Let_def split: option.split)+

lemma calm_uwrite: "calm k k1 \<Longrightarrow> uwrite va bs k1 = Some k2 \<Longrightarrow> calm k k2" for k :: "'a ipc_scheme"
  using calm_trans calm_mem step_uwrite by blast

lemma calm_uwrite_in: "uwrite_in r va bs k = Some k' \<Longrightarrow> calm k k'" for k :: "'a ipc_scheme"
proof -
  assume "uwrite_in r va bs k = Some k'"
  then obtain k2 where k2: "uwrite va bs (k\<lparr>cr3 := r\<rparr>) = Some k2" "k' = k2\<lparr>cr3 := cr3 k\<rparr>" by (auto simp: uwrite_in_def)
  have "calm k (k\<lparr>cr3 := r\<rparr>)" using calm_fields(3) [OF calm_refl] .
  then have "calm k k2" using k2(1) by (rule calm_uwrite)
  then show ?thesis unfolding k2(2) by (rule calm_fields)
qed

lemma calm_put_sched [calm_steps]:
  assumes "calm k k1"
  shows "calm k (put_task c ((task_at k1 c)\<lparr>wait_pipe := w\<rparr>) k1)" "calm k (put_task c ((task_at k1 c)\<lparr>sig_pending := s\<rparr>) k1)"
    "calm k (put_task c ((task_at k1 c)\<lparr>exit_status := i, zombie := z\<rparr>) k1)" "calm k (put_task c ((task_at k1 c)\<lparr>mmap_top := p\<rparr>) k1)"
    "calm k (put_task c ((task_at k1 c)\<lparr>brk_cur := p\<rparr>) k1)" "calm k (put_task c ((task_at k1 c)\<lparr>pgid := i\<rparr>) k1)"
    "calm k (put_task c ((task_at k1 c)\<lparr>sid := i, pgid := j\<rparr>) k1)"
    "calm k (put_task c ((task_at k1 c)\<lparr>sig_handler := (sig_handler (task_at k1 c))[n := h]\<rparr>) k1)"
  by (rule calm_trans [OF assms calm_put]; simp add: core_def)+

text \<open>A task that is in use goes to sleep.\<close>

lemma calm_block:
  assumes "calm k k1" "sane k \<Longrightarrow> state (task_at k1 c) \<noteq> TASK_FREE"
  shows "calm k (put_task c ((task_at k1 c)\<lparr>state := TASK_BLOCKED\<rparr>) k1)" "calm k (put_task c ((task_at k1 c)\<lparr>wait_pipe := w, state := TASK_BLOCKED\<rparr>) k1)"
proof -
  have "calm k1 (put_task c ((task_at k1 c)\<lparr>state := TASK_BLOCKED\<rparr>) k1)" "calm k1 (put_task c ((task_at k1 c)\<lparr>wait_pipe := w, state := TASK_BLOCKED\<rparr>) k1)" if "sane k"
    using assms(2) [OF that] by (intro calm_put; simp add: core_def)+
  then show "calm k (put_task c ((task_at k1 c)\<lparr>state := TASK_BLOCKED\<rparr>) k1)" "calm k (put_task c ((task_at k1 c)\<lparr>wait_pipe := w, state := TASK_BLOCKED\<rparr>) k1)"
    using assms(1) calm_trans unfolding calm_def by blast+
qed

text \<open>An entry that only moves in its file.\<close>

lemma calm_fds:
  assumes "calm k k1" "(f_pipe f, f_flags f) = (f_pipe (fds (task_at k1 c) ! n), f_flags (fds (task_at k1 c) ! n))"
  shows "calm k (put_task c ((task_at k1 c)\<lparr>fds := (fds (task_at k1 c))[n := f]\<rparr>) k1)"
proof (rule calm_trans [OF assms(1) calm_put])
  have "map (\<lambda>f. (f_pipe f, f_flags f)) ((fds (task_at k1 c))[n := f]) = map (\<lambda>f. (f_pipe f, f_flags f)) (fds (task_at k1 c))"
    using assms(2) by (simp add: map_update) (metis (no_types, lifting) list_update_id list_update_beyond length_map not_le nth_map)
  then show "core ((task_at k1 c)\<lparr>fds := (fds (task_at k1 c))[n := f]\<rparr>) = core (task_at k1 c)" by (simp add: core_def)
qed simp

end
