(* ===== verification/Fdtab.thy ===== *)
theory Fdtab
  imports Taskview
begin

text \<open>
  File descriptors, \<open>kernel/src/sys/syscall.c\<close>: the table of a task, references to pipes held by its entries, and the calls \<open>open\<close>,
  \<open>close\<close>, \<open>read\<close>, \<open>write\<close>, \<open>pipe\<close>, \<open>dup\<close> and \<open>dup2\<close>.
\<close>

subsection \<open>Entries\<close>

definition fd_unused :: "file_t \<Rightarrow> bool" where
  "fd_unused f \<longleftrightarrow> f_node f = 0 \<and> f_pipe f = 0 \<and> f_flags f = 0"

definition fd_get :: "task \<Rightarrow> int \<Rightarrow> file_t option" where
  "fd_get t fd =
     (if fd < 0 \<or> fd \<ge> int MAX_FDS then None
      else let f = fds t ! nat fd in if fd_unused f then None else Some f)"

definition fd_alloc :: "task \<Rightarrow> nat option" where
  "fd_alloc t = find (\<lambda>fd. fd_unused (fds t ! fd)) [0 ..< MAX_FDS]"

definition set_fd :: "nat \<Rightarrow> nat \<Rightarrow> file_t \<Rightarrow> 'a sched_scheme \<Rightarrow> 'a sched_scheme" where
  "set_fd c fd f k = put_task c ((task_at k c)\<lparr>fds := (fds (task_at k c))[fd := f]\<rparr>) k"

definition rd_end :: "file_t \<Rightarrow> int" where
  "rd_end f = (if f_flags f AND FDF_PIPE_RD \<noteq> 0 then 1 else 0)"

definition wr_end :: "file_t \<Rightarrow> int" where
  "wr_end f = (if f_flags f AND FDF_PIPE_WR \<noteq> 0 then 1 else 0)"

definition drop_ref :: "file_t \<Rightarrow> 'a ipc_scheme \<Rightarrow> 'a ipc_scheme" where
  "drop_ref f k = (if f_pipe f \<noteq> 0 then pipe_unref (f_pipe f) (rd_end f) (wr_end f) k else k)"

definition add_ref :: "file_t \<Rightarrow> 'a ipc_scheme \<Rightarrow> 'a ipc_scheme" where
  "add_ref f k = (if f_pipe f \<noteq> 0 then pipe_ref (f_pipe f) (rd_end f) (wr_end f) k else k)"

definition fd_put :: "nat \<Rightarrow> nat \<Rightarrow> 'a ipc_scheme \<Rightarrow> 'a ipc_scheme" where
  "fd_put c fd k = set_fd c fd zero_file (drop_ref (fds (task_at k c) ! fd) k)"

definition fds_release :: "nat \<Rightarrow> 'a ipc_scheme \<Rightarrow> 'a ipc_scheme" where
  "fds_release c k = fold (\<lambda>fd k. set_fd c fd zero_file (drop_ref (fds (task_at k c) ! fd) k)) [0 ..< MAX_FDS] k"

subsection \<open>\<open>close\<close>, \<open>dup\<close>, \<open>pipe\<close>\<close>

text \<open>The calls read the caller from \<open>sched_get_current\<close>; those that do not check it fault without one.\<close>

definition sys_close :: "u64 \<Rightarrow> 'a ipc_scheme \<Rightarrow> outcome \<times> 'a ipc_scheme" where
  "sys_close fd k =
     (case sched_get_current k of
        None \<Rightarrow> (Fault, k)
      | Some c \<Rightarrow> if fd_get (task_at k c) (to_int fd) = None then (ret (-1), k) else (ret 0, fd_put c (nat (to_int fd)) k))"

definition do_dup2 :: "nat \<Rightarrow> int \<Rightarrow> int \<Rightarrow> 'a ipc_scheme \<Rightarrow> outcome \<times> 'a ipc_scheme" where
  "do_dup2 c oldfd newfd k =
     (if fd_get (task_at k c) oldfd = None then (ret (-1), k)
      else if newfd < 0 \<or> newfd \<ge> int MAX_FDS then (ret (-1), k)
      else if oldfd = newfd then (ret newfd, k)
      else let k = (if fd_get (task_at k c) newfd \<noteq> None then fd_put c (nat newfd) k else k);
               f = fds (task_at k c) ! nat oldfd
           in (ret newfd, add_ref f (set_fd c (nat newfd) f k)))"

definition sys_dup :: "u64 \<Rightarrow> 'a ipc_scheme \<Rightarrow> outcome \<times> 'a ipc_scheme" where
  "sys_dup fd k =
     (case sched_get_current k of
        None \<Rightarrow> (Fault, k)
      | Some c \<Rightarrow>
          if fd_get (task_at k c) (to_int fd) = None then (ret (-1), k)
          else case fd_alloc (task_at k c) of
                 None \<Rightarrow> (ret (-1), k)
               | Some newfd \<Rightarrow> do_dup2 c (to_int fd) (int newfd) k)"

definition sys_dup2 :: "u64 \<Rightarrow> u64 \<Rightarrow> 'a ipc_scheme \<Rightarrow> outcome \<times> 'a ipc_scheme" where
  "sys_dup2 oldfd newfd k =
     (case sched_get_current k of None \<Rightarrow> (Fault, k) | Some c \<Rightarrow> do_dup2 c (to_int oldfd) (to_int newfd) k)"

text \<open>The state when the numbers cannot be stored is the one at the fault.\<close>

definition sys_pipe :: "u64 \<Rightarrow> u64 \<Rightarrow> 'a ipc_scheme \<Rightarrow> outcome \<times> 'a ipc_scheme" where
  "sys_pipe ptr ufds k =
     (case sched_get_current k of
        None \<Rightarrow> (Fault, k)
      | Some c \<Rightarrow>
          let (p, k) = pipe_create ptr k
          in if p = 0 then (ret (-1), k)
             else case fd_alloc (task_at k c) of
                    None \<Rightarrow> (ret (-1), pipe_unref p 1 1 k)
                  | Some rd \<Rightarrow>
                      let k = set_fd c rd (zero_file\<lparr>f_pipe := p\<rparr>) k
                      in case fd_alloc (task_at k c) of
                           None \<Rightarrow> (ret (-1), pipe_unref p 1 1 (set_fd c rd zero_file k))
                         | Some wr \<Rightarrow>
                             let k = set_fd c wr zero_file k;
                                 k = set_fd c rd ((fds (task_at k c) ! rd)\<lparr>f_flags := FDF_PIPE_RD\<rparr>) k;
                                 k = set_fd c wr (zero_file\<lparr>f_pipe := p, f_flags := FDF_PIPE_WR\<rparr>) k
                             in case uwrite ufds (u32_bytes (of_nat rd) @ u32_bytes (of_nat wr)) k of
                                  None \<Rightarrow> (Fault, k)
                                | Some k \<Rightarrow> (ret 0, k))"

subsection \<open>\<open>open\<close>\<close>

abbreviation O_APPEND :: u64 where "O_APPEND \<equiv> 1"
abbreviation O_CREATE :: u64 where "O_CREATE \<equiv> 2"

definition sys_open :: "u64 \<Rightarrow> u64 \<Rightarrow> 'a kdev_scheme \<Rightarrow> outcome \<times> 'a kdev_scheme" where
  "sys_open path_ptr flags k =
     (case sched_get_current k of
        None \<Rightarrow> (ret (-1), k)
      | Some c \<Rightarrow>
          if path_ptr = 0 then (ret (-1), k)
          else case ustring k path_ptr of
                 None \<Rightarrow> (Fault, k)
               | Some path \<Rightarrow>
                   let (node, v) = vfs_resolve (\<lambda>i. sched_find_pid k i \<noteq> None) path (fsys k);
                       (node, v) = (if (node = 0 \<or> vtype (node_at v node) \<noteq> VFS_FILE) \<and> flags AND O_CREATE \<noteq> 0
                                    then vfs_create_file path v else (node, v));
                       k = k\<lparr>fsys := v\<rparr>; n = node_at v node
                   in if node = 0 then (ret (-1), k)
                      else if vtype n \<noteq> VFS_FILE \<and> vtype n \<noteq> VFS_CHARDEV \<and> vtype n \<noteq> VFS_PROCFS then (ret (-1), k)
                      else case fd_alloc (task_at k c) of
                             None \<Rightarrow> (ret (-1), k)
                           | Some fd \<Rightarrow>
                               (ret (int fd), set_fd c fd (zero_file\<lparr>f_node := node,
                                  f_pos := if flags AND O_APPEND \<noteq> 0 then of_nat (length (vdata n)) else 0\<rparr>) k))"

subsection \<open>\<open>read\<close>\<close>

text \<open>
  Storing what a read has produced into the buffer of the caller, whose address space is \<open>r\<close>: \<open>got\<close> bytes are there from earlier
  passes.
\<close>

definition give :: "u64 \<Rightarrow> u64 \<Rightarrow> nat \<Rightarrow> u8 list \<Rightarrow> outcome \<Rightarrow> 'a sched_scheme \<Rightarrow> outcome \<times> 'a sched_scheme" where
  "give r buf got bs res k =
     (case uwrite_in r (buf + of_nat got) (drop got bs) k of None \<Rightarrow> (Fault, k) | Some k \<Rightarrow> (res, k))"

definition file_read :: "nat \<Rightarrow> nat \<Rightarrow> file_t \<Rightarrow> u64 \<Rightarrow> u64 \<Rightarrow> 'a kdev_scheme \<Rightarrow> outcome \<times> 'a kdev_scheme" where
  "file_read c fd f buf count k =
     (let (r, bs) = vfs_read (procfs_read k) (f_node f) (unat count) (unat (f_pos f)) (fsys k)
      in case uwrite buf bs k of
           None \<Rightarrow> (Fault, k)
         | Some k \<Rightarrow> (ret r, if r > 0 then set_fd c fd (f\<lparr>f_pos := f_pos f + of_int r\<rparr>) k else k))"

text \<open>
  The keyboard of a console descriptor: the loop is that of \<open>console_read\<close>, except that the count is not cut to an \<open>int\<close>.
\<close>

function console_in :: "u64 \<Rightarrow> nat \<Rightarrow> u8 list \<Rightarrow> 'a kdev_scheme \<Rightarrow> outcome \<times> u8 list \<times> 'a kdev_scheme" where
  "console_in sp count got k =
     (if length got \<ge> count then (ret (int (length got)), got, k)
      else case kbd_getchar sp k of
             (IO_Parked _, k) \<Rightarrow> (Parked (Got got), got, k)
           | (IO_Ret c _, k) \<Rightarrow>
               if c < 0 then (if got = [] then ret (-1) else ret (int (length got)), got, k)
               else let ch = char_of (nat c); k = k\<lparr>con := tty_putc ch (con k)\<rparr>; got = got @ [of_char ch]
                    in if ch = nl then (ret (int (length got)), got, k) else console_in sp count got k)"
  by pat_completeness auto
termination
  by (relation "measure (\<lambda>(sp, count, got, k). count - length got)") auto

declare console_in.simps [simp del]

definition of_io :: "cont \<Rightarrow> io \<Rightarrow> outcome" where
  "of_io c r = (case r of IO_Ret n _ \<Rightarrow> ret n | IO_Parked _ \<Rightarrow> Parked c)"

definition sys_read_from :: "u64 \<Rightarrow> u8 list \<Rightarrow> u64 \<Rightarrow> u64 \<Rightarrow> u64 \<Rightarrow> 'a kdev_scheme \<Rightarrow> outcome \<times> 'a kdev_scheme" where
  "sys_read_from sp got fd buf count k =
     (case sched_get_current k of
        None \<Rightarrow> (Fault, k)
      | Some c \<Rightarrow>
          case fd_get (task_at k c) (to_int fd) of
            None \<Rightarrow> (ret (-1), k)
          | Some f \<Rightarrow>
              let r = cr3 k; n = node_at (fsys k) (f_node f)
              in if buf = 0 \<or> count = 0 then (ret (-1), k)
                 else if f_node f \<noteq> 0 \<and> vtype n = VFS_CHARDEV
                 then case vdev n of
                        None \<Rightarrow> (ret (-1), k)
                      | Some cd \<Rightarrow> let (res, bs, k) = dev_read sp cd (unat count) got k in give r buf (length got) bs (of_io (Got bs) res) k
                 else if f_node f \<noteq> 0 \<and> vtype n = VFS_PROCFS then file_read c (nat (to_int fd)) f buf count k
                 else if f_flags f AND FDF_PIPE_RD \<noteq> 0
                 then case pipe_read sp (f_pipe f) (unat count) c k of
                        (IO_Ret m bs, k) \<Rightarrow> give r buf 0 bs (ret m) k
                      | (IO_Parked _, k) \<Rightarrow> (Parked Again, k)
                 else if f_flags f AND FDF_CONSOLE_IN \<noteq> 0
                 then let (res, bs, k) = console_in sp (unat count) got k in give r buf (length got) bs res k
                 else if f_node f = 0 then (ret (-1), k)
                 else file_read c (nat (to_int fd)) f buf count k)"

definition sys_read :: "u64 \<Rightarrow> u64 \<Rightarrow> u64 \<Rightarrow> u64 \<Rightarrow> 'a kdev_scheme \<Rightarrow> outcome \<times> 'a kdev_scheme" where
  "sys_read sp fd buf count k = sys_read_from sp [] fd buf count k"

text \<open>
  The caller is scheduled again: a pipe clears \<open>wait_pipe\<close> before its loop goes on.  The descriptor is looked up again; no other
  task changes it.
\<close>

definition resume_read :: "u64 \<Rightarrow> cont \<Rightarrow> u64 \<Rightarrow> u64 \<Rightarrow> u64 \<Rightarrow> 'a kdev_scheme \<Rightarrow> outcome \<times> 'a kdev_scheme" where
  "resume_read sp ct fd buf count k =
     (case (ct, sched_get_current k) of
        (Again, Some c) \<Rightarrow> sys_read_from sp [] fd buf count (pipe_resume c k)
      | (Got got, _) \<Rightarrow> sys_read_from sp got fd buf count k
      | _ \<Rightarrow> (Fault, k))"

subsection \<open>\<open>write\<close>\<close>

definition chardev_name :: "chardev \<Rightarrow> string" where
  "chardev_name d = (case d of Dev_console \<Rightarrow> ''console'' | Dev_null \<Rightarrow> ''null'' | Dev_zero \<Rightarrow> ''zero'' | Dev_random \<Rightarrow> ''random''
     | Dev_net \<Rightarrow> ''net'' | Dev_audio \<Rightarrow> ''audio'')"

text \<open>Whether a device looks at the buffer; then every byte of it has to be mapped.\<close>

definition dev_takes :: "chardev \<Rightarrow> 'a kdev_scheme \<Rightarrow> bool" where
  "dev_takes d k =
     (case d of
        Dev_console \<Rightarrow> True
      | Dev_net \<Rightarrow> inited (netdev k) \<and> nic_present (card k) \<and> \<not> (cmd (netdev k) \<noteq> CMD_NONE \<and> result_state (netdev k) = RES_PENDING)
      | Dev_audio \<Rightarrow> sb16_present (sb k) \<and> \<not> sb16_busy (sb k)
      | _ \<Rightarrow> False)"

definition sys_write_from :: "u64 \<Rightarrow> nat \<Rightarrow> u64 \<Rightarrow> u64 \<Rightarrow> u64 \<Rightarrow> 'a kernel_scheme \<Rightarrow> outcome \<times> 'a kernel_scheme" where
  "sys_write_from sp don fd buf count k =
     (case sched_get_current k of
        None \<Rightarrow> (Fault, k)
      | Some c \<Rightarrow>
          case fd_get (task_at k c) (to_int fd) of
            None \<Rightarrow> (ret (-1), k)
          | Some f \<Rightarrow>
              let n = node_at (fsys k) (f_node f); bs = ubytes k buf (unat count); can = ureadable k buf; me = VA_num (of_int (pid (task_at k c)))
              in if buf = 0 \<or> count = 0 then (ret (-1), k)
                 else if f_node f \<noteq> 0 \<and> vtype n = VFS_CHARDEV
                 then case vdev n of
                        None \<Rightarrow> (ret (-1), k)
                      | Some cd \<Rightarrow>
                          if dev_takes cd k \<and> \<not> can (unat count) then (Fault, k)
                          else let k = (if count > 256
                                        then klogf (''[WRITE] chardev '' @ [CHR 0x27] @ ''%s'' @ [CHR 0x27] @ '' pid=%d count=%u'' @ [nl])
                                               [VA_str (Some (chardev_name cd)), me, VA_num count] k
                                        else k);
                                   (res, k) = dev_write cd bs k
                               in (case res of IO_Ret m _ \<Rightarrow> ret m | IO_Parked _ \<Rightarrow> Spin, k)
                 else if f_flags f AND FDF_PIPE_WR \<noteq> 0
                 then case pipe_write_from sp (f_pipe f) bs don c k of
                        (IO_Ret m _, k') \<Rightarrow> if can (nat m) then (ret m, k') else (Fault, k)
                      | (IO_Parked m, k') \<Rightarrow> if can m then (Parked (From m), k') else (Fault, k)
                 else if f_flags f AND FDF_CONSOLE_OUT \<noteq> 0
                 then if \<not> can (unat count) then (Fault, k)
                      else let k = (if count > 4096 then klogf (''[WRITE] BIG console write pid=%d count=%u'' @ [nl]) [me, VA_num count] k else k)
                           in (Ret count, k\<lparr>con := tty_write (map (\<lambda>b. char_of (unat b)) bs) (con k)\<rparr>)
                 else if f_node f = 0 then (ret (-1), k)
                 else let (r, v) = vfs_write (f_node f) bs (unat (f_pos f)) (fsys k)
                      in if r \<noteq> -1 \<and> \<not> can (unat count) then (Fault, k)
                         else let k = k\<lparr>fsys := v\<rparr>
                              in (ret r, if r > 0 then set_fd c (nat (to_int fd)) (f\<lparr>f_pos := f_pos f + of_int r\<rparr>) k else k))"

definition sys_write :: "u64 \<Rightarrow> u64 \<Rightarrow> u64 \<Rightarrow> u64 \<Rightarrow> 'a kernel_scheme \<Rightarrow> outcome \<times> 'a kernel_scheme" where
  "sys_write sp fd buf count k = sys_write_from sp 0 fd buf count k"

definition resume_write :: "u64 \<Rightarrow> cont \<Rightarrow> u64 \<Rightarrow> u64 \<Rightarrow> u64 \<Rightarrow> 'a kernel_scheme \<Rightarrow> outcome \<times> 'a kernel_scheme" where
  "resume_write sp ct fd buf count k =
     (case (ct, sched_get_current k) of
        (From don, Some c) \<Rightarrow> sys_write_from sp don fd buf count (pipe_resume c k)
      | _ \<Rightarrow> (Fault, k))"

subsection \<open>The invariant of the tables\<close>

text \<open>The number of ends of a pipe that descriptors of a task, and of all tasks, hold.\<close>

definition held :: "(file_t \<Rightarrow> int) \<Rightarrow> u64 \<Rightarrow> task \<Rightarrow> int" where
  "held e p t = (\<Sum>f \<leftarrow> fds t. if f_pipe f = p then e f else 0)"

definition ends :: "(file_t \<Rightarrow> int) \<Rightarrow> 'a sched_scheme \<Rightarrow> u64 \<Rightarrow> int" where
  "ends e k p = (\<Sum>t \<leftarrow> tasks k. held e p t)"

text \<open>A descriptor of a pipe is one of its ends; no other descriptor has a flag of a pipe.\<close>

definition entry_ok :: "file_t \<Rightarrow> bool" where
  "entry_ok f \<longleftrightarrow> rd_end f + wr_end f = (if f_pipe f = 0 then 0 else 1)"

definition task_ok :: "int \<Rightarrow> task \<Rightarrow> bool" where
  "task_ok np t \<longleftrightarrow> length (fds t) = MAX_FDS \<and> length (sig_handler t) = NSIG \<and> (\<forall>f \<in> set (fds t). entry_ok f) \<and>
     (state t = TASK_FREE \<longrightarrow> (\<forall>f \<in> set (fds t). f_pipe f = 0)) \<and>
     (state t \<noteq> TASK_FREE \<longrightarrow> 0 \<le> pid t \<and> pid t < np \<and> (pid t \<noteq> 0 \<longrightarrow> parent_pid t < pid t))"

definition table_ok :: "'a sched_scheme \<Rightarrow> bool" where
  "table_ok k \<longleftrightarrow> sane k \<and> 0 < next_pid k \<and> (\<forall>t \<in> set (tasks k). task_ok (next_pid k) t) \<and>
     (\<forall>i < MAX_TASKS. \<forall>j < MAX_TASKS. state (task_at k i) \<noteq> TASK_FREE \<longrightarrow> state (task_at k j) \<noteq> TASK_FREE \<longrightarrow> pid (task_at k i) = pid (task_at k j) \<longrightarrow> i = j) \<and>
     length (console_fds k) = 3 \<and> (\<forall>f. Some f \<in> set (console_fds k) \<longrightarrow> f_pipe f = 0 \<and> entry_ok f)"

text \<open>
  A pipe exists as long as a descriptor refers to it, and its counts are the numbers of descriptors of its ends.
\<close>

definition refs_ok :: "'a ipc_scheme \<Rightarrow> bool" where
  "refs_ok k \<longleftrightarrow> pipe_counts k 0 = None \<and> (\<forall>p. p \<noteq> 0 \<longrightarrow> pipe_counts k p =
     (if ends rd_end k p + ends wr_end k p = 0 then None else Some (ends rd_end k p, ends wr_end k p)))"

lemma map_eq_cong:
  assumes "map f xs = map f ys" "\<And>x y. f x = f y \<Longrightarrow> g x = g y"
  shows "map g xs = map g ys"
proof (rule nth_equalityI)
  have l: "length xs = length ys" using assms(1) by (rule map_eq_imp_length_eq)
  then show "length (map g xs) = length (map g ys)" by simp
  fix i assume "i < length (map g xs)"
  then have i: "i < length xs" "i < length ys" using l by simp_all
  then have "f (xs ! i) = f (ys ! i)" using arg_cong [OF assms(1), of "\<lambda>zs. zs ! i"] by simp
  then have "g (xs ! i) = g (ys ! i)" by (rule assms(2))
  then show "map g xs ! i = map g ys ! i" using i by simp
qed

lemma ball_map_cong: "map P xs = map P ys \<Longrightarrow> (\<forall>x \<in> set xs. P x) = (\<forall>y \<in> set ys. P y)"
proof -
  assume m: "map P xs = map P ys"
  have "(\<forall>x \<in> set zs. P x) = (\<forall>b \<in> set (map P zs). b)" for zs by simp
  then show ?thesis unfolding m by (simp only: m)
qed

lemma all_core_cong:
  assumes "map core ts = map core ts'" "\<And>t t'. core t = core t' \<Longrightarrow> P t = P t'"
  shows "(\<forall>t \<in> set ts. P t) = (\<forall>t \<in> set ts'. P t)"
  by (rule ball_map_cong [OF map_eq_cong [OF assms]])

lemma core_entries: "core t = core t' \<Longrightarrow> map (\<lambda>f. (f_pipe f, f_flags f)) (fds t) = map (\<lambda>f. (f_pipe f, f_flags f)) (fds t')"
  by (simp add: core_def)

lemma core_held: "core t = core t' \<Longrightarrow> e \<in> {rd_end, wr_end} \<Longrightarrow> held e p t = held e p t'"
proof -
  assume t: "core t = core t'" and e: "e \<in> {rd_end, wr_end}"
  have "map (\<lambda>f. if f_pipe f = p then e f else 0) (fds t) = map (\<lambda>f. if f_pipe f = p then e f else 0) (fds t')"
    by (rule map_eq_cong [OF core_entries [OF t]]) (use e in \<open>auto simp: rd_end_def wr_end_def\<close>)
  then show ?thesis by (simp add: held_def)
qed

lemma core_task_ok: "core t = core t' \<Longrightarrow> task_ok np t = task_ok np t'"
proof -
  assume c: "core t = core t'"
  have m: "map entry_ok (fds t) = map entry_ok (fds t')" "map (\<lambda>f. f_pipe f = 0) (fds t) = map (\<lambda>f. f_pipe f = 0) (fds t')"
    by (rule map_eq_cong [OF core_entries [OF c]]; simp add: entry_ok_def rd_end_def wr_end_def)+
  note b = ball_map_cong [OF m(1)] ball_map_cong [OF m(2)]
  have "length (fds t) = length (fds t')" using m(1) by (rule map_eq_imp_length_eq)
  then show ?thesis using c unfolding task_ok_def b by (simp add: core_def)
qed

lemma table_okD:
  assumes "table_ok k"
  shows "sane k" "sched_inv k" "length (tasks k) = MAX_TASKS" "current k = Some c \<Longrightarrow> c < MAX_TASKS" "i < MAX_TASKS \<Longrightarrow> task_ok (next_pid k) (task_at k i)"
proof -
  show s: "sane k" "sched_inv k" using assms by (simp_all add: table_ok_def sane_def)
  then show l: "length (tasks k) = MAX_TASKS" "current k = Some c \<Longrightarrow> c < MAX_TASKS" using sched_inv_len sched_inv_cur by blast+
  then show "i < MAX_TASKS \<Longrightarrow> task_ok (next_pid k) (task_at k i)" using assms by (simp add: table_ok_def task_at_def)
qed

lemma same_core_table:
  assumes "table_ok k" "sane k'" "map core (tasks k') = map core (tasks k)" "next_pid k' = next_pid k" "console_fds k' = console_fds k"
  shows "table_ok k'"
proof -
  have l: "length (tasks k') = length (tasks k)" using assms(3) by (metis length_map)
  then have "core (task_at k' i) = core (task_at k i)" for i using assms(3) by (auto simp: task_at_def) (metis nth_map)
  then have c: "(state (task_at k' i) = TASK_FREE) = (state (task_at k i) = TASK_FREE)" "pid (task_at k' i) = pid (task_at k i)" for i
    by (simp_all add: core_def)
  have "(\<forall>t \<in> set (tasks k'). task_ok (next_pid k) t) = (\<forall>t \<in> set (tasks k). task_ok (next_pid k) t)"
    by (rule all_core_cong [OF assms(3) core_task_ok])
  then show ?thesis using assms(1,2) unfolding table_ok_def assms(4,5) c by blast
qed

lemma same_core_ends:
  assumes "map core (tasks k') = map core (tasks k)" "e \<in> {rd_end, wr_end}"
  shows "ends e k' p = ends e k p"
  unfolding ends_def using map_eq_cong [OF assms(1), of "held e p"] core_held [OF _ assms(2)] by metis

lemma same_core_refs:
  assumes "map core (tasks k') = map core (tasks k)" "pipe_counts k' = pipe_counts k" "refs_ok k"
  shows "refs_ok k'"
proof -
  have "ends rd_end k' p = ends rd_end k p" "ends wr_end k' p = ends wr_end k p" for p by (rule same_core_ends [OF assms(1)], simp)+
  then show ?thesis using assms(3) unfolding refs_ok_def assms(2) by simp
qed

lemma calm_ok: "calm k k' \<Longrightarrow> table_ok k \<Longrightarrow> table_ok k'" "calm k k' \<Longrightarrow> table_ok k \<Longrightarrow> refs_ok k \<Longrightarrow> refs_ok k'"
proof -
  assume c: "calm k k'" and t: "table_ok k"
  note d = calmD [OF c table_okD(1) [OF t]]
  show "table_ok k'" by (rule same_core_table [OF t d(1,6,4,5)])
  show "refs_ok k \<Longrightarrow> refs_ok k'" by (rule same_core_refs [OF d(6,3)])
qed

subsection \<open>Changing an entry\<close>

lemma sum_list_map_update: "i < length xs \<Longrightarrow> (\<Sum>x \<leftarrow> xs[i := y]. g x) = (\<Sum>x \<leftarrow> xs. g x) - g (xs ! i) + (g y :: int)"
  by (induction xs arbitrary: i) (auto split: nat.split)

abbreviation counted :: "(file_t \<Rightarrow> int) \<Rightarrow> u64 \<Rightarrow> file_t \<Rightarrow> int" where
  "counted e p f \<equiv> if f_pipe f = p then e f else 0"

lemma end_values: "rd_end f \<in> {0, 1}" "wr_end f \<in> {0, 1}" "0 \<le> rd_end f" "0 \<le> wr_end f"
  by (simp_all add: rd_end_def wr_end_def)

lemma held_nonneg: "e \<in> {rd_end, wr_end} \<Longrightarrow> 0 \<le> held e p t" and ends_nonneg: "e \<in> {rd_end, wr_end} \<Longrightarrow> 0 \<le> ends e k p"
proof -
  assume e: "e \<in> {rd_end, wr_end}"
  then show h: "0 \<le> held e p t" for t unfolding held_def by (intro sum_list_nonneg) (auto simp: end_values)
  then show "0 \<le> ends e k p" unfolding ends_def by (intro sum_list_nonneg) auto
qed

lemma ends_put: "c < length (tasks k) \<Longrightarrow> ends e (put_task c t k) p = ends e k p - held e p (task_at k c) + held e p t"
  by (simp add: ends_def put_task_def sum_list_map_update task_at_def)

lemma ends_set_fd:
  assumes "c < length (tasks k)" "fd < length (fds (task_at k c))"
  shows "ends e (set_fd c fd f k) p = ends e k p - counted e p (fds (task_at k c) ! fd) + counted e p f"
  using assms by (simp add: set_fd_def ends_put held_def sum_list_map_update)

lemma ends_ge: "c < length (tasks k) \<Longrightarrow> fd < length (fds (task_at k c)) \<Longrightarrow> e \<in> {rd_end, wr_end} \<Longrightarrow> counted e p (fds (task_at k c) ! fd) \<le> ends e k p"
  using ends_set_fd [of c k fd e zero_file p] ends_nonneg [of e "set_fd c fd zero_file k" p]
  by (auto simp: zero_file_def rd_end_def wr_end_def split: if_splits)

lemma set_fd_sel [simp]:
  "current (set_fd c fd f k) = current k" "length (tasks (set_fd c fd f k)) = length (tasks k)" "next_pid (set_fd c fd f k) = next_pid k"
  "console_fds (set_fd c fd f k) = console_fds k"
  by (simp_all add: set_fd_def)

lemma set_fd_counts [simp]: "pipe_counts (set_fd c fd f k) = pipe_counts k"
  by (rule ext) (simp add: set_fd_def pipe_counts_def)

lemma task_at_set_fd: "c < length (tasks k) \<Longrightarrow> task_at (set_fd c fd f k) i = (if i = c then (task_at k c)\<lparr>fds := (fds (task_at k c))[fd := f]\<rparr> else task_at k i)"
  by (simp add: set_fd_def)

lemma table_put:
  assumes t: "table_ok k" and c: "c < MAX_TASKS" and ok: "task_ok (next_pid k) t" "state t = state (task_at k c)" "pid t = pid (task_at k c)"
  shows "table_ok (put_task c t k)"
proof -
  have st: "state (task_at (put_task c t k) i) = state (task_at k i)" "pid (task_at (put_task c t k) i) = pid (task_at k i)" for i
    using ok(2,3) by simp_all
  have "sane (put_task c t k)" using table_okD(1) [OF t] unfolding sane_def sched_inv_def put_task_sel st .
  moreover have "set (tasks (put_task c t k)) \<subseteq> insert t (set (tasks k))" by (simp add: put_task_def set_update_subset_insert)
  then have "\<forall>x \<in> set (tasks (put_task c t k)). task_ok (next_pid k) x" using t ok(1) unfolding table_ok_def by blast
  ultimately show ?thesis using t unfolding table_ok_def put_task_sel st by simp
qed

lemma table_set_fd:
  assumes t: "table_ok k" and c: "c < MAX_TASKS" and f: "entry_ok f" "state (task_at k c) \<noteq> TASK_FREE \<or> f_pipe f = 0"
  shows "table_ok (set_fd c fd f k)"
proof -
  have "task_ok (next_pid k) (task_at k c)" by (rule table_okD(5) [OF t c])
  moreover have "set ((fds (task_at k c))[fd := f]) \<subseteq> insert f (set (fds (task_at k c)))" by (rule set_update_subset_insert)
  ultimately have "task_ok (next_pid k) ((task_at k c)\<lparr>fds := (fds (task_at k c))[fd := f]\<rparr>)" using f unfolding task_ok_def by auto
  then show ?thesis unfolding set_fd_def by (intro table_put [OF t c]) simp_all
qed

subsection \<open>References\<close>

text \<open>The counts after a reference is dropped or added.\<close>

definition less_ref :: "file_t \<Rightarrow> (u64 \<Rightarrow> (int \<times> int) option) \<Rightarrow> u64 \<Rightarrow> (int \<times> int) option" where
  "less_ref f m p =
     (if f_pipe f = 0 \<or> p \<noteq> f_pipe f then m p
      else case m p of
             None \<Rightarrow> None
           | Some (r, w) \<Rightarrow> if r - rd_end f \<le> 0 \<and> w - wr_end f \<le> 0 then None else Some (r - rd_end f, w - wr_end f))"

definition more_ref :: "file_t \<Rightarrow> (u64 \<Rightarrow> (int \<times> int) option) \<Rightarrow> u64 \<Rightarrow> (int \<times> int) option" where
  "more_ref f m p = (if f_pipe f = 0 then m p else map_option (\<lambda>(r, w). (r + counted rd_end p f, w + counted wr_end p f)) (m p))"

lemma unref_facts:
  fixes r w :: int and q :: u64
  assumes "sane k" "p \<noteq> 0"
  defines "k' \<equiv> pipe_unref p r w k"
  shows "sane k'" "map core (tasks k') = map core (tasks k)" "next_pid k' = next_pid k" "console_fds k' = console_fds k" "current k' = current k"
    "pipe_counts k' q = (if q \<noteq> p then pipe_counts k q else case pipe_counts k p of None \<Rightarrow> None
       | Some (a, b) \<Rightarrow> if a - r \<le> 0 \<and> b - w \<le> 0 then None else Some (a - r, b - w))"
proof -
  define k1 where "k1 = k\<lparr>pipes := (pipes k)(p := map_option (\<lambda>x. x\<lparr>readers := readers x - r, writers := writers x - w\<rparr>) (pipes k p))\<rparr>"
  have same: "tasks k1 = tasks k" "current k1 = current k" "next_pid k1 = next_pid k" "console_fds k1 = console_fds k" by (simp_all add: k1_def)
  have s1: "sane k1" using assms(1) unfolding sane_def sched_inv_def task_at_def same .
  note c = calmD [OF calm_pipe_wake s1, of p]
  define k2 where "k2 = pipe_wake p k1"
  obtain P where P: "k' = k2\<lparr>pipes := P\<rparr>" "P = (case pipes k2 p of None \<Rightarrow> pipes k2
      | Some x \<Rightarrow> if readers x \<le> 0 \<and> writers x \<le> 0 then (pipes k2)(p := None) else pipes k2)"
    using assms(2) by (auto simp: k'_def pipe_unref_def Let_def k1_def k2_def split: option.splits)
  have same2: "tasks k' = tasks k2" "current k' = current k2" "next_pid k' = next_pid k2" "console_fds k' = console_fds k2" by (simp_all add: P(1))
  show "sane k'" using c(1) unfolding k2_def [symmetric] sane_def sched_inv_def task_at_def same2 .
  show "map core (tasks k') = map core (tasks k)" "next_pid k' = next_pid k" "console_fds k' = console_fds k" "current k' = current k"
    using c(4-6) unfolding same2 by (simp_all add: k2_def same)
  show "pipe_counts k' q = (if q \<noteq> p then pipe_counts k q else case pipe_counts k p of None \<Rightarrow> None
       | Some (a, b) \<Rightarrow> if a - r \<le> 0 \<and> b - w \<le> 0 then None else Some (a - r, b - w))"
    by (auto simp: pipe_counts_def P k2_def k1_def split: option.split)
qed

lemma drop_ref_facts:
  assumes "table_ok k"
  shows "table_ok (drop_ref f k)" "map core (tasks (drop_ref f k)) = map core (tasks k)" "current (drop_ref f k) = current k"
    "pipe_counts (drop_ref f k) = less_ref f (pipe_counts k)"
proof -
  have "table_ok (drop_ref f k) \<and> map core (tasks (drop_ref f k)) = map core (tasks k) \<and> current (drop_ref f k) = current k \<and>
    pipe_counts (drop_ref f k) = less_ref f (pipe_counts k)"
  proof (cases "f_pipe f = 0")
    case False
    note u = unref_facts [OF table_okD(1) [OF assms] False, of "rd_end f" "wr_end f"]
    show ?thesis using same_core_table [OF assms u(1-4)] u(2,5,6) False by (auto simp: drop_ref_def less_ref_def fun_eq_iff)
  qed (use assms in \<open>simp add: drop_ref_def less_ref_def fun_eq_iff\<close>)
  then show "table_ok (drop_ref f k)" "map core (tasks (drop_ref f k)) = map core (tasks k)" "current (drop_ref f k) = current k"
    "pipe_counts (drop_ref f k) = less_ref f (pipe_counts k)" by blast+
qed

lemma add_ref_sel [simp]:
  "tasks (add_ref f k) = tasks k" "current (add_ref f k) = current k" "next_pid (add_ref f k) = next_pid k" "console_fds (add_ref f k) = console_fds k"
  by (simp_all add: add_ref_def pipe_ref_def)

lemma add_ref_counts: "pipe_counts (add_ref f k) = more_ref f (pipe_counts k)"
  by (rule ext) (auto simp: add_ref_def pipe_ref_def pipe_counts_def more_ref_def option.map_comp comp_def map_option_case split: option.split)

lemma same_tasks_table:
  assumes "tasks k' = tasks k" "current k' = current k" "next_pid k' = next_pid k" "console_fds k' = console_fds k" "table_ok k"
  shows "table_ok k'"
  using assms(5) unfolding table_ok_def sane_def sched_inv_def task_at_def assms(1-4) .

subsection \<open>The calls keep the invariant\<close>

lemma fd_put_ok:
  assumes t: "table_ok k" and r: "refs_ok k" and c: "c < MAX_TASKS" and fd: "fd < MAX_FDS"
  shows "table_ok (fd_put c fd k)" "refs_ok (fd_put c fd k)"
proof -
  let ?f = "fds (task_at k c) ! fd"
  note d = drop_ref_facts [OF t, of ?f]
  have k: "c < length (tasks k)" "fd < length (fds (task_at k c))" "entry_ok ?f"
    using table_okD(3) [OF t] table_okD(5) [OF t c] c fd by (auto simp: task_ok_def)
  have l: "length (tasks (drop_ref ?f k)) = length (tasks k)" using d(2) by (rule map_eq_imp_length_eq)
  have "core (task_at (drop_ref ?f k) c) = core (task_at k c)" using d(2) k(1) l by (auto simp: task_at_def) (metis nth_map)
  then have e: "map (\<lambda>f. (f_pipe f, f_flags f)) (fds (task_at (drop_ref ?f k) c)) = map (\<lambda>f. (f_pipe f, f_flags f)) (fds (task_at k c))" by (rule core_entries)
  then have l': "fd < length (fds (task_at (drop_ref ?f k) c))" using k(2) map_eq_imp_length_eq [OF e] by simp
  define g where "g = fds (task_at (drop_ref ?f k) c) ! fd"
  have "f_pipe g = f_pipe ?f" "f_flags g = f_flags ?f"
    using arg_cong [OF e, of "\<lambda>xs. xs ! fd"] k(2) l' by (simp_all add: g_def)
  then have same: "counted rd_end p g = counted rd_end p ?f" "counted wr_end p g = counted wr_end p ?f" for p
    by (simp_all add: rd_end_def wr_end_def)
  show "table_ok (fd_put c fd k)" unfolding fd_put_def by (rule table_set_fd [OF d(1) c]) (simp_all add: entry_ok_def zero_file_def rd_end_def wr_end_def)
  have en: "ends h (fd_put c fd k) p = ends h k p - counted h p ?f" if "h \<in> {rd_end, wr_end}" "p \<noteq> 0" for h p
  proof -
    have "ends h (fd_put c fd k) p = ends h (drop_ref ?f k) p - counted h p g + counted h p zero_file"
      unfolding fd_put_def g_def by (rule ends_set_fd) (use k(1) l l' in simp_all)
    moreover have "counted h p g = counted h p ?f" using that(1) same [of p] by blast
    ultimately show ?thesis using same_core_ends [OF d(2) that(1)] that(2) by (simp add: zero_file_def)
  qed
  have ge: "counted h p ?f \<le> ends h k p" if "h \<in> {rd_end, wr_end}" for h p using ends_ge [OF k(1,2) that] .
  have pc: "pipe_counts (fd_put c fd k) = less_ref ?f (pipe_counts k)" by (simp add: fd_put_def d(4))
  have "pipe_counts (fd_put c fd k) p = (if ends rd_end (fd_put c fd k) p + ends wr_end (fd_put c fd k) p = 0 then None
      else Some (ends rd_end (fd_put c fd k) p, ends wr_end (fd_put c fd k) p))" if p: "p \<noteq> 0" for p
  proof -
    have "pipe_counts k p = (if ends rd_end k p + ends wr_end k p = 0 then None else Some (ends rd_end k p, ends wr_end k p))"
      using r p by (simp add: refs_ok_def)
    then show ?thesis using ge [of rd_end p] ge [of wr_end p] k(3) p end_values [of ?f] unfolding pc
      by (auto simp: less_ref_def en entry_ok_def split: if_splits)
  qed
  moreover have "pipe_counts (fd_put c fd k) 0 = None" using r by (simp add: pc less_ref_def refs_ok_def)
  ultimately show "refs_ok (fd_put c fd k)" unfolding refs_ok_def by blast
qed

lemma fds_release_ok:
  assumes "table_ok k" "refs_ok k" "c < MAX_TASKS"
  shows "table_ok (fds_release c k)" "refs_ok (fds_release c k)"
proof -
  have a: "table_ok (fold (fd_put c) is k) \<and> refs_ok (fold (fd_put c) is k)" if "set is \<subseteq> {..< MAX_FDS}" "table_ok k" "refs_ok k" for "is" and k :: "'a ipc_scheme"
    using that
  proof (induction "is" arbitrary: k)
    case (Cons i "is")
    then show ?case using fd_put_ok [OF Cons.prems(2,3) assms(3), of i] by simp
  qed simp
  have "fds_release c k = fold (fd_put c) [0 ..< MAX_FDS] k" unfolding fds_release_def fd_put_def ..
  moreover have "set [0 ..< MAX_FDS] \<subseteq> {..< MAX_FDS}" unfolding set_upt by auto
  ultimately show "table_ok (fds_release c k)" "refs_ok (fds_release c k)" using a [OF _ assms(1,2)] by simp_all
qed

text \<open>Entering a copy of a descriptor into an unused entry.\<close>

lemma copy_entry_ok:
  assumes t: "table_ok k" and r: "refs_ok k" and c: "c < MAX_TASKS" and fd: "fd < MAX_FDS" and st: "state (task_at k c) \<noteq> TASK_FREE"
    and f: "entry_ok f" "f_pipe f = 0 \<or> pipe_counts k (f_pipe f) \<noteq> None" and free: "f_pipe (fds (task_at k c) ! fd) = 0"
  shows "table_ok (add_ref f (set_fd c fd f k))" "refs_ok (add_ref f (set_fd c fd f k))"
proof -
  have k: "c < length (tasks k)" "fd < length (fds (task_at k c))" using table_okD(3) [OF t] table_okD(5) [OF t c] c fd by (auto simp: task_ok_def)
  show "table_ok (add_ref f (set_fd c fd f k))" by (rule same_tasks_table [OF _ _ _ _ table_set_fd [OF t c f(1)]]) (use st in simp_all)
  have en: "ends h (add_ref f (set_fd c fd f k)) p = ends h k p + counted h p f" if "p \<noteq> 0" for h p
    using ends_set_fd [OF k, of h f p] that free by (simp add: ends_def)
  have pc: "pipe_counts (add_ref f (set_fd c fd f k)) = more_ref f (pipe_counts k)" by (simp add: add_ref_counts)
  have "pipe_counts (add_ref f (set_fd c fd f k)) p = (if ends rd_end (add_ref f (set_fd c fd f k)) p + ends wr_end (add_ref f (set_fd c fd f k)) p = 0 then None
      else Some (ends rd_end (add_ref f (set_fd c fd f k)) p, ends wr_end (add_ref f (set_fd c fd f k)) p))" if p: "p \<noteq> 0" for p
  proof -
    have "pipe_counts k p = (if ends rd_end k p + ends wr_end k p = 0 then None else Some (ends rd_end k p, ends wr_end k p))"
      using r p by (simp add: refs_ok_def)
    then show ?thesis using f p end_values [of f] ends_nonneg [of rd_end k p] ends_nonneg [of wr_end k p] unfolding pc en [OF p]
      by (auto simp: more_ref_def entry_ok_def split: if_splits)
  qed
  moreover have "pipe_counts (add_ref f (set_fd c fd f k)) 0 = None" using r by (simp add: pc more_ref_def refs_ok_def)
  ultimately show "refs_ok (add_ref f (set_fd c fd f k))" unfolding refs_ok_def by blast
qed

text \<open>A descriptor in use refers to a pipe that exists.\<close>

lemma entry_alive:
  assumes t: "table_ok k" and r: "refs_ok k" and c: "c < MAX_TASKS" and fd: "fd < MAX_FDS" and p: "f_pipe (fds (task_at k c) ! fd) \<noteq> 0"
  shows "pipe_counts k (f_pipe (fds (task_at k c) ! fd)) \<noteq> None"
proof -
  let ?f = "fds (task_at k c) ! fd"
  have k: "c < length (tasks k)" "fd < length (fds (task_at k c))" "entry_ok ?f" using table_okD(3) [OF t] table_okD(5) [OF t c] c fd by (auto simp: task_ok_def)
  have "1 \<le> ends rd_end k (f_pipe ?f) + ends wr_end k (f_pipe ?f)"
    using ends_ge [OF k(1,2), of rd_end "f_pipe ?f"] ends_ge [OF k(1,2), of wr_end "f_pipe ?f"] k(3) p by (simp add: entry_ok_def)
  then show ?thesis using r p by (simp add: refs_ok_def)
qed

lemma fd_get_Some: "fd_get t fd = Some f \<Longrightarrow> 0 \<le> fd \<and> fd < int MAX_FDS \<and> nat fd < MAX_FDS \<and> f = fds t ! nat fd \<and> \<not> fd_unused f"
  by (auto simp: fd_get_def Let_def split: if_splits)

lemma fd_get_None: "fd_get t fd = None \<Longrightarrow> 0 \<le> fd \<Longrightarrow> fd < int MAX_FDS \<Longrightarrow> fd_unused (fds t ! nat fd)"
  by (simp add: fd_get_def Let_def split: if_splits)

lemma fd_alloc_Some: "fd_alloc t = Some fd \<Longrightarrow> fd < MAX_FDS \<and> fd_unused (fds t ! fd)"
  unfolding fd_alloc_def by (drule find_upt) simp

lemma sys_close_ok:
  assumes "table_ok k" "refs_ok k"
  shows "table_ok (snd (sys_close fd k)) \<and> refs_ok (snd (sys_close fd k))"
proof (cases "sched_get_current k")
  case (Some c)
  then have c: "c < MAX_TASKS" using table_okD(4) [OF assms(1)] by (simp add: sched_get_current_def)
  show ?thesis
  proof (cases "fd_get (task_at k c) (to_int fd)")
    case (Some f)
    have "table_ok (fd_put c (nat (to_int fd)) k)" "refs_ok (fd_put c (nat (to_int fd)) k)"
      using fd_put_ok [OF assms c] fd_get_Some [OF Some] by blast+
    then show ?thesis using Some \<open>sched_get_current k = Some c\<close> by (simp add: sys_close_def)
  qed (use Some assms in \<open>simp add: sys_close_def\<close>)
qed (use assms in \<open>simp add: sys_close_def\<close>)

lemma current_alive: "table_ok k \<Longrightarrow> sched_get_current k = Some c \<Longrightarrow> c < MAX_TASKS \<and> state (task_at k c) \<noteq> TASK_FREE"
  using table_okD(4) unfolding table_ok_def sane_def sched_get_current_def by blast

lemma fd_put_current: "table_ok k \<Longrightarrow> sched_get_current (fd_put c fd k) = sched_get_current k"
  by (simp add: fd_put_def sched_get_current_def drop_ref_facts(3))

lemma fd_put_entry:
  assumes "table_ok k" "c < MAX_TASKS" "fd < MAX_FDS" shows "fds (task_at (fd_put c fd k) c) ! fd = zero_file"
proof -
  note d = drop_ref_facts(1) [OF assms(1), of "fds (task_at k c) ! fd"]
  show ?thesis using table_okD(3) [OF d] table_okD(5) [OF d assms(2)] assms(2,3) by (simp add: fd_put_def task_at_set_fd task_ok_def)
qed

lemma do_dup2_ok:
  assumes t: "table_ok k" and r: "refs_ok k" and c: "sched_get_current k = Some c"
  shows "table_ok (snd (do_dup2 c old new k)) \<and> refs_ok (snd (do_dup2 c old new k))"
proof (cases "fd_get (task_at k c) old = None \<or> new < 0 \<or> new \<ge> int MAX_FDS \<or> old = new")
  case True
  then show ?thesis using t r by (auto simp: do_dup2_def)
next
  case False
  then obtain g where g: "fd_get (task_at k c) old = Some g" and n: "nat new < MAX_FDS" "0 \<le> new" "new < int MAX_FDS" by auto
  note cc = current_alive [OF t c]
  define k1 where "k1 = (if fd_get (task_at k c) new \<noteq> None then fd_put c (nat new) k else k)"
  have k1: "table_ok k1" "refs_ok k1" "sched_get_current k1 = Some c" "f_pipe (fds (task_at k1 c) ! nat new) = 0"
    using fd_put_ok [OF t r _ n(1), of c] fd_put_current [OF t, of c "nat new"] fd_put_entry [OF t _ n(1), of c] fd_get_None [of "task_at k c" new] t r c cc n
    by (auto simp: k1_def zero_file_def fd_unused_def)
  let ?f = "fds (task_at k1 c) ! nat old"
  have o': "nat old < MAX_FDS" using fd_get_Some [OF g] by blast
  have "entry_ok ?f" using table_okD(5) [OF k1(1), of c] cc o' by (simp add: task_ok_def)
  moreover have "f_pipe ?f = 0 \<or> pipe_counts k1 (f_pipe ?f) \<noteq> None" using entry_alive [OF k1(1,2) _ o', of c] cc by blast
  ultimately have "table_ok (add_ref ?f (set_fd c (nat new) ?f k1))" "refs_ok (add_ref ?f (set_fd c (nat new) ?f k1))"
    using copy_entry_ok [OF k1(1,2) _ n(1) _ _ _ k1(4)] current_alive [OF k1(1,3)] by blast+
  then show ?thesis using False unfolding do_dup2_def Let_def k1_def [symmetric] by (simp add: g)
qed

lemma sys_dup_ok: "table_ok k \<Longrightarrow> refs_ok k \<Longrightarrow> table_ok (snd (sys_dup fd k)) \<and> refs_ok (snd (sys_dup fd k))"
  and sys_dup2_ok: "table_ok k \<Longrightarrow> refs_ok k \<Longrightarrow> table_ok (snd (sys_dup2 fd fd' k)) \<and> refs_ok (snd (sys_dup2 fd fd' k))"
  by (auto simp: sys_dup_def sys_dup2_def do_dup2_ok split: option.split)

text \<open>A new pipe: the pointer is not that of a pipe in use.\<close>

lemma put_task_twice: "put_task i t (put_task i t' k) = put_task i t k"
  by (simp add: put_task_def)

lemma set_fd_overwrite: "c < length (tasks k) \<Longrightarrow> set_fd c fd g (set_fd c fd f k) = set_fd c fd g k"
  by (simp add: set_fd_def put_task_twice)

lemma set_fd_swap: "c < length (tasks k) \<Longrightarrow> fd \<noteq> fd' \<Longrightarrow> set_fd c fd f (set_fd c fd' g k) = set_fd c fd' g (set_fd c fd f k)"
  by (simp add: set_fd_def put_task_twice list_update_swap)

lemma pipe_create_facts:
  assumes "table_ok k" "ptr \<noteq> 0" "pipes k ptr = None"
  defines "k0 \<equiv> snd (pipe_create ptr k)"
  shows "table_ok k0" "tasks k0 = tasks k" "current k0 = current k" "pipe_counts k0 = (pipe_counts k)(ptr \<mapsto> (1, 1))" "fst (pipe_create ptr k) = ptr"
    "(pipe_counts k) ptr = None" "task_at k0 = task_at k"
proof -
  have k0: "k0 = k\<lparr>pipes := (pipes k)(ptr \<mapsto> zero_pipe\<lparr>readers := 1, writers := 1\<rparr>)\<rparr>" using assms(2) by (simp add: k0_def pipe_create_def)
  show "tasks k0 = tasks k" "current k0 = current k" by (simp_all add: k0)
  then show "table_ok k0" "task_at k0 = task_at k" using same_tasks_table [OF _ _ _ _ assms(1), of k0] by (simp_all add: k0 task_at_def fun_eq_iff)
  show "pipe_counts k0 = (pipe_counts k)(ptr \<mapsto> (1, 1))" by (rule ext) (simp add: k0 pipe_counts_def)
  show "fst (pipe_create ptr k) = ptr" "(pipe_counts k) ptr = None" using assms(2,3) by (simp_all add: pipe_create_def pipe_counts_def)
qed

text \<open>Giving the new pipe back.\<close>

lemma pipe_undo:
  assumes t: "table_ok k" and r: "refs_ok k" and ptr: "ptr \<noteq> 0" and none: "pipe_counts k ptr = None"
    and k': "table_ok k'" "map core (tasks k') = map core (tasks k)" "pipe_counts k' = (pipe_counts k)(ptr \<mapsto> (1, 1))"
  shows "table_ok (pipe_unref ptr 1 1 k') \<and> refs_ok (pipe_unref ptr 1 1 k')"
proof -
  note u = unref_facts [OF table_okD(1) [OF k'(1)] ptr, of 1 1]
  have "pipe_counts (pipe_unref ptr 1 1 k') = pipe_counts k" by (rule ext) (simp add: u(6) k'(3) none)
  then show ?thesis using same_core_table [OF k'(1) u(1-4)] same_core_refs [OF _ _ r] u(2) k'(2) by simp
qed

lemma set_unused_core:
  assumes "c < length (tasks k)" "fd_unused (fds (task_at k c) ! fd)"
  shows "map core (tasks (set_fd c fd zero_file k)) = map core (tasks k)"
proof (rule map_core_eqI)
  have "map (\<lambda>f. (f_pipe f, f_flags f)) ((fds (task_at k c))[fd := zero_file]) = map (\<lambda>f. (f_pipe f, f_flags f)) (fds (task_at k c))"
  proof (cases "fd < length (fds (task_at k c))")
    case True
    then show ?thesis using assms(2) by (intro nth_equalityI) (auto simp: nth_list_update zero_file_def fd_unused_def)
  qed (simp add: list_update_beyond)
  then show "core (task_at (set_fd c fd zero_file k) i) = core (task_at k i)" for i using assms(1) by (simp add: task_at_set_fd core_def)
qed simp

lemma both_ends_ok:
  assumes t: "table_ok k" and r: "refs_ok k" and ptr: "ptr \<noteq> 0" "pipe_counts k ptr = None" and c: "sched_get_current k = Some c"
    and k0: "table_ok k0" "tasks k0 = tasks k" "pipe_counts k0 = (pipe_counts k)(ptr \<mapsto> (1, 1))" "task_at k0 = task_at k"
    and fd: "rd < MAX_FDS" "wr < MAX_FDS" "rd \<noteq> wr" "fd_unused (fds (task_at k c) ! rd)" "fd_unused (fds (task_at k c) ! wr)"
  defines "k' \<equiv> set_fd c wr (zero_file\<lparr>f_pipe := ptr, f_flags := FDF_PIPE_WR\<rparr>) (set_fd c rd (zero_file\<lparr>f_pipe := ptr, f_flags := FDF_PIPE_RD\<rparr>) k0)"
  shows "table_ok k' \<and> refs_ok k'"
proof -
  note cc = current_alive [OF t c]
  have l: "c < length (tasks k0)" "rd < length (fds (task_at k0 c))" "wr < length (fds (task_at k0 c))"
    using table_okD(3) [OF k0(1)] table_okD(5) [OF k0(1), of c] cc fd(1,2) by (auto simp: task_ok_def)
  have e: "entry_ok (zero_file\<lparr>f_pipe := ptr, f_flags := FDF_PIPE_RD\<rparr>)" "entry_ok (zero_file\<lparr>f_pipe := ptr, f_flags := FDF_PIPE_WR\<rparr>)"
    using ptr(1) by (simp_all add: entry_ok_def rd_end_def wr_end_def)
  have t': "table_ok k'" unfolding k'_def using cc e k0(1,4) l(1) by (intro table_set_fd) (auto simp: task_at_set_fd)
  have en: "ends h k' p = ends h k p + counted h p (zero_file\<lparr>f_pipe := ptr, f_flags := FDF_PIPE_RD\<rparr>) + counted h p (zero_file\<lparr>f_pipe := ptr, f_flags := FDF_PIPE_WR\<rparr>)" if "p \<noteq> 0" for h p
  proof -
    have "ends h k0 p = ends h k p" by (simp add: ends_def k0(2))
    then show ?thesis unfolding k'_def using l fd(3-5) that k0(4) by (auto simp: ends_set_fd task_at_set_fd fd_unused_def)
  qed
  have one: "ends rd_end k' p = ends rd_end k p + (if p = ptr then 1 else 0)" "ends wr_end k' p = ends wr_end k p + (if p = ptr then 1 else 0)" if "p \<noteq> 0" for p
    by (simp_all add: en [OF that] rd_end_def wr_end_def zero_file_def)
  have old: "pipe_counts k p = (if ends rd_end k p + ends wr_end k p = 0 then None else Some (ends rd_end k p, ends wr_end k p))" if "p \<noteq> 0" for p
    using r that by (simp add: refs_ok_def)
  have "ends rd_end k ptr = 0" "ends wr_end k ptr = 0"
    using old [OF ptr(1)] ptr(2) ends_nonneg [of rd_end k ptr] ends_nonneg [of wr_end k ptr] by (simp_all split: if_splits)
  moreover have pc: "pipe_counts k' = (pipe_counts k)(ptr \<mapsto> (1, 1))" by (simp add: k'_def k0(3))
  ultimately have "pipe_counts k' p = (if ends rd_end k' p + ends wr_end k' p = 0 then None else Some (ends rd_end k' p, ends wr_end k' p))" if p: "p \<noteq> 0" for p
    unfolding one [OF p] by (simp add: old [OF p])
  then show ?thesis using t' r ptr(1) unfolding refs_ok_def by (simp add: pc)
qed

lemma sys_pipe_ok:
  assumes t: "table_ok k" and r: "refs_ok k" and fresh: "pipes k ptr = None"
  shows "table_ok (snd (sys_pipe ptr ufds k)) \<and> refs_ok (snd (sys_pipe ptr ufds k))"
proof (cases "sched_get_current k = None \<or> ptr = 0")
  case True
  then show ?thesis using t r by (auto simp: sys_pipe_def pipe_create_def Let_def split: option.split)
next
  case False
  then obtain c where c: "sched_get_current k = Some c" and ptr: "ptr \<noteq> 0" by auto
  note cc = current_alive [OF t c]
  obtain k0 where k0: "pipe_create ptr k = (ptr, k0)" using pipe_create_facts(5) [OF t ptr fresh] by (metis prod.collapse)
  note p = pipe_create_facts [OF t ptr fresh, unfolded k0 snd_conv]
  have l: "c < length (tasks k0)" using table_okD(3) [OF p(1)] cc by simp
  show ?thesis
  proof (cases "fd_alloc (task_at k c)")
    case None
    then show ?thesis using pipe_undo [OF t r ptr p(6,1) _ p(4)] c ptr by (simp add: sys_pipe_def k0 p(2,7))
  next
    case (Some rd)
    note rd = fd_alloc_Some [OF Some]
    define k1 where "k1 = set_fd c rd (zero_file\<lparr>f_pipe := ptr\<rparr>) k0"
    have z: "set_fd c rd g k1 = set_fd c rd g k0" for g unfolding k1_def using l by (rule set_fd_overwrite)
    show ?thesis
    proof (cases "fd_alloc (task_at k1 c)")
      case None
      have "table_ok (pipe_unref ptr 1 1 (set_fd c rd zero_file k0)) \<and> refs_ok (pipe_unref ptr 1 1 (set_fd c rd zero_file k0))"
      proof (rule pipe_undo [OF t r ptr p(6)])
        show "table_ok (set_fd c rd zero_file k0)" using cc by (intro table_set_fd [OF p(1)]) (simp_all add: entry_ok_def rd_end_def wr_end_def zero_file_def)
        show "map core (tasks (set_fd c rd zero_file k0)) = map core (tasks k)" using set_unused_core [OF l, of rd] rd by (simp add: p(2,7))
      qed (simp add: p(4))
      then show ?thesis using None Some c z ptr by (simp add: sys_pipe_def k0 p(7) k1_def [symmetric] Let_def)
    next
      case wr': (Some wr)
      have f1: "fds (task_at k1 c) = (fds (task_at k c))[rd := zero_file\<lparr>f_pipe := ptr\<rparr>]" using l by (simp add: k1_def task_at_set_fd p(7))
      have w: "wr < MAX_FDS" "fd_unused (fds (task_at k1 c) ! wr)" using fd_alloc_Some [OF wr'] by simp_all
      have len: "rd < length (fds (task_at k c))" using table_okD(5) [OF t, of c] cc rd by (simp add: task_ok_def)
      have ne: "rd \<noteq> wr" using w(2) len ptr by (auto simp: f1 fd_unused_def)
      then have u: "fd_unused (fds (task_at k c) ! wr)" using w(2) by (simp add: f1)
      define k2 where "k2 = set_fd c wr (zero_file\<lparr>f_pipe := ptr, f_flags := FDF_PIPE_WR\<rparr>) (set_fd c rd (zero_file\<lparr>f_pipe := ptr, f_flags := FDF_PIPE_RD\<rparr>) k0)"
      have k2: "table_ok k2 \<and> refs_ok k2"
        unfolding k2_def using both_ends_ok [OF t r ptr p(6) c p(1,2,4,7)] rd w(1) ne u by blast
      have "fds (task_at (set_fd c wr zero_file k1) c) ! rd = zero_file\<lparr>f_pipe := ptr\<rparr>" using l len ne by (simp add: task_at_set_fd k1_def p(7))
      then have e: "set_fd c wr (zero_file\<lparr>f_pipe := ptr, f_flags := FDF_PIPE_WR\<rparr>) (set_fd c rd ((fds (task_at (set_fd c wr zero_file k1) c) ! rd)\<lparr>f_flags := FDF_PIPE_RD\<rparr>) (set_fd c wr zero_file k1)) = k2"
        using l ne by (simp add: k2_def k1_def set_fd_swap [of c _ rd wr] set_fd_overwrite)
      have "table_ok k3 \<and> refs_ok k3" if "uwrite ufds bs k2 = Some k3" for bs k3
        using calm_ok [OF calm_mem [OF step_uwrite [OF that]]] k2 by blast
      then show ?thesis using Some wr' c k2 unfolding sys_pipe_def
        by (simp add: k0 p(7) k1_def [symmetric] Let_def e ptr split: option.split)
    qed
  qed
qed

subsection \<open>Calls that only move bytes\<close>

lemma calm_getchar: "calm k (snd (kbd_getchar sp k))"
  by (auto simp: kbd_getchar_def Let_def split: option.split intro: calm_steps calm_refl)

lemma calm_console_read: "calm k (snd (snd (console_read sp n got k)))"
proof (induction sp n got k rule: console_read.induct)
  case (1 sp n got k)
  obtain r k1 where g: "kbd_getchar sp k = (r, k1)" by fastforce
  have k1: "calm k k1" using calm_getchar [of k sp] by (simp add: g)
  show ?case
  proof (cases "length got \<ge> n \<or> (\<exists>h. r = IO_Parked h)")
    case True
    then show ?thesis using k1 by (subst console_read.simps) (auto simp: g calm_refl)
  next
    case False
    then obtain c bs where r: "r = IO_Ret c bs" by (cases r) auto
    define k2 where "k2 = k1\<lparr>con := tty_putc (char_of (nat c)) (con k1)\<rparr>"
    have k2: "calm k k2" unfolding k2_def by (rule calm_kdev_fields(2) [OF k1])
    have "calm k2 (snd (snd (console_read sp n (got @ [of_char (char_of (nat c) :: char)]) k2)))" if "\<not> c < 0" "char_of (nat c) \<noteq> nl"
      using 1 [OF _ g [symmetric]] False that r g unfolding k2_def by simp
    then show ?thesis using False k1 k2 calm_trans [OF k2] by (subst console_read.simps) (auto simp: g r Let_def k2_def [symmetric] intro: calm_kdev_fields(2))
  qed
qed

lemma calm_console_in: "calm k (snd (snd (console_in sp n got k)))"
proof (induction sp n got k rule: console_in.induct)
  case (1 sp n got k)
  obtain r k1 where g: "kbd_getchar sp k = (r, k1)" by fastforce
  have k1: "calm k k1" using calm_getchar [of k sp] by (simp add: g)
  show ?case
  proof (cases "length got \<ge> n \<or> (\<exists>h. r = IO_Parked h)")
    case True
    then show ?thesis using k1 by (subst console_in.simps) (auto simp: g calm_refl)
  next
    case False
    then obtain c bs where r: "r = IO_Ret c bs" by (cases r) auto
    define k2 where "k2 = k1\<lparr>con := tty_putc (char_of (nat c)) (con k1)\<rparr>"
    have k2: "calm k k2" unfolding k2_def by (rule calm_kdev_fields(2) [OF k1])
    have "calm k2 (snd (snd (console_in sp n (got @ [of_char (char_of (nat c) :: char)]) k2)))" if "\<not> c < 0" "char_of (nat c) \<noteq> nl"
      using 1 [OF _ g [symmetric]] False that r g unfolding k2_def by simp
    then show ?thesis using False k1 k2 calm_trans [OF k2] by (subst console_in.simps) (auto simp: g r Let_def k2_def [symmetric] intro: calm_kdev_fields(2))
  qed
qed

lemma calm_dev_read: "calm k (snd (snd (dev_read sp d n got k)))"
  by (cases d) (auto simp: dev_read_def random_read_def Let_def calm_console_read split: prod.split intro: calm_steps calm_refl)

lemma calm_dev_write: "calm k (snd (dev_write d bs k))"
  by (cases d) (auto simp: dev_write_def console_write_def Let_def split: prod.split option.split intro: calm_steps calm_refl)

lemma calm_put_pipe:
  assumes "readers p = readers (the_pipe k ptr)" "writers p = writers (the_pipe k ptr)" "pipes k ptr \<noteq> None"
  shows "calm k (put_pipe ptr p k)"
proof -
  have "pipe_counts (put_pipe ptr p k) = pipe_counts k" using assms by (auto simp: fun_eq_iff pipe_counts_def put_pipe_def the_pipe_def)
  moreover have "sane (put_pipe ptr p k) = sane k" unfolding sane_def sched_inv_def task_at_def by (simp add: put_pipe_def)
  ultimately show ?thesis unfolding calm_def by (simp add: put_pipe_def)
qed

lemma calm_park: "sane k \<longrightarrow> state (task_at k c) \<noteq> TASK_FREE \<Longrightarrow> calm k (park_on_pipe sp ptr c k)"
  unfolding park_on_pipe_def by (intro calm_rules calm_block calm_refl) simp

lemma drain_ends: "drain n p = (bs, p') \<Longrightarrow> readers p' = readers p \<and> writers p' = writers p"
  by (induction n arbitrary: p bs p') (auto simp: Let_def split: prod.splits)

lemma fill_ends: "fill bs p = (c, p') \<Longrightarrow> readers p' = readers p \<and> writers p' = writers p"
  by (induction bs p arbitrary: c p' rule: fill.induct) (auto simp: pipe_put_def split: if_splits prod.splits)

lemma calm_pipe_read:
  assumes "pipes k ptr \<noteq> None" "sane k \<longrightarrow> state (task_at k c) \<noteq> TASK_FREE"
  shows "calm k (snd (pipe_read sp ptr n c k))"
proof -
  obtain bs p' where t: "pipe_take n (the_pipe k ptr) = (bs, p')" by fastforce
  then have "readers p' = readers (the_pipe k ptr)" "writers p' = writers (the_pipe k ptr)"
    using drain_ends by (auto simp: pipe_take_def Let_def split: prod.splits if_splits)
  then have "calm k (pipe_wake ptr (put_pipe ptr p' k))" using assms(1) by (intro calm_rules calm_put_pipe)
  then show ?thesis using calm_park [OF assms(2)] by (simp add: pipe_read_def Let_def t calm_refl)
qed

lemma calm_alive: "calm k k' \<Longrightarrow> sane k \<Longrightarrow> state (task_at k c) \<noteq> TASK_FREE \<Longrightarrow> state (task_at k' c) \<noteq> TASK_FREE"
  using calmD(2) [of k k' c] by (simp add: core_def)

lemma calm_pipe_write:
  assumes "pipes k ptr \<noteq> None" "sane k" "state (task_at k c) \<noteq> TASK_FREE"
  shows "calm k (snd (pipe_write_from sp ptr data don c k))"
  using assms
proof (induction sp ptr data don c k rule: pipe_write_from.induct)
  case (1 sp ptr data don c k)
  obtain n p' where f: "fill (drop don data) (the_pipe k ptr) = (n, p')" by fastforce
  define k1 where "k1 = pipe_wake ptr (put_pipe ptr p' k)"
  have k1: "calm k k1" unfolding k1_def using fill_ends [OF f] 1(2) by (intro calm_rules calm_put_pipe) simp_all
  have p: "pipes k1 ptr \<noteq> None" by (simp add: k1_def put_pipe_def)
  have park: "calm k (park_on_pipe sp ptr c k)" using 1(4) by (intro calm_park) simp
  have "calm k1 (snd (pipe_write_from sp ptr data (don + n) c k1))"
    if "\<not> length data \<le> don" "readers (the_pipe k ptr) \<noteq> 0" "\<not> sig_abort (task_at k c)" "p_len (the_pipe k ptr) < PIPE_BUF"
    using 1(1) [OF that f [symmetric]] p calmD(1) [OF k1 1(3)] calm_alive [OF k1 1(3,4)] unfolding k1_def by simp
  then show ?case using park calm_trans [OF k1] by (subst pipe_write_from.simps) (simp add: f k1_def [symmetric] calm_refl)
qed

lemma calm_give: "calm k (snd (give r buf got bs res k))"
  by (auto simp: give_def calm_refl calm_uwrite_in split: option.split)

lemma mem_step_task: "mem_step k k' \<Longrightarrow> task_at k' = task_at k"
proof -
  assume "mem_step k k'"
  then have "tasks k' = tasks k" unfolding mem_step_def by (metis (no_types, lifting) sched.select_convs(1) sched.surjective sched.update_convs(14,15))
  then show ?thesis by (simp add: task_at_def fun_eq_iff)
qed

lemma calm_file_read:
  assumes "f = fds (task_at k c) ! fd"
  shows "calm k (snd (file_read c fd f buf count k))"
proof -
  obtain r bs where v: "vfs_read (procfs_read k) (f_node f) (unat count) (unat (f_pos f)) (fsys k) = (r, bs)" by fastforce
  show ?thesis
  proof (cases "uwrite buf bs k")
    case (Some k1)
    note s = step_uwrite [OF Some]
    have "calm k (set_fd c fd (f\<lparr>f_pos := f_pos f + of_int r\<rparr>) k1)"
      unfolding set_fd_def by (rule calm_fds [OF calm_mem [OF s]]) (simp add: mem_step_task [OF s] assms)
    then show ?thesis using calm_mem [OF s] by (simp add: file_read_def v Some)
  qed (simp add: file_read_def v calm_refl)
qed

text \<open>A descriptor of a pipe end is one of an existing pipe.\<close>

lemma pipe_entry_alive:
  assumes "table_ok k" "refs_ok k" "c < MAX_TASKS" "fd_get (task_at k c) fd = Some f" "f_flags f AND FDF_PIPE_RD \<noteq> 0 \<or> f_flags f AND FDF_PIPE_WR \<noteq> 0"
  shows "pipes k (f_pipe f) \<noteq> None"
proof -
  note f = fd_get_Some [OF assms(4)]
  have "entry_ok f" using f table_okD(5) [OF assms(1,3)] by (simp add: task_ok_def)
  then have "f_pipe f \<noteq> 0" using assms(5) end_values [of f] by (auto simp: entry_ok_def rd_end_def wr_end_def split: if_splits)
  then show ?thesis using entry_alive [OF assms(1-3), of "nat fd"] f by (simp add: pipe_counts_def)
qed

lemma calm_read:
  assumes t: "table_ok k" and r: "refs_ok k"
  shows "calm k (snd (sys_read_from sp got fd buf count k))"
proof (cases "sched_get_current k")
  case (Some c)
  note cc = current_alive [OF t Some]
  show ?thesis
  proof (cases "fd_get (task_at k c) (to_int fd)")
    case f: (Some f)
    note g = fd_get_Some [OF f]
    have dv: "calm k (snd (case dev_read sp cd n got k of (res, bs, k') \<Rightarrow> give a b m bs (h bs res) k'))" for cd n a b m h
      using calm_trans [OF calm_dev_read [of k sp cd n got] calm_give] by (simp add: case_prod_beta)
    have ci: "calm k (snd (case console_in sp n got k of (res, bs, k') \<Rightarrow> give a b m bs res k'))" for n a b m
      using calm_trans [OF calm_console_in [of k sp n got] calm_give] by (simp add: case_prod_beta)
    obtain io k3 where pr: "pipe_read sp (f_pipe f) (unat count) c k = (io, k3)" by fastforce
    have k3: "calm k k3" "calm k (snd (give a b m bs res k3))" if "f_flags f AND FDF_PIPE_RD \<noteq> 0" for a b m bs res
      using calm_pipe_read [of k "f_pipe f" c sp "unat count"] pipe_entry_alive [OF t r _ f] cc that calm_trans [OF _ calm_give] by (auto simp: pr)
    have "calm k (snd (file_read c (nat (to_int fd)) f buf count k))" using g by (intro calm_file_read) simp
    then show ?thesis unfolding sys_read_from_def Some option.case f Let_def
      by (simp add: dv ci pr k3 calm_refl split: option.split io.split)
  qed (simp add: sys_read_from_def Some calm_refl)
qed (simp add: sys_read_from_def calm_refl)

lemma calm_resume: "calm k (pipe_resume c k)"
  unfolding pipe_resume_def by (rule calm_put_sched [OF calm_refl])

lemma calm_resume_read:
  assumes "table_ok k" "refs_ok k"
  shows "calm k (snd (resume_read sp ct fd buf count k))"
proof -
  have "calm k (snd (sys_read_from sp [] fd buf count (pipe_resume c k)))" for c
    using calm_trans [OF calm_resume calm_read] calm_ok [OF calm_resume assms(1)] assms(2) by blast
  then show ?thesis using calm_read [OF assms] by (auto simp: resume_read_def calm_refl split: cont.split option.split)
qed

lemma calm_write:
  assumes t: "table_ok k" and r: "refs_ok k"
  shows "calm k (snd (sys_write_from sp don fd buf count k))"
proof (cases "sched_get_current k")
  case (Some c)
  note cc = current_alive [OF t Some]
  show ?thesis
  proof (cases "fd_get (task_at k c) (to_int fd)")
    case f: (Some f)
    note g = fd_get_Some [OF f]
    have dv: "calm k (snd (dev_write cd bs (klogf fm ap k)))" for cd bs fm ap by (rule calm_trans [OF calm_kernel_fields(3) [OF calm_refl] calm_dev_write])
    have lg: "calm k ((klogf fm ap k)\<lparr>con := x\<rparr>)" for fm ap x by (intro calm_steps calm_refl)
    obtain io k3 where pw: "pipe_write_from sp (f_pipe f) (ubytes k buf (unat count)) don c k = (io, k3)" by fastforce
    have k3: "calm k k3" if "f_flags f AND FDF_PIPE_WR \<noteq> 0"
      using calm_pipe_write [of k "f_pipe f" c sp] pipe_entry_alive [OF t r _ f] cc that table_okD(1) [OF t] pw by (metis snd_conv)
    have vw: "calm k (set_fd c (nat (to_int fd)) (f\<lparr>f_pos := x\<rparr>) (k\<lparr>fsys := v\<rparr>))" for x v
    proof -
      have "task_at (k\<lparr>fsys := v\<rparr>) = task_at k" by (simp add: task_at_def fun_eq_iff)
      then show ?thesis unfolding set_fd_def using g by (intro calm_fds calm_steps calm_refl) simp
    qed
    show ?thesis unfolding sys_write_from_def Some option.case f Let_def
      by (simp add: dv calm_dev_write lg pw k3 vw calm_kdev_fields calm_refl case_prod_beta split: option.split io.split)
  qed (simp add: sys_write_from_def Some calm_refl)
qed (simp add: sys_write_from_def calm_refl)

lemma calm_resume_write:
  assumes "table_ok k" "refs_ok k"
  shows "calm k (snd (resume_write sp ct fd buf count k))"
proof -
  have "calm k (snd (sys_write_from sp don fd buf count (pipe_resume c k)))" for c don
    using calm_trans [OF calm_resume calm_write] calm_ok [OF calm_resume assms(1)] assms(2) by blast
  then show ?thesis by (auto simp: resume_write_def calm_refl split: cont.split option.split)
qed

lemma calm_open: "calm k (snd (sys_open path flags k))"
proof -
  have "calm k (set_fd c fd (zero_file\<lparr>f_node := n, f_pos := x\<rparr>) (k\<lparr>fsys := v\<rparr>))" if "fd_alloc (task_at (k\<lparr>fsys := v\<rparr>) c) = Some fd" for c fd n x v
    unfolding set_fd_def using fd_alloc_Some [OF that] by (intro calm_fds calm_steps calm_refl) (simp add: fd_unused_def zero_file_def)
  then show ?thesis by (simp add: sys_open_def Let_def calm_kdev_fields calm_refl case_prod_beta split: option.split)
qed

subsection \<open>Owners\<close>

text \<open>Operations on descriptors change neither the processes nor their owners.\<close>

definition ident :: "task \<Rightarrow> bool \<times> int \<times> int \<times> u32" where
  "ident t = (state t = TASK_FREE, pid t, parent_pid t, uid t)"

definition same_ident :: "'a sched_scheme \<Rightarrow> 'a sched_scheme \<Rightarrow> bool" where
  "same_ident k k' \<longleftrightarrow> map ident (tasks k') = map ident (tasks k)"

lemma same_ident_refl [simp]: "same_ident k k" and same_ident_trans: "same_ident k k' \<Longrightarrow> same_ident k' k'' \<Longrightarrow> same_ident k k''"
  by (simp_all add: same_ident_def)

lemma same_identI: "length (tasks k') = length (tasks k) \<Longrightarrow> (\<And>i. ident (task_at k' i) = ident (task_at k i)) \<Longrightarrow> same_ident k k'"
  unfolding same_ident_def by (rule nth_equalityI) (simp, metis length_map nth_map task_at_def)

lemma same_identD: "same_ident k k' \<Longrightarrow> ident (task_at k' i) = ident (task_at k i)"
proof -
  assume s: "same_ident k k'"
  then have "length (tasks k') = length (tasks k)" unfolding same_ident_def by (rule map_eq_imp_length_eq)
  then show ?thesis using s by (auto simp: same_ident_def task_at_def) (metis nth_map)
qed

lemma core_ident: "core t = core t' \<Longrightarrow> ident t = ident t'"
  by (simp add: core_def ident_def)

lemma core_same_ident: "map core (tasks k') = map core (tasks k) \<Longrightarrow> same_ident k k'"
  unfolding same_ident_def by (rule map_eq_cong [OF _ core_ident])

lemma calm_ident: "calm k k' \<Longrightarrow> sane k \<Longrightarrow> same_ident k k'"
  using calmD(6) core_same_ident by blast

lemma put_ident: "ident t = ident (task_at k i) \<Longrightarrow> same_ident k (put_task i t k)"
  by (rule same_identI) simp_all

lemma set_fd_ident: "same_ident k (set_fd c fd f k)"
  unfolding set_fd_def by (rule put_ident) (simp add: ident_def)

lemma drop_ref_ident: "table_ok k \<Longrightarrow> same_ident k (drop_ref f k)"
  using drop_ref_facts(2) core_same_ident by blast

lemma fd_put_ident: "table_ok k \<Longrightarrow> same_ident k (fd_put c fd k)"
  unfolding fd_put_def by (rule same_ident_trans [OF drop_ref_ident set_fd_ident])

lemma unref_ident: "sane k \<Longrightarrow> same_ident k (pipe_unref p r w k)"
proof (cases "p = 0")
  case False
  assume "sane k"
  then show ?thesis using False by (intro core_same_ident unref_facts(2))
qed (simp add: pipe_unref_def)

text \<open>Dropping the references of a task, entry by entry.\<close>

lemma fd_put_view:
  assumes "table_ok k" "c < MAX_TASKS"
  shows "map (\<lambda>f. (f_pipe f, f_flags f)) (fds (task_at (fd_put c fd k) c)) = (map (\<lambda>f. (f_pipe f, f_flags f)) (fds (task_at k c)))[fd := (0, 0)]"
proof -
  note d = drop_ref_facts [OF assms(1), of "fds (task_at k c) ! fd"]
  have "core (task_at (drop_ref (fds (task_at k c) ! fd) k) c) = core (task_at k c)"
    using d(2) table_okD(3) [OF assms(1)] table_okD(3) [OF d(1)] assms(2) by (auto simp: task_at_def) (metis nth_map)
  note e = core_entries [OF this]
  have "fds (task_at (fd_put c fd k) c) = (fds (task_at (drop_ref (fds (task_at k c) ! fd) k) c))[fd := zero_file]"
    using table_okD(3) [OF d(1)] assms(2) by (simp add: fd_put_def task_at_set_fd)
  then show ?thesis by (simp add: map_update e zero_file_def)
qed

lemma fds_release_facts:
  assumes "table_ok k" "refs_ok k" "c < MAX_TASKS"
  shows "same_ident k (fds_release c k)" "current (fds_release c k) = current k" "f \<in> set (fds (task_at (fds_release c k) c)) \<Longrightarrow> f_pipe f = 0"
    "next_pid (fds_release c k) = next_pid k"
proof -
  define v where "v k = map (\<lambda>f. (f_pipe f, f_flags f)) (fds (task_at k c))" for k :: "'a ipc_scheme"
  have a: "same_ident k (fold (fd_put c) [0 ..< n] k) \<and> current (fold (fd_put c) [0 ..< n] k) = current k \<and> next_pid (fold (fd_put c) [0 ..< n] k) = next_pid k \<and>
      table_ok (fold (fd_put c) [0 ..< n] k) \<and> refs_ok (fold (fd_put c) [0 ..< n] k) \<and> (\<forall>i < n. v (fold (fd_put c) [0 ..< n] k) ! i = (0, 0))" if "n \<le> MAX_FDS" for n
    using that
  proof (induction n)
    case (Suc n)
    define k1 where "k1 = fold (fd_put c) [0 ..< n] k"
    have k1: "same_ident k k1" "current k1 = current k" "next_pid k1 = next_pid k" "table_ok k1" "refs_ok k1" "\<forall>i < n. v k1 ! i = (0, 0)" using Suc unfolding k1_def by auto
    have "length (v k1) = MAX_FDS" using table_okD(5) [OF k1(4) assms(3)] by (simp add: v_def task_ok_def)
    then have "\<forall>i < Suc n. v (fd_put c n k1) ! i = (0, 0)"
      using k1(6) Suc.prems fd_put_view [OF k1(4) assms(3), of n] unfolding v_def by (auto simp: nth_list_update less_Suc_eq)
    moreover have "current (fd_put c n k1) = current k" "next_pid (fd_put c n k1) = next_pid k"
      using fd_put_current [OF k1(4), of c n] k1(2,3) unref_facts(3) [OF table_okD(1) [OF k1(4)]]
      by (simp_all add: sched_get_current_def fd_put_def drop_ref_def)
    ultimately show ?case using same_ident_trans [OF k1(1) fd_put_ident [OF k1(4), of c n]] fd_put_ok [OF k1(4,5) assms(3), of n] Suc.prems
      by (simp add: k1_def [symmetric])
  qed (use assms in simp)
  have r: "fds_release c k = fold (fd_put c) [0 ..< MAX_FDS] k" unfolding fds_release_def fd_put_def ..
  have e: "\<forall>i < MAX_FDS. v (fds_release c k) ! i = (0, 0)" unfolding r using a [of MAX_FDS] by simp
  show "same_ident k (fds_release c k)" "current (fds_release c k) = current k" "next_pid (fds_release c k) = next_pid k" unfolding r using a [of MAX_FDS] by blast+
  have l: "length (fds (task_at (fds_release c k) c)) = MAX_FDS" using table_okD(5) [OF fds_release_ok(1) [OF assms] assms(3)] by (simp add: task_ok_def)
  assume "f \<in> set (fds (task_at (fds_release c k) c))"
  then show "f_pipe f = 0" using e l unfolding v_def by (auto simp: in_set_conv_nth)
qed

lemma add_ref_ident: "same_ident k (add_ref f k)"
  by (simp add: same_ident_def)

lemma sys_close_ident: "table_ok k \<Longrightarrow> same_ident k (snd (sys_close fd k))"
  by (simp add: sys_close_def fd_put_ident split: option.split)

lemma do_dup2_ident:
  assumes "table_ok k" shows "same_ident k (snd (do_dup2 c old new k))"
proof -
  have "same_ident k (add_ref f (set_fd c n g (if b then fd_put c m k else k)))" for f n g b m
    by (cases b) (auto intro: same_ident_trans [OF fd_put_ident [OF assms] same_ident_trans [OF set_fd_ident add_ref_ident]] same_ident_trans [OF set_fd_ident add_ref_ident])
  then show ?thesis by (simp add: do_dup2_def Let_def)
qed

lemma sys_dup_ident: "table_ok k \<Longrightarrow> same_ident k (snd (sys_dup fd k))" "table_ok k \<Longrightarrow> same_ident k (snd (sys_dup2 fd fd' k))"
  by (simp_all add: sys_dup_def sys_dup2_def do_dup2_ident split: option.split)

lemma step_ident: "mem_step k k' \<Longrightarrow> same_ident k k'"
proof -
  assume s: "mem_step k k'"
  have "k' = k\<lparr>frames := frames k', kmem := kmem k'\<rparr>" using s by (simp add: mem_step_def)
  then have "tasks k' = tasks k" by (metis sched.select_convs(1) sched.surjective sched.update_convs(14,15))
  then show ?thesis by (simp add: same_ident_def)
qed

lemma set_fd_sane: "sane k \<Longrightarrow> sane (set_fd c fd f k)"
proof -
  have st: "state (task_at (set_fd c fd f k) i) = state (task_at k i)" for i by (simp add: set_fd_def)
  assume "sane k"
  then show ?thesis unfolding sane_def sched_inv_def set_fd_sel st .
qed

lemma sys_pipe_ident:
  assumes "table_ok k" shows "same_ident k (snd (sys_pipe ptr ufds k))"
proof -
  define k0 where "k0 = snd (pipe_create ptr k)"
  have c: "pipe_create ptr k = (ptr, k0)" by (simp add: pipe_create_def k0_def)
  have k0: "tasks k0 = tasks k" "current k0 = current k" "next_pid k0 = next_pid k" "console_fds k0 = console_fds k" by (simp_all add: k0_def pipe_create_def)
  have ok: "same_ident k k0 \<and> sane k0" using table_okD(1) [OF same_tasks_table [OF k0 assms]] by (simp add: same_ident_def k0)
  have s: "same_ident k (set_fd c' fd f k') \<and> sane (set_fd c' fd f k')" if "same_ident k k' \<and> sane k'" for c' fd f k'
    using that same_ident_trans [OF _ set_fd_ident] set_fd_sane by blast
  have u: "same_ident k (pipe_unref p r w k')" if "same_ident k k' \<and> sane k'" for p r w k'
    using that same_ident_trans [OF _ unref_ident] by blast
  have w: "same_ident k k''" if "uwrite va bs k' = Some k''" "same_ident k k' \<and> sane k'" for va bs k' k''
    using that(2) same_ident_trans [OF _ step_ident [OF step_uwrite [OF that(1)]]] by blast
  show ?thesis unfolding sys_pipe_def c Let_def prod.case
    by (simp add: ok s u split: option.split) (intro allI impI, erule w, simp add: ok s)
qed

end
