(* ===== verification/Spec2Isabelle.thy ===== *)
theory Spec2Isabelle
  imports Prelude Pmm Mem Kstring Kheap Sched Fifo Pipe Kbd Vfs Base64 Sha256 Ulibc Calc Utools Devices Font Tty Decimal Procfs Devfs Pmap Kprintf Net Ports Audio Block Ide Pci Ext2 Paging Elf Gfx Umem Loader Kernel Taskview Fdtab
begin

text \<open>
  A verification library for the MMIX operating system kernel and its user programs.

  \<^item> \<open>Prelude\<close>: machine words, counting, generic list facts.
  \<^item> \<open>Pmm\<close>: the physical memory manager (\<open>src/kernel/src/mm/pmm.c\<close>).
\<close>

end
